(* ===== verification/Prelude.thy ===== *)
theory Prelude
  imports Main "HOL-Library.Word" "HOL-Library.Char_ord" "HOL-Library.List_Lexorder"
    "HOL-Library.Sublist"
begin

text \<open>
  Shared vocabulary of the NuSync development.

  Go bytes are HOL characters (a HOL \<^typ>\<open>char\<close> is exactly an 8-bit value), so that a Go
  \<^verbatim>\<open>string\<close> and a Go \<^verbatim>\<open>[]byte\<close> are both byte sequences and the conversions
  \<^verbatim>\<open>[]byte(s)\<close> and \<^verbatim>\<open>string(b)\<close> are the identity.  A fixed array
  \<^verbatim>\<open>[32]byte\<close> is the type \<open>hash32\<close> below; \<^verbatim>\<open>h[:]\<close> is \<open>bytes32 h\<close>, and
  \<^verbatim>\<open>var h [32]byte; copy(h[:], b)\<close> is \<open>copy32 b\<close>, which truncates or zero-pads
  just as the Go statement does.
\<close>

named_theorems go_defs \<open>definitions of the operations of the Go code\<close>
named_theorems codec_simps \<open>round-trip equations of encoders and decoders\<close>

section \<open>Bytes, strings and machine integers\<close>

type_synonym byte = char
type_synonym bytes = "char list"
type_synonym gostring = "char list"
type_synonym uint64 = "64 word"
type_synonym uint32 = "32 word"
type_synonym uint16 = "16 word"

text \<open>The value of a byte, and the byte of a value modulo 256 (Go's \<^verbatim>\<open>byte(n)\<close>).\<close>

abbreviation byte_val :: "byte \<Rightarrow> nat" where
  "byte_val \<equiv> of_char"

abbreviation byte_of :: "nat \<Rightarrow> byte" where
  "byte_of n \<equiv> char_of n"

lemma byte_val_byte_of: "byte_val (byte_of n) = n mod 256"
  by simp

lemma byte_of_inj: "m < 256 \<Longrightarrow> n < 256 \<Longrightarrow> byte_of m = byte_of n \<longleftrightarrow> m = n"
  by (metis mod_less of_char_of)

text \<open>Evaluates \<^term>\<open>byte_of n\<close> for a numeral.\<close>

lemmas char_eval = char_of_def bit_0

section \<open>Fixed 32-byte arrays\<close>

typedef hash32 = "{bs :: bytes. length bs = 32}"
  morphisms bytes32 mk_hash32
  by (rule exI [of _ "replicate 32 (CHR 0x00)"]) simp

setup_lifting type_definition_hash32

lift_definition copy32 :: "bytes \<Rightarrow> hash32"
  is "\<lambda>bs. take 32 (bs @ replicate 32 (CHR 0x00))"
  by simp

definition zero32 :: hash32 where
  "zero32 = copy32 []"

lemma length_bytes32 [simp]: "length (bytes32 h) = 32"
  using bytes32 by auto

lemma bytes32_copy32: "bytes32 (copy32 bs) = take 32 (bs @ replicate 32 (CHR 0x00))"
  by (rule copy32.rep_eq)

lemma bytes32_copy32_id [simp]: "length bs = 32 \<Longrightarrow> bytes32 (copy32 bs) = bs"
  by (simp add: bytes32_copy32)

lemma copy32_bytes32 [simp]: "copy32 (bytes32 h) = h"
  by (metis bytes32_copy32_id bytes32_inject length_bytes32)

lemma bytes32_eq_iff: "a = b \<longleftrightarrow> bytes32 a = bytes32 b"
  by (simp add: bytes32_inject)

lemma copy32_inject: "length a = 32 \<Longrightarrow> length b = 32 \<Longrightarrow> copy32 a = copy32 b \<longleftrightarrow> a = b"
  by (metis bytes32_copy32_id)

instantiation hash32 :: equal
begin

definition equal_hash32 :: "hash32 \<Rightarrow> hash32 \<Rightarrow> bool" where
  "equal_hash32 a b \<longleftrightarrow> bytes32 a = bytes32 b"

instance
  by standard (simp add: equal_hash32_def bytes32_inject)

end

section \<open>Results\<close>

text \<open>A Go function with a trailing \<^verbatim>\<open>error\<close> result returns \<open>Inl\<close> of the error or
  \<open>Inr\<close> of the value.\<close>

type_synonym ('e, 'a) result = "'e + 'a"

abbreviation is_ok :: "('e, 'a) result \<Rightarrow> bool" where
  "is_ok r \<equiv> \<not> isl r"

lemma is_ok_iff: "is_ok r \<longleftrightarrow> (\<exists>x. r = Inr x)"
  by (cases r) auto

section \<open>Encoders and decoders\<close>

text \<open>
  The contract every encoder of the program is used under: what was encoded from a valid value
  decodes to it again.  \<open>valid\<close> carves out the values the code hands to the encoder.
\<close>

locale codec =
  fixes enc :: "'a \<Rightarrow> 'b"
    and dec :: "'b \<Rightarrow> 'a option"
    and valid :: "'a \<Rightarrow> bool"
  assumes dec_enc: "valid x \<Longrightarrow> dec (enc x) = Some x"
begin

lemma enc_inj: "valid x \<Longrightarrow> valid y \<Longrightarrow> enc x = enc y \<Longrightarrow> x = y"
  by (metis dec_enc option.inject)

lemma enc_eq_iff: "valid x \<Longrightarrow> valid y \<Longrightarrow> enc x = enc y \<longleftrightarrow> x = y"
  using enc_inj by blast

lemma enc_inj_on: "inj_on enc {x. valid x}"
  by (rule inj_onI, rule enc_inj) simp_all

end

section \<open>Lists\<close>

lemma list_split_at:
  "xs ! i = x \<Longrightarrow> i < length xs \<Longrightarrow> xs = take i xs @ x # drop (Suc i) xs"
  using id_take_nth_drop by blast

lemma takeWhile_append_stop:
  "\<forall>x \<in> set xs. P x \<Longrightarrow> \<not> P y \<Longrightarrow> takeWhile P (xs @ y # ys) = xs"
  by (induction xs) auto

lemma dropWhile_append_stop:
  "\<forall>x \<in> set xs. P x \<Longrightarrow> \<not> P y \<Longrightarrow> dropWhile P (xs @ y # ys) = y # ys"
  by (induction xs) auto

lemma append_sep_inject:
  assumes "c \<notin> set xs" and "c \<notin> set xs'" and "xs @ c # ys = xs' @ c # ys'"
  shows "xs = xs' \<and> ys = ys'"
proof -
  have "takeWhile (\<lambda>x. x \<noteq> c) (xs @ c # ys) = xs"
    using assms(1) by (intro takeWhile_append_stop) auto
  moreover have "takeWhile (\<lambda>x. x \<noteq> c) (xs' @ c # ys') = xs'"
    using assms(2) by (intro takeWhile_append_stop) auto
  ultimately have "xs = xs'" using assms(3) by simp
  with assms(3) show ?thesis by simp
qed

end
