(* ===== verification/GoCodec.thy ===== *)
theory GoCodec
  imports Prelude
begin

text \<open>
  The text encodings of the Go standard library the program uses:
  \<^verbatim>\<open>encoding/hex\<close> (\<open>hex_EncodeToString\<close>, \<open>hex_DecodeString\<close>),
  \<^verbatim>\<open>encoding/base64\<close>'s \<^verbatim>\<open>StdEncoding\<close> (\<open>b64_EncodeToString\<close>,
  \<open>b64_DecodeString\<close>), the decimal conversions of \<^verbatim>\<open>strconv\<close>
  (\<open>FormatInt\<close>, \<open>FormatUint\<close>, \<open>ParseInt\<close>, \<open>ParseUint\<close>) and the helpers of
  \<^verbatim>\<open>strings\<close> (\<open>HasPrefix\<close>, \<open>TrimPrefix\<close>, \<open>SplitOn\<close>).
  Each encoder is an interpretation of the locale \<open>codec\<close>.
\<close>

section \<open>Hexadecimal\<close>

definition hex_digit :: "nat \<Rightarrow> char" where
  "hex_digit n = (if n < 10 then char_of (48 + n) else char_of (87 + n))"

definition hex_val :: "char \<Rightarrow> nat option" where
  "hex_val c = (let n = byte_val c in
     if 48 \<le> n \<and> n \<le> 57 then Some (n - 48)
     else if 97 \<le> n \<and> n \<le> 102 then Some (n - 87)
     else if 65 \<le> n \<and> n \<le> 70 then Some (n - 55)
     else None)"

fun hex_EncodeToString :: "bytes \<Rightarrow> gostring" where
  "hex_EncodeToString [] = []"
| "hex_EncodeToString (c # cs) =
     hex_digit (byte_val c div 16) # hex_digit (byte_val c mod 16) # hex_EncodeToString cs"

fun hex_DecodeString :: "gostring \<Rightarrow> bytes option" where
  "hex_DecodeString [] = Some []"
| "hex_DecodeString [c] = None"
| "hex_DecodeString (a # b # r) =
     (case (hex_val a, hex_val b, hex_DecodeString r) of
        (Some x, Some y, Some bs) \<Rightarrow> Some (char_of (16 * x + y) # bs)
      | _ \<Rightarrow> None)"

lemma hex_val_digit [simp]:
  assumes "n < 16"
  shows "hex_val (hex_digit n) = Some n"
proof (cases "n < 10")
  case True
  then have "byte_val (hex_digit n) = 48 + n" by (simp add: hex_digit_def)
  with True show ?thesis by (simp add: hex_val_def)
next
  case False
  with assms have "byte_val (hex_digit n) = 87 + n" by (simp add: hex_digit_def)
  with False assms show ?thesis by (simp add: hex_val_def)
qed

lemma hex_roundtrip [simp, codec_simps]: "hex_DecodeString (hex_EncodeToString bs) = Some bs"
proof (induction bs)
  case Nil
  show ?case by simp
next
  case (Cons c cs)
  have "byte_val c div 16 < 16"
    by (simp add: less_mult_imp_div_less)
  moreover have "16 * (byte_val c div 16) + byte_val c mod 16 = byte_val c"
    by simp
  ultimately show ?case using Cons.IH by simp
qed

lemma length_hex [simp]: "length (hex_EncodeToString bs) = 2 * length bs"
  by (induction bs) auto

lemma length_hex_decode: "hex_DecodeString s = Some bs \<Longrightarrow> length s = 2 * length bs"
  by (induction s arbitrary: bs rule: hex_DecodeString.induct) (auto split: option.splits)

lemma hex_chars: "c \<in> set (hex_EncodeToString bs) \<Longrightarrow> hex_val c \<noteq> None"
proof (induction bs)
  case Nil
  then show ?case by simp
next
  case (Cons b bs)
  have "byte_val b div 16 < 16"
    by (simp add: less_mult_imp_div_less)
  with Cons show ?case by auto
qed

interpretation hexc: codec hex_EncodeToString hex_DecodeString "\<lambda>_. True"
  by unfold_locales simp

section \<open>Base64\<close>

definition b64_char :: "nat \<Rightarrow> char" where
  "b64_char n = (if n < 26 then char_of (65 + n)
     else if n < 52 then char_of (71 + n)
     else if n < 62 then char_of (n - 4)
     else if n = 62 then CHR ''+'' else CHR ''/'')"

definition b64_val :: "char \<Rightarrow> nat option" where
  "b64_val c = (let n = byte_val c in
     if 65 \<le> n \<and> n \<le> 90 then Some (n - 65)
     else if 97 \<le> n \<and> n \<le> 122 then Some (n - 71)
     else if 48 \<le> n \<and> n \<le> 57 then Some (n + 4)
     else if c = CHR ''+'' then Some 62
     else if c = CHR ''/'' then Some 63
     else None)"

fun b64_EncodeToString :: "bytes \<Rightarrow> gostring" where
  "b64_EncodeToString [] = []"
| "b64_EncodeToString [a] = (let x = byte_val a in
     [b64_char (x div 4), b64_char (x mod 4 * 16), CHR ''='', CHR ''=''])"
| "b64_EncodeToString [a, b] = (let x = byte_val a; y = byte_val b in
     [b64_char (x div 4), b64_char (x mod 4 * 16 + y div 16), b64_char (y mod 16 * 4), CHR ''=''])"
| "b64_EncodeToString (a # b # c # r) = (let x = byte_val a; y = byte_val b; z = byte_val c in
     b64_char (x div 4) # b64_char (x mod 4 * 16 + y div 16) #
     b64_char (y mod 16 * 4 + z div 64) # b64_char (z mod 64) # b64_EncodeToString r)"

text \<open>The decoder skips line breaks anywhere, wants full quanta with padding, and does not check
  that the unused low bits of the last digit are zero (\<^verbatim>\<open>StdEncoding\<close> is not strict).\<close>

fun b64_quanta :: "gostring \<Rightarrow> bytes option" where
  "b64_quanta [] = Some []"
| "b64_quanta (p # q # r # s # t) =
     (if t = [] \<and> s = CHR ''='' then
        (case (b64_val p, b64_val q) of
           (Some a, Some b) \<Rightarrow>
             if r = CHR ''='' then Some [char_of (a * 4 + b div 16)]
             else (case b64_val r of
                 Some c \<Rightarrow> Some [char_of (a * 4 + b div 16), char_of (b mod 16 * 16 + c div 4)]
               | None \<Rightarrow> None)
         | _ \<Rightarrow> None)
      else
        (case (b64_val p, b64_val q, b64_val r, b64_val s, b64_quanta t) of
           (Some a, Some b, Some c, Some d, Some bs) \<Rightarrow>
             Some (char_of (a * 4 + b div 16) # char_of (b mod 16 * 16 + c div 4)
               # char_of (c mod 4 * 64 + d) # bs)
         | _ \<Rightarrow> None))"
| "b64_quanta _ = None"

definition b64_DecodeString :: "gostring \<Rightarrow> bytes option" where
  "b64_DecodeString s = b64_quanta (filter (\<lambda>c. c \<noteq> CHR 0x0A \<and> c \<noteq> CHR 0x0D) s)"

lemma b64_char_val [simp]:
  assumes "n < 64"
  shows "b64_val (b64_char n) = Some n"
proof -
  consider "n < 26" | "26 \<le> n" "n < 52" | "52 \<le> n" "n < 62" | "n = 62" | "n = 63"
    using assms by linarith
  then show ?thesis
  proof cases
    case 1
    then have "byte_val (b64_char n) = 65 + n" by (simp add: b64_char_def)
    with 1 show ?thesis by (simp add: b64_val_def)
  next
    case 2
    then have "byte_val (b64_char n) = 71 + n" by (simp add: b64_char_def)
    with 2 show ?thesis by (simp add: b64_val_def)
  next
    case 3
    then have "byte_val (b64_char n) = n - 4" by (simp add: b64_char_def)
    with 3 have "48 \<le> byte_val (b64_char n)" "byte_val (b64_char n) \<le> 57" by linarith+
    with 3 \<open>byte_val (b64_char n) = n - 4\<close> show ?thesis by (simp add: b64_val_def Let_def)
  qed (simp_all add: b64_char_def b64_val_def)
qed

lemma b64_char_neq [simp]:
  assumes "n < 64"
  shows "b64_char n \<noteq> CHR ''=''" "b64_char n \<noteq> CHR 0x0A" "b64_char n \<noteq> CHR 0x0D"
    "b64_char n \<noteq> CHR '' ''"
proof -
  have "b64_val c = None" if "c \<in> {CHR ''='', CHR 0x0A, CHR 0x0D, CHR '' ''}" for c
    using that by (auto simp: b64_val_def)
  then show "b64_char n \<noteq> CHR ''=''" "b64_char n \<noteq> CHR 0x0A" "b64_char n \<noteq> CHR 0x0D"
    "b64_char n \<noteq> CHR '' ''"
    using b64_char_val [OF assms] by force+
qed

lemma b64_bounds [simp]:
  "byte_val a div 4 < 64" "byte_val a mod 4 * 16 + byte_val b div 16 < 64"
  "byte_val a mod 16 * 4 + byte_val b div 64 < 64" "byte_val a mod 4 * 16 < 64"
  "byte_val a mod 16 * 4 < 64"
proof -
  have *: "byte_val a div 4 < 64" "byte_val b div 16 < 16" "byte_val b div 64 < 4"
    by (simp_all add: less_mult_imp_div_less)
  have "byte_val a mod 4 < 4" "byte_val a mod 16 < 16" by simp_all
  with * show "byte_val a div 4 < 64" "byte_val a mod 4 * 16 + byte_val b div 16 < 64"
    "byte_val a mod 16 * 4 + byte_val b div 64 < 64" "byte_val a mod 4 * 16 < 64"
    "byte_val a mod 16 * 4 < 64"
    by linarith+
qed

lemma b64_nibbles [simp]:
  "byte_val b div 16 div 16 = 0" "byte_val b div 16 mod 16 = byte_val b div 16"
  "byte_val b div 64 div 4 = 0" "byte_val b div 64 mod 4 = byte_val b div 64"
proof -
  have "byte_val b div 16 < 16" "byte_val b div 64 < 4"
    by (simp_all add: less_mult_imp_div_less)
  then show "byte_val b div 16 div 16 = 0" "byte_val b div 16 mod 16 = byte_val b div 16"
    "byte_val b div 64 div 4 = 0" "byte_val b div 64 mod 4 = byte_val b div 64"
    by simp_all
qed

lemma b64_encode_clean:
  "\<forall>c \<in> set (b64_EncodeToString bs). c \<noteq> CHR 0x0A \<and> c \<noteq> CHR 0x0D \<and> c \<noteq> CHR '' ''"
  by (induction bs rule: b64_EncodeToString.induct) (simp_all add: Let_def)

lemma b64_quanta_encode: "b64_quanta (b64_EncodeToString bs) = Some bs"
  by (induction bs rule: b64_EncodeToString.induct) (simp_all add: Let_def)

lemma b64_roundtrip [simp, codec_simps]: "b64_DecodeString (b64_EncodeToString bs) = Some bs"
proof -
  have "filter (\<lambda>c. c \<noteq> CHR 0x0A \<and> c \<noteq> CHR 0x0D) (b64_EncodeToString bs) = b64_EncodeToString bs"
    using b64_encode_clean [of bs] by (simp add: filter_id_conv)
  then show ?thesis by (simp add: b64_DecodeString_def b64_quanta_encode)
qed

interpretation b64c: codec b64_EncodeToString b64_DecodeString "\<lambda>_. True"
  by unfold_locales simp

lemma b64_char_range [simp]:
  assumes "n < 64"
  shows "43 \<le> byte_val (b64_char n)" and "byte_val (b64_char n) < 123"
proof -
  consider "n < 26" | "26 \<le> n" "n < 52" | "52 \<le> n" "n < 62" | "n = 62" | "n = 63"
    using assms by linarith
  then have "43 \<le> byte_val (b64_char n) \<and> byte_val (b64_char n) < 123"
    by cases (auto simp: b64_char_def)
  then show "43 \<le> byte_val (b64_char n)" and "byte_val (b64_char n) < 123" by simp_all
qed

lemma b64_encode_range:
  "\<forall>c \<in> set (b64_EncodeToString bs). 43 \<le> byte_val c \<and> byte_val c < 123"
  by (induction bs rule: b64_EncodeToString.induct) (simp_all add: Let_def)

lemma b64_encode_nonempty: "bs \<noteq> [] \<Longrightarrow> b64_EncodeToString bs \<noteq> []"
  using b64_roundtrip [of bs] by (auto simp: b64_DecodeString_def)

section \<open>Decimal numbers\<close>

definition digit_char :: "nat \<Rightarrow> char" where
  "digit_char d = char_of (48 + d)"

definition digit_val :: "char \<Rightarrow> nat option" where
  "digit_val c = (let n = byte_val c in if 48 \<le> n \<and> n \<le> 57 then Some (n - 48) else None)"

fun FormatUint :: "nat \<Rightarrow> gostring" where
  "FormatUint n = (if n < 10 then [digit_char n] else FormatUint (n div 10) @ [digit_char (n mod 10)])"

declare FormatUint.simps [simp del]

definition FormatInt :: "int \<Rightarrow> gostring" where
  "FormatInt i = (if i < 0 then CHR ''-'' # FormatUint (nat (- i)) else FormatUint (nat i))"

fun digits_acc :: "nat \<Rightarrow> gostring \<Rightarrow> nat option" where
  "digits_acc acc [] = Some acc"
| "digits_acc acc (c # cs) =
     (case digit_val c of None \<Rightarrow> None | Some d \<Rightarrow> digits_acc (10 * acc + d) cs)"

text \<open>\<open>ParseUint s\<close> is \<^verbatim>\<open>strconv.ParseUint(s, 10, 64)\<close>, \<open>ParseInt s\<close> is
  \<^verbatim>\<open>strconv.ParseInt(s, 10, 64)\<close> (and \<^verbatim>\<open>strconv.Atoi\<close> on a 64-bit platform).\<close>

definition ParseUint :: "gostring \<Rightarrow> nat option" where
  "ParseUint s = (if s = [] then None else
     (case digits_acc 0 s of None \<Rightarrow> None | Some n \<Rightarrow> if n < 2 ^ 64 then Some n else None))"

definition ParseInt :: "gostring \<Rightarrow> int option" where
  "ParseInt s = (case s of [] \<Rightarrow> None
     | c # r \<Rightarrow>
       let neg = (c = CHR ''-''); ds = (if c = CHR ''-'' \<or> c = CHR ''+'' then r else s) in
       (case ParseUint ds of None \<Rightarrow> None
        | Some n \<Rightarrow> if neg then (if n \<le> 2 ^ 63 then Some (- int n) else None)
                    else (if n < 2 ^ 63 then Some (int n) else None)))"

lemma digit_val_char [simp]: "d < 10 \<Longrightarrow> digit_val (digit_char d) = Some d"
  by (simp add: digit_val_def digit_char_def)

lemma digits_acc_append:
  "digits_acc acc (xs @ ys) = (case digits_acc acc xs of None \<Rightarrow> None | Some a \<Rightarrow> digits_acc a ys)"
  by (induction xs arbitrary: acc) (auto split: option.splits)

lemma digits_acc_Format: "digits_acc 0 (FormatUint n) = Some n"
proof (induction n rule: FormatUint.induct)
  case (1 n)
  show ?case
  proof (cases "n < 10")
    case True
    then show ?thesis by (simp add: FormatUint.simps [of n])
  next
    case False
    with 1 have "digits_acc 0 (FormatUint (n div 10)) = Some (n div 10)" by simp
    with False show ?thesis by (simp add: FormatUint.simps [of n] digits_acc_append)
  qed
qed

lemma FormatUint_digits: "c \<in> set (FormatUint n) \<Longrightarrow> digit_val c \<noteq> None"
proof (induction n rule: FormatUint.induct)
  case (1 n)
  then show ?case by (cases "n < 10") (auto simp: FormatUint.simps [of n])
qed

lemma FormatUint_nonempty [simp]: "FormatUint n \<noteq> []"
  by (subst FormatUint.simps) simp

lemma digit_val_sign [simp]: "digit_val (CHR ''-'') = None" "digit_val (CHR ''+'') = None"
  by (simp_all add: digit_val_def)

lemma FormatUint_hd:
  obtains c r where "FormatUint n = c # r" and "c \<noteq> CHR ''-''" and "c \<noteq> CHR ''+''"
proof (cases "FormatUint n")
  case Nil
  then show ?thesis by simp
next
  case (Cons c r)
  then have "digit_val c \<noteq> None" using FormatUint_digits [of c n] by simp
  with Cons show ?thesis using that digit_val_sign by metis
qed

lemma ParseUint_Format [simp, codec_simps]: "n < 2 ^ 64 \<Longrightarrow> ParseUint (FormatUint n) = Some n"
  by (simp add: ParseUint_def digits_acc_Format)

lemma ParseInt_Format [simp, codec_simps]:
  assumes "- (2 ^ 63) \<le> i" and "i < 2 ^ 63"
  shows "ParseInt (FormatInt i) = Some i"
proof (cases "i < 0")
  case True
  then have "ParseUint (FormatUint (nat (- i))) = Some (nat (- i))"
    using assms by (intro ParseUint_Format) simp
  with True assms show ?thesis by (simp add: FormatInt_def ParseInt_def)
next
  case False
  then have "ParseUint (FormatUint (nat i)) = Some (nat i)"
    using assms by (intro ParseUint_Format) simp
  moreover obtain c r where "FormatUint (nat i) = c # r" "c \<noteq> CHR ''-''" "c \<noteq> CHR ''+''"
    by (rule FormatUint_hd)
  ultimately show ?thesis using False assms by (simp add: FormatInt_def ParseInt_def)
qed

lemma ParseInt_range: "ParseInt s = Some i \<Longrightarrow> - (2 ^ 63) \<le> i \<and> i < 2 ^ 63"
  by (auto simp: ParseInt_def Let_def split: list.splits option.splits if_splits)

lemma digits_acc_digits: "digits_acc n s = Some m \<Longrightarrow> c \<in> set s \<Longrightarrow> digit_val c \<noteq> None"
  by (induction n s arbitrary: m rule: digits_acc.induct) (auto split: option.splits)

lemma ParseUint_digits: "ParseUint s = Some n \<Longrightarrow> c \<in> set s \<Longrightarrow> digit_val c \<noteq> None"
  by (auto simp: ParseUint_def split: if_splits option.splits dest: digits_acc_digits)

lemma ParseInt_chars:
  assumes "ParseInt s = Some t" and "c \<in> set s"
  shows "digit_val c \<noteq> None \<or> c = CHR ''-'' \<or> c = CHR ''+''"
proof -
  obtain a r where s: "s = a # r" using assms(1) by (cases s) (auto simp: ParseInt_def)
  then obtain n where "ParseUint (if a = CHR ''-'' \<or> a = CHR ''+'' then r else s) = Some n"
    using assms(1) by (auto simp: ParseInt_def Let_def split: option.splits)
  from ParseUint_digits [OF this, of c] assms(2) s show ?thesis
    by (cases "a = CHR ''-'' \<or> a = CHR ''+''") auto
qed

interpretation uintc: codec FormatUint ParseUint "\<lambda>n. n < 2 ^ 64"
  by unfold_locales simp

interpretation intc: codec FormatInt ParseInt "\<lambda>i. - (2 ^ 63) \<le> i \<and> i < 2 ^ 63"
  by unfold_locales simp

section \<open>String helpers\<close>

definition HasPrefix :: "gostring \<Rightarrow> gostring \<Rightarrow> bool" where
  "HasPrefix s p \<longleftrightarrow> take (length p) s = p"

definition TrimPrefix :: "gostring \<Rightarrow> gostring \<Rightarrow> gostring" where
  "TrimPrefix s p = (if HasPrefix s p then drop (length p) s else s)"

text \<open>\<^verbatim>\<open>strings.Split(s, sep)\<close> for a one-byte separator.\<close>

fun SplitOn :: "char \<Rightarrow> gostring \<Rightarrow> gostring list" where
  "SplitOn sep [] = [[]]"
| "SplitOn sep (c # cs) =
     (if c = sep then [] # SplitOn sep cs
      else (case SplitOn sep cs of [] \<Rightarrow> [[c]] | w # ws \<Rightarrow> (c # w) # ws))"

lemma HasPrefix_append [simp]: "HasPrefix (p @ s) p"
  by (simp add: HasPrefix_def)

lemma TrimPrefix_append [simp]: "TrimPrefix (p @ s) p = s"
  by (simp add: TrimPrefix_def)

lemma HasPrefix_split: "HasPrefix s p \<Longrightarrow> s = p @ TrimPrefix s p"
  using append_take_drop_id [of "length p" s] by (simp add: HasPrefix_def TrimPrefix_def)

lemma SplitOn_nonempty [simp]: "SplitOn sep s \<noteq> []"
  by (induction s) (auto split: list.splits)

lemma SplitOn_no_sep: "sep \<notin> set s \<Longrightarrow> SplitOn sep s = [s]"
  by (induction s) auto

lemma SplitOn_append: "sep \<notin> set s \<Longrightarrow> SplitOn sep (s @ sep # t) = s # SplitOn sep t"
  by (induction s) auto

lemma SplitOn_pieces: "w \<in> set (SplitOn sep s) \<Longrightarrow> sep \<notin> set w"
proof (induction s arbitrary: w)
  case Nil
  then show ?case by simp
next
  case (Cons c s)
  obtain v vs where "SplitOn sep s = v # vs" by (cases "SplitOn sep s") auto
  with Cons show ?case by (auto split: if_splits)
qed

lemma SplitOn_join:
  assumes "ws \<noteq> []" and "\<forall>w \<in> set ws. sep \<notin> set w"
  shows "SplitOn sep (concat (map (\<lambda>w. w @ [sep]) (butlast ws)) @ last ws) = ws"
  using assms
proof (induction ws)
  case Nil
  then show ?case by simp
next
  case (Cons w ws)
  then show ?case by (cases ws) (auto simp: SplitOn_no_sep SplitOn_append)
qed

end
