(* ===== verification/Json.thy ===== *)
theory Json
  imports GoCodec
begin

text \<open>
  The parts of the Go standard library's \<^verbatim>\<open>encoding/json\<close> the program uses.
  \<open>json_print\<close> writes a value the way \<^verbatim>\<open>json.Marshal\<close> does (compact, HTML characters
  escaped, invalid UTF-8 replaced by the escape of U+FFFD); \<open>json_Unmarshal\<close> parses a whole text and
  \<open>json_Decode\<close> the first value of one, as \<^verbatim>\<open>json.Unmarshal\<close> and
  \<^verbatim>\<open>Decoder.Decode\<close> do.  A number keeps its literal, since Go converts it only when it
  knows the target type.  Not modelled: the nesting limit of 10000 levels.

  The parser spends one unit of fuel per nested call and is started with the length of the input,
  which is enough: \<open>jval_fuel\<close> shows that more fuel changes nothing.
  \<open>json_Unmarshal_print\<close> is the round trip for values whose strings are valid UTF-8.
\<close>

datatype json = JNull | JBool bool | JNum gostring | JStr gostring | JArr "json list"
  | JObj "(gostring \<times> json) list"

section \<open>UTF-8\<close>

definition cont :: "nat \<Rightarrow> nat \<Rightarrow> char \<Rightarrow> bool" where
  "cont lo hi c \<longleftrightarrow> lo \<le> byte_val c \<and> byte_val c \<le> hi"

text \<open>The length of the well-formed multi-byte sequence a string starts with, if there is one
  (\<^verbatim>\<open>utf8.DecodeRune\<close> returns width 1 and \<^verbatim>\<open>RuneError\<close> otherwise).\<close>

definition lead2 :: "nat \<Rightarrow> (nat \<times> nat) option" where
  "lead2 c = (if 0xC2 \<le> c \<and> c \<le> 0xDF then Some (0x80, 0xBF) else None)"

definition lead3 :: "nat \<Rightarrow> (nat \<times> nat) option" where
  "lead3 c = (if c = 0xE0 then Some (0xA0, 0xBF) else if c = 0xED then Some (0x80, 0x9F)
     else if 0xE1 \<le> c \<and> c \<le> 0xEF then Some (0x80, 0xBF) else None)"

definition lead4 :: "nat \<Rightarrow> (nat \<times> nat) option" where
  "lead4 c = (if c = 0xF0 then Some (0x90, 0xBF) else if c = 0xF4 then Some (0x80, 0x8F)
     else if 0xF1 \<le> c \<and> c \<le> 0xF3 then Some (0x80, 0xBF) else None)"

definition in_range :: "(nat \<times> nat) option \<Rightarrow> char \<Rightarrow> bool" where
  "in_range r c = (case r of None \<Rightarrow> False | Some (lo, hi) \<Rightarrow> cont lo hi c)"

definition utf8_len :: "bytes \<Rightarrow> nat option" where
  "utf8_len s = (case s of
     a # b # r \<Rightarrow>
       if in_range (lead2 (byte_val a)) b then Some 2
       else if in_range (lead3 (byte_val a)) b then
         (case r of c # _ \<Rightarrow> if cont 0x80 0xBF c then Some 3 else None | _ \<Rightarrow> None)
       else if in_range (lead4 (byte_val a)) b then
         (case r of c # d # _ \<Rightarrow> if cont 0x80 0xBF c \<and> cont 0x80 0xBF d then Some 4 else None
          | _ \<Rightarrow> None)
       else None
   | _ \<Rightarrow> None)"

text \<open>A string as its units: single bytes below 0x80, well-formed multi-byte sequences, and stray
  bytes.\<close>

definition unit_len :: "bytes \<Rightarrow> nat" where
  "unit_len s = (case s of [] \<Rightarrow> 1 | c # _ \<Rightarrow>
     if byte_val c < 128 then 1 else case utf8_len s of None \<Rightarrow> 1 | Some n \<Rightarrow> n)"

lemma utf8_len_range: "utf8_len s = Some n \<Longrightarrow> 2 \<le> n \<and> n \<le> 4 \<and> n \<le> length s"
  by (auto simp: utf8_len_def split: list.splits if_splits)

lemma unit_len_pos: "0 < unit_len s"
  using utf8_len_range [of s] by (auto simp: unit_len_def split: list.splits option.splits)

function utf8_units :: "bytes \<Rightarrow> bytes list" where
  "utf8_units s = (if s = [] then [] else take (unit_len s) s # utf8_units (drop (unit_len s) s))"
  by pat_completeness auto
termination
  by (relation "measure length") (auto simp: unit_len_pos)

declare utf8_units.simps [simp del]

lemma concat_utf8_units: "concat (utf8_units s) = s"
proof (induction s rule: utf8_units.induct)
  case (1 s)
  show ?case
  proof (cases "s = []")
    case True
    then show ?thesis by (simp add: utf8_units.simps [of "[]"])
  next
    case False
    with 1 show ?thesis by (simp add: utf8_units.simps [of s])
  qed
qed

definition valid_unit :: "bytes \<Rightarrow> bool" where
  "valid_unit u \<longleftrightarrow> (\<exists>c. u = [c] \<and> byte_val c < 128) \<or> utf8_len u = Some (length u)"

lemma valid_unit_code [code]:
  "valid_unit u = ((case u of [c] \<Rightarrow> byte_val c < 128 | _ \<Rightarrow> False) \<or> utf8_len u = Some (length u))"
  by (auto simp: valid_unit_def split: list.splits)

definition valid_utf8 :: "bytes \<Rightarrow> bool" where
  "valid_utf8 s \<longleftrightarrow> list_all valid_unit (utf8_units s)"

lemma utf8_len_append: "utf8_len u = Some (length u) \<Longrightarrow> utf8_len (u @ r) = Some (length u)"
  by (auto simp: utf8_len_def split: list.splits if_splits)

lemma utf8_len_high: "utf8_len (c # r) = Some n \<Longrightarrow> 128 \<le> byte_val c"
  by (auto simp: utf8_len_def in_range_def lead2_def lead3_def lead4_def
      split: list.splits if_splits)

section \<open>Strings\<close>

definition u_escape :: "nat \<Rightarrow> bytes" where
  "u_escape n = (CHR 0x5C # ''u00'') @ [hex_digit (n div 16), hex_digit (n mod 16)]"

definition html_char :: "char \<Rightarrow> bool" where
  "html_char c \<longleftrightarrow> c \<in> {CHR ''<'', CHR ''>'', CHR ''&''}"

definition quote_unit :: "bytes \<Rightarrow> bytes" where
  "quote_unit u = (case u of
     [c] \<Rightarrow>
       if 128 \<le> byte_val c then (CHR 0x5C # ''ufffd'')
       else if c = CHR 0x22 \<or> c = CHR 0x5C then [CHR 0x5C, c]
       else if c = CHR 0x08 then (CHR 0x5C # ''b'')
       else if c = CHR 0x0C then (CHR 0x5C # ''f'')
       else if c = CHR 0x0A then (CHR 0x5C # ''n'')
       else if c = CHR 0x0D then (CHR 0x5C # ''r'')
       else if c = CHR 0x09 then (CHR 0x5C # ''t'')
       else if byte_val c < 32 \<or> html_char c then u_escape (byte_val c)
       else [c]
   | _ \<Rightarrow>
       if u = [CHR 0xE2, CHR 0x80, CHR 0xA8] then (CHR 0x5C # ''u2028'')
       else if u = [CHR 0xE2, CHR 0x80, CHR 0xA9] then (CHR 0x5C # ''u2029'')
       else u)"

definition json_quote :: "gostring \<Rightarrow> bytes" where
  "json_quote s = CHR 0x22 # concat (map quote_unit (utf8_units s)) @ [CHR 0x22]"

text \<open>Reading a string literal after its opening quote.\<close>

definition utf8_encode :: "nat \<Rightarrow> bytes" where
  "utf8_encode n =
     (if n < 0x80 then [char_of n]
      else if n < 0x800 then [char_of (0xC0 + n div 64), char_of (0x80 + n mod 64)]
      else if n < 0x10000 then
        [char_of (0xE0 + n div 4096), char_of (0x80 + n div 64 mod 64), char_of (0x80 + n mod 64)]
      else [char_of (0xF0 + n div 262144), char_of (0x80 + n div 4096 mod 64),
            char_of (0x80 + n div 64 mod 64), char_of (0x80 + n mod 64)])"

definition hex4 :: "bytes \<Rightarrow> nat option" where
  "hex4 s = (case s of
     a # b # c # d # _ \<Rightarrow>
       (case (hex_val a, hex_val b, hex_val c, hex_val d) of
          (Some w, Some x, Some y, Some z) \<Rightarrow> Some (((w * 16 + x) * 16 + y) * 16 + z)
        | _ \<Rightarrow> None)
   | _ \<Rightarrow> None)"

definition simple_escape :: "char \<Rightarrow> char option" where
  "simple_escape c =
     (if c \<in> {CHR 0x22, CHR 0x5C, CHR ''/''} then Some c
      else if c = CHR ''b'' then Some (CHR 0x08)
      else if c = CHR ''f'' then Some (CHR 0x0C)
      else if c = CHR ''n'' then Some (CHR 0x0A)
      else if c = CHR ''r'' then Some (CHR 0x0D)
      else if c = CHR ''t'' then Some (CHR 0x09)
      else None)"

definition rune_error :: bytes where
  "rune_error = [CHR 0xEF, CHR 0xBF, CHR 0xBD]"

text \<open>One \<^verbatim>\<open>\u\<close> escape (the input starts after the \<^verbatim>\<open>u\<close>): the bytes it stands
  for and how much input it takes.  A surrogate pair is two escapes; a lone surrogate is replaced.\<close>

definition u_unescape :: "bytes \<Rightarrow> (bytes \<times> nat) option" where
  "u_unescape s = (case hex4 s of
     None \<Rightarrow> None
   | Some n \<Rightarrow>
       if 0xD800 \<le> n \<and> n < 0xDC00 \<and> take 2 (drop 4 s) = [CHR 0x5C, CHR ''u''] then
         (case hex4 (drop 6 s) of
            Some m \<Rightarrow>
              if 0xDC00 \<le> m \<and> m < 0xE000
              then Some (utf8_encode (0x10000 + (n - 0xD800) * 1024 + (m - 0xDC00)), 10)
              else Some (rune_error, 4)
          | None \<Rightarrow> Some (rune_error, 4))
       else if 0xD800 \<le> n \<and> n < 0xE000 then Some (rune_error, 4)
       else Some (utf8_encode n, 4))"

definition prepend :: "bytes \<Rightarrow> (bytes \<times> bytes) option \<Rightarrow> (bytes \<times> bytes) option" where
  "prepend u x = map_option (\<lambda>(s, r). (u @ s, r)) x"

lemma prepend_cong [fundef_cong]: "u = v \<Longrightarrow> x = y \<Longrightarrow> prepend u x = prepend v y"
  by simp

function jstr :: "bytes \<Rightarrow> (gostring \<times> bytes) option" where
  "jstr [] = None"
| "jstr (c # r) =
     (if c = CHR 0x22 then Some ([], r)
      else if c = CHR 0x5C then
        (case r of
           [] \<Rightarrow> None
         | e # r' \<Rightarrow>
             if e = CHR ''u'' then
               (case u_unescape r' of None \<Rightarrow> None | Some (u, n) \<Rightarrow> prepend u (jstr (drop n r')))
             else (case simple_escape e of None \<Rightarrow> None | Some x \<Rightarrow> prepend [x] (jstr r')))
      else if byte_val c < 32 then None
      else if byte_val c < 128 then prepend [c] (jstr r)
      else (case utf8_len (c # r) of
              None \<Rightarrow> prepend rune_error (jstr r)
            | Some n \<Rightarrow> prepend (take n (c # r)) (jstr (drop n (c # r)))))"
  by pat_completeness auto
termination
  by (relation "measure length") (auto dest: utf8_len_range)

declare jstr.simps(2) [simp del]

lemma prepend_Some [simp]: "prepend u (Some (s, r)) = Some (u @ s, r)"
  by (simp add: prepend_def)

lemma prepend_Some_iff:
  "prepend u x = Some (s, r) \<longleftrightarrow> (\<exists>s'. x = Some (s', r) \<and> s = u @ s')"
  by (auto simp: prepend_def)

lemma hex_digit_0: "hex_val (CHR ''0'') = Some 0"
  by (simp add: hex_val_def)

lemma jstr_u_escape:
  assumes "n < 128"
  shows "jstr (u_escape n @ r) = prepend [char_of n] (jstr r)"
proof -
  have "n div 16 < 16" using assms by simp
  then have "hex4 (CHR ''0'' # CHR ''0'' # hex_digit (n div 16) # hex_digit (n mod 16) # r) = Some n"
    by (simp add: hex4_def hex_digit_0)
  with assms have "u_unescape (CHR ''0'' # CHR ''0'' # hex_digit (n div 16) # hex_digit (n mod 16) # r)
    = Some ([char_of n], 4)"
    by (simp add: u_unescape_def utf8_encode_def)
  then show ?thesis by (simp add: u_escape_def jstr.simps(2))
qed

lemma jstr_quote_ascii:
  assumes "byte_val c < 128"
  shows "jstr (quote_unit [c] @ r) = prepend [c] (jstr r)"
proof -
  consider "c \<in> {CHR 0x22, CHR 0x5C, CHR 0x08, CHR 0x0C, CHR 0x0A, CHR 0x0D, CHR 0x09}"
    | "c \<notin> {CHR 0x22, CHR 0x5C, CHR 0x08, CHR 0x0C, CHR 0x0A, CHR 0x0D, CHR 0x09}"
        "byte_val c < 32 \<or> html_char c"
    | "c \<notin> {CHR 0x22, CHR 0x5C, CHR 0x08, CHR 0x0C, CHR 0x0A, CHR 0x0D, CHR 0x09}"
        "\<not> byte_val c < 32" "\<not> html_char c"
    by blast
  then show ?thesis
  proof cases
    case 1
    then show ?thesis by (auto simp: quote_unit_def jstr.simps(2) simple_escape_def)
  next
    case 2
    then have "quote_unit [c] = u_escape (byte_val c)"
      using assms by (auto simp: quote_unit_def)
    then show ?thesis using jstr_u_escape [OF assms] by simp
  next
    case 3
    then have "quote_unit [c] = [c]" using assms by (auto simp: quote_unit_def)
    then show ?thesis using 3 assms by (simp add: jstr.simps(2))
  qed
qed

lemma jstr_quote_multi:
  assumes "utf8_len u = Some (length u)"
  shows "jstr (quote_unit u @ r) = prepend u (jstr r)"
proof -
  have len: "2 \<le> length u" using utf8_len_range [OF assms] by simp
  then obtain c v where u: "u = c # v" "v \<noteq> []" by (cases u; cases "tl u") auto
  have high: "128 \<le> byte_val c" using utf8_len_high assms u by blast
  have plain: "jstr (u @ r) = prepend u (jstr r)"
  proof -
    have "utf8_len (u @ r) = Some (length u)" by (rule utf8_len_append [OF assms])
    moreover have "c \<noteq> CHR 0x22" "c \<noteq> CHR 0x5C" using high by auto
    ultimately show ?thesis using high u by (simp add: jstr.simps(2))
  qed
  show ?thesis
  proof (cases "u = [CHR 0xE2, CHR 0x80, CHR 0xA8] \<or> u = [CHR 0xE2, CHR 0x80, CHR 0xA9]")
    case True
    then show ?thesis
      by (auto simp: quote_unit_def jstr.simps(2) u_unescape_def hex4_def hex_val_def utf8_encode_def
          char_eval)
  next
    case False
    then have "quote_unit u = u" using u by (auto simp: quote_unit_def split: list.splits)
    then show ?thesis using plain by simp
  qed
qed

lemma jstr_quote_units:
  "list_all valid_unit us \<Longrightarrow>
   jstr (concat (map quote_unit us) @ CHR 0x22 # r) = Some (concat us, r)"
proof (induction us)
  case Nil
  show ?case by (simp add: jstr.simps(2))
next
  case (Cons u us)
  then have IH: "jstr (concat (map quote_unit us) @ CHR 0x22 # r) = Some (concat us, r)" by simp
  have "jstr (quote_unit u @ x) = prepend u (jstr x)" for x
    using Cons.prems jstr_quote_ascii jstr_quote_multi by (auto simp: valid_unit_def)
  with IH show ?case by simp
qed

lemma jstr_quote:
  "valid_utf8 s \<Longrightarrow> jstr (concat (map quote_unit (utf8_units s)) @ CHR 0x22 # r) = Some (s, r)"
  using jstr_quote_units [of "utf8_units s" r] by (simp add: valid_utf8_def concat_utf8_units)

section \<open>Values\<close>

fun commas :: "bytes list \<Rightarrow> bytes" where
  "commas [] = []"
| "commas [x] = x"
| "commas (x # xs) = x @ CHR '','' # commas xs"

fun json_print :: "json \<Rightarrow> bytes" where
  "json_print JNull = ''null''"
| "json_print (JBool b) = (if b then ''true'' else ''false'')"
| "json_print (JNum l) = l"
| "json_print (JStr s) = json_quote s"
| "json_print (JArr vs) = CHR ''['' # commas (map json_print vs) @ '']''"
| "json_print (JObj ms) =
     CHR ''{'' # commas (map (\<lambda>(k, v). json_quote k @ CHR '':'' # json_print v) ms) @ ''}''"

definition is_ws :: "char \<Rightarrow> bool" where
  "is_ws c \<longleftrightarrow> c \<in> {CHR '' '', CHR 0x09, CHR 0x0A, CHR 0x0D}"

definition skip_ws :: "bytes \<Rightarrow> bytes" where
  "skip_ws s = dropWhile is_ws s"

definition is_digit :: "char \<Rightarrow> bool" where
  "is_digit c \<longleftrightarrow> digit_val c \<noteq> None"

text \<open>The literal of a number and the rest: sign, integer part without leading zeros, optional
  fraction, optional exponent.\<close>

definition jnum_int :: "bytes \<Rightarrow> (bytes \<times> bytes) option" where
  "jnum_int s = (case s of
     [] \<Rightarrow> None
   | c # r \<Rightarrow> if c = CHR ''0'' then Some ([c], r)
              else if is_digit c then Some (takeWhile is_digit s, dropWhile is_digit s) else None)"

definition jnum_digits :: "bytes \<Rightarrow> bytes \<Rightarrow> (bytes \<times> bytes) option" where
  "jnum_digits pre s = (if takeWhile is_digit s = [] then None
     else Some (pre @ takeWhile is_digit s, dropWhile is_digit s))"

definition jnum_frac :: "bytes \<Rightarrow> (bytes \<times> bytes) option" where
  "jnum_frac s = (case s of c # r \<Rightarrow> if c = CHR ''.'' then jnum_digits [c] r else Some ([], s)
     | [] \<Rightarrow> Some ([], []))"

definition jnum_exp :: "bytes \<Rightarrow> (bytes \<times> bytes) option" where
  "jnum_exp s = (case s of
     c # r \<Rightarrow>
       if c = CHR ''e'' \<or> c = CHR ''E'' then
         (case r of
            d # r' \<Rightarrow> if d = CHR ''+'' \<or> d = CHR ''-'' then jnum_digits [c, d] r' else jnum_digits [c] r
          | [] \<Rightarrow> None)
       else Some ([], s)
   | [] \<Rightarrow> Some ([], []))"

definition jnum :: "bytes \<Rightarrow> (bytes \<times> bytes) option" where
  "jnum s =
     (let sg = (if take 1 s = ''-'' then ''-'' else []); s1 = drop (length sg) s in
      case jnum_int s1 of None \<Rightarrow> None
      | Some (i, s2) \<Rightarrow> (case jnum_frac s2 of None \<Rightarrow> None
        | Some (fr, s3) \<Rightarrow> (case jnum_exp s3 of None \<Rightarrow> None
          | Some (ex, s4) \<Rightarrow> Some (sg @ i @ fr @ ex, s4))))"

definition jlit :: "bytes \<Rightarrow> json \<Rightarrow> bytes \<Rightarrow> (json \<times> bytes) option" where
  "jlit l v s = (if take (length l) s = l then Some (v, drop (length l) s) else None)"

definition jscalar :: "char \<Rightarrow> bytes \<Rightarrow> (json \<times> bytes) option" where
  "jscalar c r =
     (if c = CHR ''t'' then jlit ''true'' (JBool True) (c # r)
      else if c = CHR ''f'' then jlit ''false'' (JBool False) (c # r)
      else if c = CHR ''n'' then jlit ''null'' JNull (c # r)
      else (case jnum (c # r) of None \<Rightarrow> None | Some (l, r') \<Rightarrow> Some (JNum l, r')))"

fun jval :: "nat \<Rightarrow> bytes \<Rightarrow> (json \<times> bytes) option"
and jelems :: "nat \<Rightarrow> bytes \<Rightarrow> (json list \<times> bytes) option"
and jmembs :: "nat \<Rightarrow> bytes \<Rightarrow> ((gostring \<times> json) list \<times> bytes) option" where
  "jval 0 s = None"
| "jval (Suc n) s = (case skip_ws s of
     [] \<Rightarrow> None
   | c # r \<Rightarrow>
       if c = CHR 0x22 then (case jstr r of None \<Rightarrow> None | Some (t, r') \<Rightarrow> Some (JStr t, r'))
       else if c = CHR ''['' then
         (if take 1 (skip_ws r) = '']'' then Some (JArr [], drop 1 (skip_ws r))
          else (case jelems n r of None \<Rightarrow> None | Some (vs, r') \<Rightarrow> Some (JArr vs, r')))
       else if c = CHR ''{'' then
         (if take 1 (skip_ws r) = ''}'' then Some (JObj [], drop 1 (skip_ws r))
          else (case jmembs n r of None \<Rightarrow> None | Some (ms, r') \<Rightarrow> Some (JObj ms, r')))
       else jscalar c r)"
| "jelems 0 s = None"
| "jelems (Suc n) s = (case jval n s of
     None \<Rightarrow> None
   | Some (v, r) \<Rightarrow>
       (case skip_ws r of
          [] \<Rightarrow> None
        | c # r' \<Rightarrow>
            if c = CHR '','' then
              (case jelems n r' of None \<Rightarrow> None | Some (vs, r'') \<Rightarrow> Some (v # vs, r''))
            else if c = CHR '']'' then Some ([v], r') else None))"
| "jmembs 0 s = None"
| "jmembs (Suc n) s = (case skip_ws s of
     [] \<Rightarrow> None
   | q # r0 \<Rightarrow>
       if q \<noteq> CHR 0x22 then None
       else (case jstr r0 of
          None \<Rightarrow> None
        | Some (k, r1) \<Rightarrow>
            (case skip_ws r1 of
               [] \<Rightarrow> None
             | d # r2 \<Rightarrow>
                 if d \<noteq> CHR '':'' then None
                 else (case jval n r2 of
                    None \<Rightarrow> None
                  | Some (v, r) \<Rightarrow>
                      (case skip_ws r of
                         [] \<Rightarrow> None
                       | c # r' \<Rightarrow>
                           if c = CHR '','' then
                             (case jmembs n r' of None \<Rightarrow> None
                              | Some (ms, r'') \<Rightarrow> Some ((k, v) # ms, r''))
                           else if c = CHR ''}'' then Some ([(k, v)], r') else None)))))"

definition json_Decode :: "bytes \<Rightarrow> json option" where
  "json_Decode s = map_option fst (jval (length s) s)"

definition json_Unmarshal :: "bytes \<Rightarrow> json option" where
  "json_Unmarshal s = (case jval (length s) s of
     None \<Rightarrow> None | Some (v, r) \<Rightarrow> if skip_ws r = [] then Some v else None)"

section \<open>The fuel is enough\<close>

lemma length_skip_ws: "length (skip_ws s) \<le> length s"
  by (simp add: skip_ws_def length_dropWhile_le)

lemma skip_ws_Cons: "skip_ws s = c # r \<Longrightarrow> length r < length s"
  using length_skip_ws [of s] by simp

lemma jstr_shrinks: "jstr s = Some (t, r) \<Longrightarrow> length r < length s"
proof (induction s arbitrary: t rule: jstr.induct)
  case 1
  then show ?case by simp
next
  case (2 c s)
  show ?case
    using "2.prems"
    apply (simp add: jstr.simps(2) prepend_Some_iff
        split: if_splits list.splits option.splits prod.splits)
    using "2.IH" apply (fastforce simp: prepend_Some_iff dest: utf8_len_range)+
    done
qed

lemma jnum_shrinks: "jnum s = Some (l, r) \<Longrightarrow> length r < length s"
proof -
  have dw: "length (dropWhile is_digit x) \<le> length x" for x by (rule length_dropWhile_le)
  have i: "length b < length x" if "jnum_int x = Some (a, b)" for x a b
    using that dw by (auto simp: jnum_int_def less_Suc_eq_le split: list.splits if_splits)
  have d: "length b \<le> length x" if "jnum_digits p x = Some (a, b)" for p x a b
    using that dw by (auto simp: jnum_digits_def split: if_splits)
  have f: "length b \<le> length x" if "jnum_frac x = Some (a, b)" for x a b
    using that d by (fastforce simp: jnum_frac_def split: list.splits if_splits)
  have e: "length b \<le> length x" if "jnum_exp x = Some (a, b)" for x a b
    using that d by (fastforce simp: jnum_exp_def split: list.splits if_splits)
  assume "jnum s = Some (l, r)"
  then obtain k i1 s2 fr s3 ex where "jnum_int (drop k s) = Some (i1, s2)"
    "jnum_frac s2 = Some (fr, s3)" "jnum_exp s3 = Some (ex, r)"
    by (auto simp: jnum_def Let_def split: option.splits prod.splits)
  then have "length s2 < length (drop k s)" "length s3 \<le> length s2" "length r \<le> length s3"
    using i f e by blast+
  then show ?thesis by simp
qed

lemma jscalar_shrinks:
  assumes "jscalar c t = Some (v, r)"
  shows "length r < length (c # t)"
proof -
  have lit: "length b < length (c # t)" if "jlit l w (c # t) = Some (a, b)" "l \<noteq> []" for l w a b
    using that by (auto simp: jlit_def split: if_splits)
  show ?thesis
    using assms lit jnum_shrinks [of "c # t"]
    unfolding jscalar_def by (auto split: if_splits option.splits simp del: length_Cons)
qed

text \<open>A successful parse is reproduced by any fuel that covers the input it consumed.\<close>

text \<open>The result of a parser that spends fuel: it consumes something, and any fuel from the number of bytes consumed
  on gives the same result.\<close>

definition settles :: "(nat \<Rightarrow> bytes \<Rightarrow> ('a \<times> bytes) option) \<Rightarrow> bytes \<Rightarrow> 'a \<Rightarrow> bytes \<Rightarrow> bool" where
  "settles p s v r \<longleftrightarrow> length r < length s \<and> (\<forall>k \<ge> length s - length r. p k s = Some (v, r))"

lemma settlesI:
  assumes "length r < length s" and "\<And>m. length s - length r \<le> Suc m \<Longrightarrow> p (Suc m) s = Some (v, r)"
  shows "settles p s v r"
proof -
  have "p k s = Some (v, r)" if "length s - length r \<le> k" for k using assms that by (cases k) simp_all
  with assms(1) show ?thesis by (simp add: settles_def)
qed

lemma settlesD: "settles p s v r \<Longrightarrow> length s - length r \<le> k \<Longrightarrow> p k s = Some (v, r)" "settles p s v r \<Longrightarrow> length r < length s"
  by (simp_all add: settles_def)

lemma jval_cases:
  assumes "jval (Suc n) s = Some (v, r)"
  obtains (arr) t vs where "skip_ws s = CHR ''['' # t" "take 1 (skip_ws t) \<noteq> '']''" "jelems n t = Some (vs, r)" "v = JArr vs"
  | (obj) t ms where "skip_ws s = CHR ''{'' # t" "take 1 (skip_ws t) \<noteq> ''}''" "jmembs n t = Some (ms, r)" "v = JObj ms"
  | (flat) "\<And>m. jval (Suc m) s = Some (v, r)" "length r < length s"
proof -
  obtain c t where sk: "skip_ws s = c # t" using assms by (cases "skip_ws s") auto
  have len: "length t < length s" "length (c # t) \<le> length s" using skip_ws_Cons [OF sk] length_skip_ws [of s] sk by simp_all
  consider "c = CHR 0x22" | "c = CHR ''[''" "take 1 (skip_ws t) = '']''" | "c = CHR ''[''" "take 1 (skip_ws t) \<noteq> '']''"
    | "c = CHR ''{''" "take 1 (skip_ws t) = ''}''" | "c = CHR ''{''" "take 1 (skip_ws t) \<noteq> ''}''"
    | "c \<notin> {CHR 0x22, CHR ''['', CHR ''{''}" by blast
  then show thesis
  proof cases
    case 1
    with assms sk obtain x where "jstr t = Some (x, r)" "v = JStr x" by (auto split: option.splits)
    with 1 sk jstr_shrinks [of t x r] len show thesis by (intro flat) auto
  next
    case 3
    with assms sk show thesis by (auto split: option.splits intro: arr)
  next
    case 5
    with assms sk show thesis by (auto split: option.splits intro: obj)
  next
    case 6
    have all: "jval (Suc m) s = jscalar c t" for m using 6 sk by simp
    with assms have "length r < length (c # t)" by (intro jscalar_shrinks) simp
    with all assms len(2) show thesis by (intro flat) auto
  qed (use assms sk length_skip_ws [of t] len in \<open>intro flat; auto\<close>)+
qed

lemma jval_settles:
  assumes "jval (Suc n) s = Some (v, r)" and "\<And>t vs r. jelems n t = Some (vs, r) \<Longrightarrow> settles jelems t vs r"
    and "\<And>t ms r. jmembs n t = Some (ms, r) \<Longrightarrow> settles jmembs t ms r"
  shows "settles jval s v r"
  using assms(1)
proof (cases rule: jval_cases)
  case (arr t vs)
  note e = settlesD [OF assms(2) [OF arr(3)]]
  show ?thesis using arr e skip_ws_Cons [OF arr(1)] by (intro settlesI) simp_all
next
  case (obj t ms)
  note e = settlesD [OF assms(3) [OF obj(3)]]
  show ?thesis using obj e skip_ws_Cons [OF obj(1)] by (intro settlesI) simp_all
next
  case flat
  then show ?thesis by (intro settlesI) simp_all
qed

lemma jelems_settles:
  assumes "jelems (Suc n) s = Some (vs, r)" and "\<And>t v r. jval n t = Some (v, r) \<Longrightarrow> settles jval t v r"
    and "\<And>t vs r. jelems n t = Some (vs, r) \<Longrightarrow> settles jelems t vs r"
  shows "settles jelems s vs r"
proof -
  obtain v r1 c r2 where v: "jval n s = Some (v, r1)" and c: "skip_ws r1 = c # r2"
    using assms(1) by (auto split: option.splits list.splits)
  note iv = settlesD [OF assms(2) [OF v]]
  have r2: "length r2 < length r1" by (rule skip_ws_Cons [OF c])
  show ?thesis
  proof (cases "c = CHR '',''")
    case True
    with assms(1) v c obtain vs' where vs': "jelems n r2 = Some (vs', r)" "vs = v # vs'" by (auto split: option.splits)
    note ie = settlesD [OF assms(3) [OF vs'(1)]]
    show ?thesis using iv ie r2 c True vs'(2) by (intro settlesI) simp_all
  next
    case False
    with assms(1) v c have "c = CHR '']''" "vs = [v]" "r = r2" by (auto split: if_splits)
    with iv r2 c show ?thesis by (intro settlesI) simp_all
  qed
qed

lemma jmembs_settles:
  assumes "jmembs (Suc n) s = Some (ms, r)" and "\<And>t v r. jval n t = Some (v, r) \<Longrightarrow> settles jval t v r"
    and "\<And>t ms r. jmembs n t = Some (ms, r) \<Longrightarrow> settles jmembs t ms r"
  shows "settles jmembs s ms r"
proof -
  obtain r0 key r1 r2 v r3 c r4 where k: "skip_ws s = CHR 0x22 # r0" "jstr r0 = Some (key, r1)" "skip_ws r1 = CHR '':'' # r2"
    and v: "jval n r2 = Some (v, r3)" and c: "skip_ws r3 = c # r4"
    using assms(1) by (auto split: option.splits list.splits if_splits)
  note iv = settlesD [OF assms(2) [OF v]]
  have ls: "length r4 < length r3" "length r2 < length r1" "length r1 < length r0" "length r0 < length s"
    using skip_ws_Cons [OF c] skip_ws_Cons [OF k(3)] jstr_shrinks [OF k(2)] skip_ws_Cons [OF k(1)] by blast+
  show ?thesis
  proof (cases "c = CHR '',''")
    case True
    with assms(1) k v c obtain ms' where ms': "jmembs n r4 = Some (ms', r)" "ms = (key, v) # ms'" by (auto split: option.splits)
    note ie = settlesD [OF assms(3) [OF ms'(1)]]
    show ?thesis using iv ie ls k c True ms'(2) by (intro settlesI) simp_all
  next
    case False
    with assms(1) k v c have "c = CHR ''}''" "ms = [(key, v)]" "r = r4" by (auto split: if_splits)
    with iv ls k c show ?thesis by (intro settlesI) simp_all
  qed
qed

lemma jval_consumed:
  "jval n s = Some (v, r) \<Longrightarrow> settles jval s v r"
  "jelems n s = Some (vs, r) \<Longrightarrow> settles jelems s vs r"
  "jmembs n s = Some (ms, r) \<Longrightarrow> settles jmembs s ms r"
proof (induction n arbitrary: s v r vs ms)
  case (Suc n)
  { case 1 then show ?case by (rule jval_settles) (erule Suc.IH)+ }
  { case 2 then show ?case by (rule jelems_settles) (erule Suc.IH)+ }
  { case 3 then show ?case by (rule jmembs_settles) (erule Suc.IH)+ }
qed simp_all

lemma jval_fuel:
  assumes "jval n s = Some x"
  shows "jval (length s) s = Some x"
proof -
  obtain v r where x: "x = (v, r)" by (rule prod.exhaust)
  with assms have "settles jval s v r" by (intro jval_consumed(1)) simp
  then show ?thesis by (simp add: x settles_def)
qed

section \<open>Round trip\<close>

fun json_ok :: "json \<Rightarrow> bool" where
  "json_ok (JNum l) \<longleftrightarrow> (\<exists>n. l = FormatUint n)"
| "json_ok (JStr s) \<longleftrightarrow> valid_utf8 s"
| "json_ok (JArr vs) \<longleftrightarrow> (\<forall>v \<in> set vs. json_ok v)"
| "json_ok (JObj ms) \<longleftrightarrow> (\<forall>m \<in> set ms. valid_utf8 (fst m) \<and> json_ok (snd m))"
| "json_ok _ \<longleftrightarrow> True"

text \<open>What may follow a number: nothing that would continue its literal.\<close>

definition num_stop :: "bytes \<Rightarrow> bool" where
  "num_stop r \<longleftrightarrow> r = [] \<or> (\<not> is_digit (hd r) \<and> hd r \<notin> {CHR ''.'', CHR ''e'', CHR ''E''})"

lemma num_stop_punct [simp]:
  "num_stop (CHR '','' # r)" "num_stop (CHR '']'' # r)" "num_stop (CHR ''}'' # r)" "num_stop []"
  "num_stop (CHR 0x0A # r)"
  by (simp_all add: num_stop_def is_digit_def digit_val_def)

lemma FormatUint_head:
  assumes "0 < n"
  shows "hd (FormatUint n) \<noteq> CHR ''0''"
  using assms
proof (induction n rule: FormatUint.induct)
  case (1 n)
  show ?case
  proof (cases "n < 10")
    case True
    have "digit_char n \<noteq> CHR ''0''"
    proof
      assume "digit_char n = CHR ''0''"
      then have "digit_val (CHR ''0'') = Some n" using digit_val_char [OF True] by simp
      then show False using "1.prems" by (simp add: digit_val_def)
    qed
    then show ?thesis using True by (simp add: FormatUint.simps [of n])
  next
    case False
    then have "hd (FormatUint (n div 10)) \<noteq> CHR ''0''" using 1 by simp
    with False show ?thesis by (simp add: FormatUint.simps [of n])
  qed
qed

lemma FormatUint_0: "FormatUint 0 = ''0''"
  by (simp add: FormatUint.simps digit_char_def char_eval)

lemma is_digit_Format: "\<forall>c \<in> set (FormatUint n). is_digit c"
  using FormatUint_digits by (simp add: is_digit_def)

lemma digit_runs:
  assumes "\<forall>c \<in> set xs. is_digit c" and "num_stop r"
  shows "takeWhile is_digit (xs @ r) = xs" and "dropWhile is_digit (xs @ r) = r"
  using assms by (cases r; auto simp: num_stop_def takeWhile_append2 dropWhile_append2)+

lemma jnum_FormatUint:
  assumes "num_stop r"
  shows "jnum (FormatUint n @ r) = Some (FormatUint n, r)"
proof -
  obtain c t where fmt: "FormatUint n = c # t" and c: "c \<noteq> CHR ''-''" "c \<noteq> CHR ''+''"
    by (rule FormatUint_hd)
  have dig: "is_digit c" using is_digit_Format [of n] fmt by simp
  have "jnum_int (FormatUint n @ r) = Some (FormatUint n, r)"
  proof (cases "n = 0")
    case True
    then show ?thesis by (simp add: FormatUint_0 jnum_int_def)
  next
    case False
    then have "c \<noteq> CHR ''0''" using FormatUint_head [of n] fmt by simp
    moreover have "takeWhile is_digit (c # t @ r) = c # t" "dropWhile is_digit (c # t @ r) = r"
      using digit_runs [OF is_digit_Format assms, of n] fmt by simp_all
    ultimately show ?thesis using dig fmt by (simp add: jnum_int_def)
  qed
  moreover have "jnum_frac r = Some ([], r)" "jnum_exp r = Some ([], r)"
    using assms by (auto simp: jnum_frac_def jnum_exp_def num_stop_def split: list.splits)
  ultimately show ?thesis using c fmt by (simp add: jnum_def)
qed

lemma skip_ws_id [simp]: "\<not> is_ws c \<Longrightarrow> skip_ws (c # r) = c # r"
  by (simp add: skip_ws_def)

lemma not_ws [simp]:
  "\<not> is_ws (CHR 0x22)" "\<not> is_ws (CHR '','')" "\<not> is_ws (CHR ''['')" "\<not> is_ws (CHR '']'')"
  "\<not> is_ws (CHR ''{'')" "\<not> is_ws (CHR ''}'')" "\<not> is_ws (CHR '':'')" "\<not> is_ws (CHR ''n'')"
  "\<not> is_ws (CHR ''t'')" "\<not> is_ws (CHR ''f'')"
  by (simp_all add: is_ws_def)

lemma digit_props:
  "is_digit c \<Longrightarrow> \<not> is_ws c \<and>
     c \<notin> {CHR 0x22, CHR ''['', CHR ''{'', CHR '']'', CHR ''}'', CHR ''t'', CHR ''f'', CHR ''n''}"
  by (auto simp: is_digit_def is_ws_def digit_val_def)

lemma jval_num:
  assumes "num_stop r"
  shows "jval (Suc n) (FormatUint k @ r) = Some (JNum (FormatUint k), r)"
proof -
  obtain c t where fmt: "FormatUint k = c # t" by (rule FormatUint_hd)
  then have "is_digit c" using is_digit_Format [of k] by simp
  with digit_props [of c] show ?thesis using jnum_FormatUint [OF assms, of k] fmt
    by (simp add: jscalar_def)
qed

lemma jval_str: "valid_utf8 s \<Longrightarrow> jval (Suc n) (json_quote s @ r) = Some (JStr s, r)"
  by (simp add: json_quote_def jstr_quote)

lemma json_print_nonempty: "json_ok v \<Longrightarrow> 0 < length (json_print v)"
  by (cases v) (auto simp: json_quote_def)

lemma json_print_head:
  assumes "json_ok v"
  shows "\<exists>c t. json_print v = c # t \<and> \<not> is_ws c \<and> c \<noteq> CHR '']'' \<and> c \<noteq> CHR ''}''"
proof (cases v)
  case (JNum l)
  then obtain k where k: "l = FormatUint k" using assms by auto
  obtain c t where "FormatUint k = c # t" by (rule FormatUint_hd)
  with k JNum digit_props [of c] is_digit_Format [of k] show ?thesis by auto
qed (auto simp: json_quote_def)

text \<open>One level of the round trip, given the levels below.\<close>

abbreviation (input) member_print :: "gostring \<times> json \<Rightarrow> bytes" where
  "member_print \<equiv> \<lambda>(k, v). json_quote k @ CHR '':'' # json_print v"

lemma jval_arr_print:
  assumes "\<forall>v \<in> set vs. json_ok v" and "vs \<noteq> [] \<Longrightarrow> jelems n (commas (map json_print vs) @ CHR '']'' # r) = Some (vs, r)"
  shows "jval (Suc n) (json_print (JArr vs) @ r) = Some (JArr vs, r)"
proof (cases vs)
  case (Cons w ws)
  then obtain c t where "json_print w = c # t" "\<not> is_ws c" "c \<noteq> CHR '']''" using json_print_head [of w] assms(1) by auto
  then have "take 1 (skip_ws (commas (map json_print vs) @ CHR '']'' # r)) \<noteq> '']''" using Cons by (cases ws) auto
  then show ?thesis using assms(2) Cons by simp
qed simp

lemma jval_obj_print:
  assumes "ms \<noteq> [] \<Longrightarrow> jmembs n (commas (map member_print ms) @ CHR ''}'' # r) = Some (ms, r)"
  shows "jval (Suc n) (json_print (JObj ms) @ r) = Some (JObj ms, r)"
proof (cases ms)
  case (Cons m ms')
  have "take 1 (skip_ws (commas (map member_print ms) @ CHR ''}'' # r)) \<noteq> ''}''"
    unfolding Cons by (cases m; cases ms') (auto simp: json_quote_def)
  then show ?thesis using assms Cons by simp
qed simp

lemma jelems_print:
  assumes "\<And>x. num_stop x \<Longrightarrow> jval n (json_print w @ x) = Some (w, x)"
    and "ws \<noteq> [] \<Longrightarrow> jelems n (commas (map json_print ws) @ CHR '']'' # r) = Some (ws, r)"
  shows "jelems (Suc n) (commas (map json_print (w # ws)) @ CHR '']'' # r) = Some (w # ws, r)"
  using assms by (cases ws) simp_all

lemma jmembs_print:
  assumes "\<And>x. num_stop x \<Longrightarrow> jval n (json_print w @ x) = Some (w, x)" and "valid_utf8 k"
    and "ms \<noteq> [] \<Longrightarrow> jmembs n (commas (map member_print ms) @ CHR ''}'' # r) = Some (ms, r)"
  shows "jmembs (Suc n) (commas (map member_print ((k, w) # ms)) @ CHR ''}'' # r) = Some ((k, w) # ms, r)"
proof -
  have "jstr (concat (map quote_unit (utf8_units k)) @ CHR 0x22 # x) = Some (k, x)" for x using assms(2) by (rule jstr_quote)
  then show ?thesis using assms by (cases ms) (simp_all add: json_quote_def)
qed

lemma json_roundtrip_aux:
  "json_ok v \<Longrightarrow> num_stop r \<Longrightarrow> length (json_print v) \<le> n \<Longrightarrow>
     jval n (json_print v @ r) = Some (v, r)"
  "vs \<noteq> [] \<Longrightarrow> \<forall>v \<in> set vs. json_ok v \<Longrightarrow> length (commas (map json_print vs)) < n \<Longrightarrow>
     jelems n (commas (map json_print vs) @ CHR '']'' # r) = Some (vs, r)"
  "ms \<noteq> [] \<Longrightarrow> \<forall>m \<in> set ms. valid_utf8 (fst m) \<and> json_ok (snd m) \<Longrightarrow>
     length (commas (map member_print ms)) < n \<Longrightarrow>
     jmembs n (commas (map member_print ms) @ CHR ''}'' # r) = Some (ms, r)"
proof (induction n arbitrary: v vs ms r)
  case 0
  { case 1 then show ?case using json_print_nonempty by fastforce }
  { case 2 then show ?case by simp }
  { case 3 then show ?case by simp }
next
  case (Suc n)
  {
    case 1
    show ?case
    proof (cases v)
      case (JNum l)
      with 1 jval_num show ?thesis by auto
    next
      case (JStr s)
      with 1 jval_str show ?thesis by simp
    next
      case (JArr vs)
      with 1 show ?thesis unfolding JArr by (intro jval_arr_print Suc.IH(2)) simp_all
    next
      case (JObj ms)
      with 1 show ?thesis unfolding JObj by (intro jval_obj_print Suc.IH(3)) simp_all
    qed (simp_all add: jscalar_def jlit_def)
  next
    case 2
    then obtain w ws where vs: "vs = w # ws" by (cases vs) auto
    show ?case unfolding vs using 2 by (intro jelems_print Suc.IH(1,2)) (cases ws; simp add: vs)+
  next
    case 3
    then obtain k w ms' where ms: "ms = (k, w) # ms'" by (cases ms) auto
    show ?case unfolding ms using 3 by (intro jmembs_print Suc.IH(1,3)) (cases ms'; simp add: ms)+
  }
qed

lemma json_Unmarshal_print [codec_simps]: "json_ok v \<Longrightarrow> json_Unmarshal (json_print v) = Some v"
  using json_roundtrip_aux(1) [of v "[]" "length (json_print v)"]
  by (simp add: json_Unmarshal_def skip_ws_def)

text \<open>\<^verbatim>\<open>Encoder.Encode\<close> ends the value with a line break.\<close>

definition json_Encode :: "json \<Rightarrow> bytes" where
  "json_Encode v = json_print v @ [CHR 0x0A]"

lemma json_Decode_Encode [codec_simps]: "json_ok v \<Longrightarrow> json_Decode (json_Encode v) = Some v"
  using json_roundtrip_aux(1) [of v "[CHR 0x0A]" "length (json_Encode v)"]
  by (simp add: json_Decode_def json_Encode_def)

interpretation jsonc: codec json_print json_Unmarshal json_ok
  by unfold_locales (rule json_Unmarshal_print)

interpretation jsons: codec json_Encode json_Decode json_ok
  by unfold_locales (rule json_Decode_Encode)

end
