(* ===== verification/JsonStruct.thy ===== *)
theory JsonStruct
  imports Json
begin

text \<open>
  How \<^verbatim>\<open>encoding/json\<close> maps the Go types of the program to JSON values and back: a
  \<^verbatim>\<open>string\<close>, a \<^verbatim>\<open>uint64\<close>, a \<^verbatim>\<open>[32]byte\<close> (an array of numbers), a
  \<^verbatim>\<open>[][32]byte\<close> (an array of arrays, \<^verbatim>\<open>null\<close> when nil) and a struct of such fields.
  A decoder takes the JSON value and the value already in the target, because \<^verbatim>\<open>null\<close> leaves
  the target alone, a repeated key overwrites it, and a missing key keeps it; \<open>None\<close> is
  a type error.  A key is matched to a field exactly or, failing that, ignoring ASCII case.
\<close>

section \<open>Encoders\<close>

definition hash_json :: "hash32 \<Rightarrow> json" where
  "hash_json h = JArr (map (\<lambda>c. JNum (FormatUint (byte_val c))) (bytes32 h))"

definition hashes_json :: "hash32 list \<Rightarrow> json" where
  "hashes_json hs = (if hs = [] then JNull else JArr (map hash_json hs))"

definition u64_json :: "uint64 \<Rightarrow> json" where
  "u64_json w = JNum (FormatUint (unat w))"

section \<open>Decoders\<close>

definition dec_string :: "json \<Rightarrow> gostring \<Rightarrow> gostring option" where
  "dec_string j old = (case j of JStr s \<Rightarrow> Some s | JNull \<Rightarrow> Some old | _ \<Rightarrow> None)"

definition dec_u64 :: "json \<Rightarrow> uint64 \<Rightarrow> uint64 option" where
  "dec_u64 j old = (case j of JNum l \<Rightarrow> map_option word_of_nat (ParseUint l)
     | JNull \<Rightarrow> Some old | _ \<Rightarrow> None)"

definition dec_byte :: "json \<Rightarrow> byte \<Rightarrow> byte option" where
  "dec_byte j old = (case j of
     JNum l \<Rightarrow> (case ParseUint l of None \<Rightarrow> None | Some n \<Rightarrow> if n < 256 then Some (byte_of n) else None)
   | JNull \<Rightarrow> Some old | _ \<Rightarrow> None)"

text \<open>The elements of a fixed array: extra JSON elements are skipped, missing ones become zero.\<close>

fun dec_elems :: "json list \<Rightarrow> bytes \<Rightarrow> bytes option" where
  "dec_elems vs [] = Some []"
| "dec_elems [] (b # bs) = Some (replicate (length (b # bs)) (CHR 0x00))"
| "dec_elems (v # vs) (b # bs) =
     (case (dec_byte v b, dec_elems vs bs) of (Some x, Some xs) \<Rightarrow> Some (x # xs) | _ \<Rightarrow> None)"

definition dec_hash :: "json \<Rightarrow> hash32 \<Rightarrow> hash32 option" where
  "dec_hash j old = (case j of JArr vs \<Rightarrow> map_option copy32 (dec_elems vs (bytes32 old))
     | JNull \<Rightarrow> Some old | _ \<Rightarrow> None)"

fun dec_hash_elems :: "json list \<Rightarrow> hash32 list \<Rightarrow> hash32 list option" where
  "dec_hash_elems [] old = Some []"
| "dec_hash_elems (v # vs) old =
     (case (dec_hash v (case old of [] \<Rightarrow> zero32 | h # _ \<Rightarrow> h), dec_hash_elems vs (tl old)) of
        (Some x, Some xs) \<Rightarrow> Some (x # xs) | _ \<Rightarrow> None)"

definition dec_hashes :: "json \<Rightarrow> hash32 list \<Rightarrow> hash32 list option" where
  "dec_hashes j old = (case j of JArr vs \<Rightarrow> dec_hash_elems vs old | JNull \<Rightarrow> Some [] | _ \<Rightarrow> None)"

type_synonym 'r field = "gostring \<times> (json \<Rightarrow> 'r \<Rightarrow> 'r option)"

definition ascii_lower :: "char \<Rightarrow> char" where
  "ascii_lower c = (let n = byte_val c in if 65 \<le> n \<and> n \<le> 90 then char_of (n + 32) else c)"

definition find_field :: "'r field list \<Rightarrow> gostring \<Rightarrow> (json \<Rightarrow> 'r \<Rightarrow> 'r option) option" where
  "find_field fs k = (case map_of fs k of
     Some f \<Rightarrow> Some f
   | None \<Rightarrow> map_option snd (find (\<lambda>(n, _). map ascii_lower n = map ascii_lower k) fs))"

fun dec_members :: "'r field list \<Rightarrow> (gostring \<times> json) list \<Rightarrow> 'r \<Rightarrow> 'r option" where
  "dec_members fs [] r = Some r"
| "dec_members fs ((k, v) # ms) r =
     (case find_field fs k of
        None \<Rightarrow> dec_members fs ms r
      | Some f \<Rightarrow> (case f v r of None \<Rightarrow> None | Some r' \<Rightarrow> dec_members fs ms r'))"

definition dec_struct :: "'r field list \<Rightarrow> json \<Rightarrow> 'r \<Rightarrow> 'r option" where
  "dec_struct fs j old = (case j of JObj ms \<Rightarrow> dec_members fs ms old | JNull \<Rightarrow> Some old | _ \<Rightarrow> None)"

section \<open>Round trips\<close>

lemma dec_u64_json [simp]: "dec_u64 (u64_json w) old = Some w"
proof -
  have "unat w < 2 ^ 64" using unsigned_less [of w, where ?'a = nat] by simp
  then show ?thesis by (simp add: dec_u64_def u64_json_def del: of_nat_unat) simp
qed

lemma dec_byte_json [simp]: "dec_byte (JNum (FormatUint (byte_val c))) b = Some c"
proof -
  have "byte_val c < 256" by simp
  moreover have "byte_val c < 2 ^ 64" by (rule less_le_trans [of _ 256]) simp_all
  ultimately show ?thesis by (simp add: dec_byte_def)
qed

lemma dec_elems_json:
  "length bs = length old \<Longrightarrow>
   dec_elems (map (\<lambda>c. JNum (FormatUint (byte_val c))) bs) old = Some bs"
proof (induction bs arbitrary: old)
  case Nil
  then show ?case by simp
next
  case (Cons c bs)
  then obtain b r where "old = b # r" "length bs = length r" by (cases old) auto
  with Cons.IH show ?case by simp
qed

lemma dec_hash_json [simp]: "dec_hash (hash_json h) old = Some h"
  by (simp add: dec_hash_def hash_json_def dec_elems_json)

lemma dec_hash_elems_json: "dec_hash_elems (map hash_json hs) old = Some hs"
  by (induction hs arbitrary: old) auto

lemma dec_hashes_json [simp]: "dec_hashes (hashes_json hs) old = Some hs"
  by (simp add: dec_hashes_def hashes_json_def dec_hash_elems_json)

lemma json_ok_scalars [simp]: "json_ok (hash_json h)" "json_ok (hashes_json hs)" "json_ok (u64_json w)"
  by (auto simp: hash_json_def hashes_json_def u64_json_def)

lemma ascii_valid_utf8: "list_all (\<lambda>c. byte_val c < 128) s \<Longrightarrow> valid_utf8 s"
proof (induction s)
  case Nil
  show ?case by (simp add: valid_utf8_def utf8_units.simps [of "[]"])
next
  case (Cons c s)
  then have "utf8_units (c # s) = [c] # utf8_units s"
    by (simp add: utf8_units.simps [of "c # s"] unit_len_def)
  with Cons show ?case by (simp add: valid_utf8_def valid_unit_def)
qed

end
