(* ===== verification/MetaStore.thy ===== *)
theory MetaStore
  imports JsonStruct "HOL-Library.AList"
begin

text \<open>
  \<^verbatim>\<open>internal/store/meta.go\<close>: the per-file metadata index.  The database
  \<^verbatim>\<open>go.etcd.io/bbolt\<close> is a parameter, the record \<open>bolt\<close> of the calls the program makes
  on the bucket \<^verbatim>\<open>files\<close>; \<open>bolt_spec\<close> states its documented behaviour on a healthy
  database (read your writes, keys iterated in byte order, an empty or oversized key refused).
  Values are the JSON texts the program writes, produced and parsed by the model of
  \<^verbatim>\<open>encoding/json\<close>.
\<close>

record FileMeta =
  fm_FileID :: gostring
  fm_MerkleRoot :: hash32
  fm_LamportTS :: uint64
  fm_ChunkHashes :: "hash32 list"
  fm_SizeBytes :: uint64

record CatalogEntry =
  ce_FileID :: gostring
  ce_MerkleRoot :: hash32
  ce_LamportTS :: uint64

section \<open>JSON form\<close>

definition FileMeta_json :: "FileMeta \<Rightarrow> json" where
  "FileMeta_json m = JObj
     [(''FileID'', JStr (fm_FileID m)),
      (''MerkleRoot'', hash_json (fm_MerkleRoot m)),
      (''LamportTS'', u64_json (fm_LamportTS m)),
      (''ChunkHashes'', hashes_json (fm_ChunkHashes m)),
      (''SizeBytes'', u64_json (fm_SizeBytes m))]"

definition FileMeta_zero :: FileMeta where
  "FileMeta_zero = \<lparr>fm_FileID = [], fm_MerkleRoot = zero32, fm_LamportTS = 0, fm_ChunkHashes = [],
     fm_SizeBytes = 0\<rparr>"

definition FileMeta_fields :: "FileMeta field list" where
  "FileMeta_fields =
     [(''FileID'', \<lambda>j m. map_option (\<lambda>x. m\<lparr>fm_FileID := x\<rparr>) (dec_string j (fm_FileID m))),
      (''MerkleRoot'', \<lambda>j m. map_option (\<lambda>x. m\<lparr>fm_MerkleRoot := x\<rparr>) (dec_hash j (fm_MerkleRoot m))),
      (''LamportTS'', \<lambda>j m. map_option (\<lambda>x. m\<lparr>fm_LamportTS := x\<rparr>) (dec_u64 j (fm_LamportTS m))),
      (''ChunkHashes'', \<lambda>j m. map_option (\<lambda>x. m\<lparr>fm_ChunkHashes := x\<rparr>) (dec_hashes j (fm_ChunkHashes m))),
      (''SizeBytes'', \<lambda>j m. map_option (\<lambda>x. m\<lparr>fm_SizeBytes := x\<rparr>) (dec_u64 j (fm_SizeBytes m)))]"

definition FileMeta_of_json :: "json \<Rightarrow> FileMeta option" where
  "FileMeta_of_json j = dec_struct FileMeta_fields j FileMeta_zero"

definition FileMeta_Unmarshal :: "bytes \<Rightarrow> FileMeta option" where
  "FileMeta_Unmarshal s = Option.bind (json_Unmarshal s) FileMeta_of_json"

definition CatalogEntry_json :: "CatalogEntry \<Rightarrow> json" where
  "CatalogEntry_json e = JObj
     [(''FileID'', JStr (ce_FileID e)),
      (''MerkleRoot'', hash_json (ce_MerkleRoot e)),
      (''LamportTS'', u64_json (ce_LamportTS e))]"

definition CatalogEntry_zero :: CatalogEntry where
  "CatalogEntry_zero = \<lparr>ce_FileID = [], ce_MerkleRoot = zero32, ce_LamportTS = 0\<rparr>"

definition CatalogEntry_fields :: "CatalogEntry field list" where
  "CatalogEntry_fields =
     [(''FileID'', \<lambda>j m. map_option (\<lambda>x. m\<lparr>ce_FileID := x\<rparr>) (dec_string j (ce_FileID m))),
      (''MerkleRoot'', \<lambda>j m. map_option (\<lambda>x. m\<lparr>ce_MerkleRoot := x\<rparr>) (dec_hash j (ce_MerkleRoot m))),
      (''LamportTS'', \<lambda>j m. map_option (\<lambda>x. m\<lparr>ce_LamportTS := x\<rparr>) (dec_u64 j (ce_LamportTS m)))]"

definition CatalogEntry_of_json :: "json \<Rightarrow> CatalogEntry option" where
  "CatalogEntry_of_json j = dec_struct CatalogEntry_fields j CatalogEntry_zero"

lemma valid_keys [simp]:
  "valid_utf8 ''FileID''" "valid_utf8 ''MerkleRoot''" "valid_utf8 ''LamportTS''"
  "valid_utf8 ''ChunkHashes''" "valid_utf8 ''SizeBytes''"
  by (rule ascii_valid_utf8, simp)+

lemma FileMeta_json_ok [simp]: "json_ok (FileMeta_json m) \<longleftrightarrow> valid_utf8 (fm_FileID m)"
  by (auto simp: FileMeta_json_def)

lemma FileMeta_of_json_json [simp]: "FileMeta_of_json (FileMeta_json m) = Some m"
  by (simp add: FileMeta_of_json_def FileMeta_json_def FileMeta_fields_def dec_struct_def
      find_field_def dec_string_def FileMeta_zero_def)

lemma CatalogEntry_json_ok [simp]: "json_ok (CatalogEntry_json e) \<longleftrightarrow> valid_utf8 (ce_FileID e)"
  by (auto simp: CatalogEntry_json_def)

lemma CatalogEntry_of_json_json [simp]: "CatalogEntry_of_json (CatalogEntry_json e) = Some e"
  by (simp add: CatalogEntry_of_json_def CatalogEntry_json_def CatalogEntry_fields_def
      dec_struct_def find_field_def dec_string_def CatalogEntry_zero_def)

interpretation metac: codec "\<lambda>m. json_print (FileMeta_json m)" FileMeta_Unmarshal
  "\<lambda>m. valid_utf8 (fm_FileID m)"
  by unfold_locales (simp add: FileMeta_Unmarshal_def json_Unmarshal_print)

section \<open>The store\<close>

record 'db bolt =
  bolt_Open :: "gostring \<Rightarrow> (gostring, 'db) result"
  bolt_CreateBucket :: "'db \<Rightarrow> (gostring, 'db) result"
  bolt_Put :: "'db \<Rightarrow> bytes \<Rightarrow> bytes \<Rightarrow> (gostring, 'db) result"
  bolt_Get :: "'db \<Rightarrow> bytes \<Rightarrow> (gostring, bytes option) result"
  bolt_Items :: "'db \<Rightarrow> (gostring, (bytes \<times> bytes) list) result"

datatype meta_error = MetaDb gostring | MetaNotFound | MetaJson

text \<open>The constructor returns the store together with the error of creating the bucket.\<close>

definition NewBoltMetaStore ::
  "'db bolt \<Rightarrow> gostring \<Rightarrow> (gostring, 'db \<times> gostring option) result" where
  "NewBoltMetaStore B dbPath =
     (case bolt_Open B dbPath of
        Inl e \<Rightarrow> Inl e
      | Inr db \<Rightarrow> (case bolt_CreateBucket B db of Inl e \<Rightarrow> Inr (db, Some e) | Inr db' \<Rightarrow> Inr (db', None)))"

definition PutFileMeta :: "'db bolt \<Rightarrow> 'db \<Rightarrow> FileMeta \<Rightarrow> 'db \<times> (meta_error, unit) result" where
  "PutFileMeta B db m =
     (case bolt_Put B db (fm_FileID m) (json_print (FileMeta_json m)) of
        Inl e \<Rightarrow> (db, Inl (MetaDb e))
      | Inr db' \<Rightarrow> (db', Inr ()))"

definition GetFileMeta :: "'db bolt \<Rightarrow> 'db \<Rightarrow> gostring \<Rightarrow> (meta_error, FileMeta) result" where
  "GetFileMeta B db fileID =
     (case bolt_Get B db fileID of
        Inl e \<Rightarrow> Inl (MetaDb e)
      | Inr None \<Rightarrow> Inl MetaNotFound
      | Inr (Some d) \<Rightarrow> (case FileMeta_Unmarshal d of None \<Rightarrow> Inl MetaJson | Some m \<Rightarrow> Inr m))"

definition catalog_entry :: "FileMeta \<Rightarrow> CatalogEntry" where
  "catalog_entry m =
     \<lparr>ce_FileID = fm_FileID m, ce_MerkleRoot = fm_MerkleRoot m, ce_LamportTS = fm_LamportTS m\<rparr>"

fun catalog_of :: "(bytes \<times> bytes) list \<Rightarrow> CatalogEntry list" where
  "catalog_of [] = []"
| "catalog_of ((k, v) # kvs) =
     (case FileMeta_Unmarshal v of None \<Rightarrow> catalog_of kvs | Some m \<Rightarrow> catalog_entry m # catalog_of kvs)"

definition ListCatalog :: "'db bolt \<Rightarrow> 'db \<Rightarrow> (meta_error, CatalogEntry list) result" where
  "ListCatalog B db =
     (case bolt_Items B db of Inl e \<Rightarrow> Inl (MetaDb e) | Inr kvs \<Rightarrow> Inr (catalog_of kvs))"

section \<open>What the database promises\<close>

text \<open>\<open>live db\<close>: the database is open and healthy; \<open>bucket db\<close>: what its bucket holds.\<close>

definition bolt_spec :: "'db bolt \<Rightarrow> ('db \<Rightarrow> bool) \<Rightarrow> ('db \<Rightarrow> bytes \<rightharpoonup> bytes) \<Rightarrow> bool" where
  "bolt_spec B live bucket \<longleftrightarrow>
     (\<forall>db k. live db \<longrightarrow> bolt_Get B db k = Inr (bucket db k)) \<and>
     (\<forall>db k v. live db \<and> k \<noteq> [] \<and> length k \<le> 32768 \<longrightarrow>
        (\<exists>db'. bolt_Put B db k v = Inr db' \<and> live db' \<and> bucket db' = (bucket db)(k \<mapsto> v))) \<and>
     (\<forall>db k v. live db \<and> (k = [] \<or> 32768 < length k) \<longrightarrow> (\<exists>e. bolt_Put B db k v = Inl e)) \<and>
     (\<forall>db. live db \<longrightarrow> (\<exists>kvs. bolt_Items B db = Inr kvs \<and> sorted (map fst kvs) \<and>
        distinct (map fst kvs) \<and> map_of kvs = bucket db))"

definition storable_id :: "gostring \<Rightarrow> bool" where
  "storable_id i \<longleftrightarrow> i \<noteq> [] \<and> length i \<le> 32768 \<and> valid_utf8 i"

lemma bolt_Get_live: "bolt_spec B live bucket \<Longrightarrow> live db \<Longrightarrow> bolt_Get B db k = Inr (bucket db k)"
  by (simp add: bolt_spec_def)

lemma bolt_Put_live:
  assumes "bolt_spec B live bucket" and "live db" and "k \<noteq> []" and "length k \<le> 32768"
  shows "\<exists>db'. bolt_Put B db k v = Inr db' \<and> live db' \<and> bucket db' = (bucket db)(k \<mapsto> v)"
  using assms unfolding bolt_spec_def by simp

lemma bolt_Put_refused:
  assumes "bolt_spec B live bucket" and "live db" and "k = [] \<or> 32768 < length k"
  shows "\<exists>e. bolt_Put B db k v = Inl e"
  using assms unfolding bolt_spec_def by simp

lemma bolt_Items_live:
  assumes "bolt_spec B live bucket" and "live db"
  shows "\<exists>kvs. bolt_Items B db = Inr kvs \<and> sorted (map fst kvs) \<and>
    distinct (map fst kvs) \<and> map_of kvs = bucket db"
  using assms unfolding bolt_spec_def by simp

lemma GetFileMeta_iff:
  assumes "bolt_spec B live bucket" and "live db"
  shows "GetFileMeta B db i = Inr m \<longleftrightarrow> (\<exists>v. bucket db i = Some v \<and> FileMeta_Unmarshal v = Some m)"
  by (simp add: GetFileMeta_def bolt_Get_live [OF assms] split: option.split)

lemma PutFileMeta_spec:
  assumes "bolt_spec B live bucket" and "live db" and "storable_id (fm_FileID m)"
  obtains db' where "PutFileMeta B db m = (db', Inr ())" and "live db'"
    and "bucket db' = (bucket db)(fm_FileID m \<mapsto> json_print (FileMeta_json m))"
    and "\<And>i. GetFileMeta B db' i = (if i = fm_FileID m then Inr m else GetFileMeta B db i)"
proof -
  obtain db' where db': "bolt_Put B db (fm_FileID m) (json_print (FileMeta_json m)) = Inr db'"
    "live db'" "bucket db' = (bucket db)(fm_FileID m \<mapsto> json_print (FileMeta_json m))"
    using bolt_Put_live [OF assms(1,2)] assms(3) unfolding storable_id_def by metis
  have "FileMeta_Unmarshal (json_print (FileMeta_json m)) = Some m"
    using assms(3) by (simp add: metac.dec_enc storable_id_def)
  then have "GetFileMeta B db' i = (if i = fm_FileID m then Inr m else GetFileMeta B db i)" for i
    by (simp add: GetFileMeta_def bolt_Get_live [OF assms(1)] assms(2) db'(2,3))
  with db' show ?thesis by (intro that [of db']) (simp_all add: PutFileMeta_def)
qed

lemma PutFileMeta_empty_id:
  assumes "bolt_spec B live bucket" and "live db" and "fm_FileID m = []"
  obtains e where "PutFileMeta B db m = (db, Inl (MetaDb e))"
proof -
  obtain e where "bolt_Put B db [] (json_print (FileMeta_json m)) = Inl e"
    using bolt_Put_refused [OF assms(1,2)] by blast
  with assms(3) show ?thesis by (intro that [of e]) (simp add: PutFileMeta_def)
qed

text \<open>The catalog lists exactly the entries whose value parses, one per key, in key order.\<close>

lemma catalog_of_filter:
  "catalog_of kvs = map catalog_entry (List.map_filter (\<lambda>kv. FileMeta_Unmarshal (snd kv)) kvs)"
  by (induction kvs rule: catalog_of.induct) (simp_all add: List.map_filter_simps split: option.split)

lemma catalog_of_set:
  "e \<in> set (catalog_of kvs) \<longleftrightarrow>
     (\<exists>k v m. (k, v) \<in> set kvs \<and> FileMeta_Unmarshal v = Some m \<and> e = catalog_entry m)"
  by (force simp: catalog_of_filter List.map_filter_def image_iff)

lemma ListCatalog_spec:
  assumes "bolt_spec B live bucket" and "live db"
  obtains es where "ListCatalog B db = Inr es"
    and "\<And>e. e \<in> set es \<longleftrightarrow> (\<exists>i m. GetFileMeta B db i = Inr m \<and> e = catalog_entry m)"
proof -
  obtain kvs where kvs: "bolt_Items B db = Inr kvs" "distinct (map fst kvs)" "map_of kvs = bucket db"
    using bolt_Items_live [OF assms] by blast
  have "e \<in> set (catalog_of kvs) \<longleftrightarrow> (\<exists>i m. GetFileMeta B db i = Inr m \<and> e = catalog_entry m)" for e
  proof -
    have "(k, v) \<in> set kvs \<longleftrightarrow> bucket db k = Some v" for k v
      using kvs(2,3) by (metis map_of_eq_Some_iff)
    then show ?thesis
      by (simp add: catalog_of_set GetFileMeta_iff [OF assms]) blast
  qed
  with kvs show ?thesis by (intro that [of "catalog_of kvs"]) (simp_all add: ListCatalog_def)
qed

section \<open>An instance\<close>

text \<open>A database that keeps its bucket as an association list in key order.\<close>

fun ins_kv :: "bytes \<Rightarrow> bytes \<Rightarrow> (bytes \<times> bytes) list \<Rightarrow> (bytes \<times> bytes) list" where
  "ins_kv k v [] = [(k, v)]"
| "ins_kv k v ((a, b) # r) =
     (if k = a then (k, v) # r else if k < a then (k, v) # (a, b) # r else (a, b) # ins_kv k v r)"

definition list_bolt :: "(bytes \<times> bytes) list bolt" where
  "list_bolt = \<lparr>bolt_Open = (\<lambda>_. Inr []), bolt_CreateBucket = Inr,
     bolt_Put = (\<lambda>db k v. if k = [] then Inl ''key required''
        else if 32768 < length k then Inl ''key too large'' else Inr (ins_kv k v db)),
     bolt_Get = (\<lambda>db k. Inr (map_of db k)), bolt_Items = Inr\<rparr>"

definition kv_sorted :: "(bytes \<times> bytes) list \<Rightarrow> bool" where
  "kv_sorted db \<longleftrightarrow> sorted (map fst db) \<and> distinct (map fst db)"

lemma kv_sorted_Cons:
  "kv_sorted ((k, v) # db) \<longleftrightarrow> kv_sorted db \<and> (\<forall>x \<in> set (map fst db). k < x)"
  by (auto simp: kv_sorted_def order.strict_iff_order)

lemma ins_kv_keys: "set (map fst (ins_kv k v db)) = insert k (set (map fst db))"
  by (induction k v db rule: ins_kv.induct) auto

lemma ins_kv_map: "kv_sorted db \<Longrightarrow> map_of (ins_kv k v db) = (map_of db)(k \<mapsto> v)"
  by (induction k v db rule: ins_kv.induct) (auto simp: kv_sorted_def fun_eq_iff)

lemma ins_kv_sorted: "kv_sorted db \<Longrightarrow> kv_sorted (ins_kv k v db)"
proof (induction k v db rule: ins_kv.induct)
  case (1 k v)
  show ?case by (simp add: kv_sorted_def)
next
  case (2 k v a b r)
  then have r: "kv_sorted r" "\<And>x. x \<in> set (map fst r) \<Longrightarrow> a < x"
    by (auto simp: kv_sorted_def order.strict_iff_order)
  consider "k = a" | "k < a" | "a < k" by (rule linorder_cases)
  then show ?case
  proof cases
    case 1
    with \<open>kv_sorted ((a, b) # r)\<close> show ?thesis by (simp add: kv_sorted_def)
  next
    case 2
    then have "k < x" if "x \<in> set (map fst r)" for x using r(2) [OF that] by (rule order.strict_trans)
    with 2 r(1) have "kv_sorted ((k, v) # (a, b) # r)"
      using \<open>kv_sorted ((a, b) # r)\<close> unfolding kv_sorted_Cons [of k] by auto
    moreover have "ins_kv k v ((a, b) # r) = (k, v) # (a, b) # r" using 2 by auto
    ultimately show ?thesis by simp
  next
    case 3
    then have "kv_sorted (ins_kv k v r)" using "2.IH" r(1) by simp
    moreover have "a < x" if "x \<in> set (map fst (ins_kv k v r))" for x
      using that 3 r(2) unfolding ins_kv_keys by blast
    ultimately have "kv_sorted ((a, b) # ins_kv k v r)" unfolding kv_sorted_Cons by blast
    moreover have "ins_kv k v ((a, b) # r) = (a, b) # ins_kv k v r" using 3 by auto
    ultimately show ?thesis by simp
  qed
qed

lemma list_bolt_spec: "bolt_spec list_bolt kv_sorted map_of"
  by (auto simp: bolt_spec_def list_bolt_def ins_kv_sorted ins_kv_map) (auto simp: kv_sorted_def)

end
