(* ===== verification/Sha256.thy ===== *)
theory Sha256
  imports Prelude
begin

text \<open>
  The parts of the Go standard library's \<^verbatim>\<open>crypto/sha256\<close> and \<^verbatim>\<open>crypto/hmac\<close> the
  program uses: \<open>sha256\<close> is \<^verbatim>\<open>sha256.Sum256\<close> and \<open>hmac_sha256 key msg\<close> is
  \<^verbatim>\<open>hmac.New(sha256.New, key)\<close>, one \<^verbatim>\<open>Write(msg)\<close>, \<^verbatim>\<open>Sum(nil)\<close>.  Both are
  written out (FIPS 180-4, RFC 2104), so no property of the development assumes anything about
  them; where a statement depends on collisions it names the colliding inputs.
\<close>

unbundle bit_operations_syntax

section \<open>SHA-256\<close>

text \<open>The constants are what the standard says they are: the first 32 bits of the fractional parts of
  the cube roots of the first 64 primes (the round constants) and of the square roots of the first 8
  (the initial state).  \<open>root_bits k b r n\<close> finds the bits of the integer \<open>k\<close>-th root of \<open>n\<close>
  below bit \<open>b\<close>, given those above it in \<open>r\<close>.\<close>

fun root_bits :: "nat \<Rightarrow> nat \<Rightarrow> int \<Rightarrow> int \<Rightarrow> int" where
  "root_bits k 0 r n = r"
| "root_bits k (Suc b) r n = root_bits k b (if (r + 2 ^ b) ^ k \<le> n then r + 2 ^ b else r) n"

definition sha_primes :: "int list" where
  "sha_primes = [2, 3, 5, 7, 11, 13, 17, 19, 23, 29, 31, 37, 41, 43, 47, 53, 59, 61, 67, 71, 73, 79,
     83, 89, 97, 101, 103, 107, 109, 113, 127, 131, 137, 139, 149, 151, 157, 163, 167, 173, 179, 181,
     191, 193, 197, 199, 211, 223, 227, 229, 233, 239, 241, 251, 257, 263, 269, 271, 277, 281, 283,
     293, 307, 311]"

definition sha_k :: "uint32 list" where
  "sha_k = map (\<lambda>p. word_of_int (root_bits 3 36 0 (p * 2 ^ 96))) sha_primes"

type_synonym sha_state =
  "uint32 \<times> uint32 \<times> uint32 \<times> uint32 \<times> uint32 \<times> uint32 \<times> uint32 \<times> uint32"

definition sqrt_frac :: "int \<Rightarrow> uint32" where
  "sqrt_frac p = word_of_int (root_bits 2 36 0 (p * 2 ^ 64))"

definition sha_init :: sha_state where
  "sha_init = (sqrt_frac 2, sqrt_frac 3, sqrt_frac 5, sqrt_frac 7, sqrt_frac 11, sqrt_frac 13,
     sqrt_frac 17, sqrt_frac 19)"

definition rotr32 :: "nat \<Rightarrow> uint32 \<Rightarrow> uint32" where
  "rotr32 n x = drop_bit n x OR push_bit (32 - n) x"

definition sha_s0 :: "uint32 \<Rightarrow> uint32" where
  "sha_s0 x = (rotr32 7 x XOR rotr32 18 x) XOR drop_bit 3 x"

definition sha_s1 :: "uint32 \<Rightarrow> uint32" where
  "sha_s1 x = (rotr32 17 x XOR rotr32 19 x) XOR drop_bit 10 x"

text \<open>The schedule is kept newest word first: \<open>w ! 15\<close> is the word sixteen steps back.\<close>

fun sha_schedule :: "nat \<Rightarrow> uint32 list \<Rightarrow> uint32 list" where
  "sha_schedule 0 w = w"
| "sha_schedule (Suc n) w =
     sha_schedule n ((sha_s1 (w ! 1) + w ! 6 + sha_s0 (w ! 14) + w ! 15) # w)"

definition sha_round :: "sha_state \<Rightarrow> uint32 \<times> uint32 \<Rightarrow> sha_state" where
  "sha_round st kw = (case st of (a, b, c, d, e, f, g, h) \<Rightarrow>
     let t1 = h + ((rotr32 6 e XOR rotr32 11 e) XOR rotr32 25 e)
              + ((e AND f) XOR (NOT e AND g)) + fst kw + snd kw;
         t2 = ((rotr32 2 a XOR rotr32 13 a) XOR rotr32 22 a)
              + (((a AND b) XOR (a AND c)) XOR (b AND c))
     in (t1 + t2, a, b, c, d + t1, e, f, g))"

definition sha_add :: "sha_state \<Rightarrow> sha_state \<Rightarrow> sha_state" where
  "sha_add s t = (case s of (a, b, c, d, e, f, g, h) \<Rightarrow> case t of (a', b', c', d', e', f', g', h') \<Rightarrow>
     (a + a', b + b', c + c', d + d', e + e', f + f', g + g', h + h'))"

definition sha_compress :: "sha_state \<Rightarrow> uint32 list \<Rightarrow> sha_state" where
  "sha_compress st blk = sha_add st
     (foldl sha_round st (zip sha_k (rev (sha_schedule 48 (rev blk)))))"

fun be_words :: "bytes \<Rightarrow> uint32 list" where
  "be_words (a # b # c # d # r) =
     (((of_char a * 256 + of_char b) * 256 + of_char c) * 256 + of_char d) # be_words r"
| "be_words _ = []"

fun be_bytes :: "nat \<Rightarrow> int \<Rightarrow> bytes" where
  "be_bytes 0 n = []"
| "be_bytes (Suc k) n = be_bytes k (n div 256) @ [char_of n]"

lemma length_be_bytes [simp]: "length (be_bytes k n) = k"
  by (induction k arbitrary: n) auto

definition sha_pad :: "bytes \<Rightarrow> bytes" where
  "sha_pad m = m @ CHR 0x80 # replicate ((119 - length m mod 64) mod 64) (CHR 0x00)
     @ be_bytes 8 (8 * int (length m))"

function sha_blocks :: "sha_state \<Rightarrow> uint32 list \<Rightarrow> sha_state" where
  "sha_blocks st ws = (if ws = [] then st else sha_blocks (sha_compress st (take 16 ws)) (drop 16 ws))"
  by pat_completeness auto
termination
  by (relation "measure (length \<circ> snd)") auto

declare sha_blocks.simps [simp del]

definition sha_words :: "sha_state \<Rightarrow> uint32 list" where
  "sha_words st = (case st of (a, b, c, d, e, f, g, h) \<Rightarrow> [a, b, c, d, e, f, g, h])"

definition sha256_bytes :: "bytes \<Rightarrow> bytes" where
  "sha256_bytes m =
     concat (map (be_bytes 4 \<circ> uint) (sha_words (sha_blocks sha_init (be_words (sha_pad m)))))"

definition sha256 :: "bytes \<Rightarrow> hash32" where
  "sha256 m = copy32 (sha256_bytes m)"

lemma length_sha256_bytes [simp]: "length (sha256_bytes m) = 32"
  by (simp add: sha256_bytes_def sha_words_def split: prod.splits)

lemma bytes32_sha256: "bytes32 (sha256 m) = sha256_bytes m"
  by (simp add: sha256_def)

section \<open>HMAC\<close>

definition xor_pad :: "int \<Rightarrow> bytes \<Rightarrow> bytes" where
  "xor_pad p k = map (\<lambda>c. char_of (of_char c XOR p)) k"

definition hmac_key :: "bytes \<Rightarrow> bytes" where
  "hmac_key key = (let k = (if length key > 64 then sha256_bytes key else key)
     in k @ replicate (64 - length k) (CHR 0x00))"

definition hmac_sha256 :: "bytes \<Rightarrow> bytes \<Rightarrow> bytes" where
  "hmac_sha256 key msg =
     sha256_bytes (xor_pad 0x5c (hmac_key key) @ sha256_bytes (xor_pad 0x36 (hmac_key key) @ msg))"

lemma length_hmac_sha256 [simp]: "length (hmac_sha256 key msg) = 32"
  by (simp add: hmac_sha256_def)

end
