(* ===== verification/Merkle.thy ===== *)
theory Merkle
  imports Sha256
begin

text \<open>
  \<^verbatim>\<open>internal/merkle/tree.go\<close>.  \<open>merkle_level\<close> is the body of the outer loop (one level
  of pairwise hashing, an odd last hash is carried up unchanged), \<open>merkle_loop\<close> the outer
  loop, \<open>merkle_root\<close> the function on the list of chunk hashes; the function of the source, which
  takes chunks, is \<open>ComputeRoot\<close> in theory \<open>Chunker\<close>.

  In \<^verbatim>\<open>append(hashes[i][:], hashes[i+1][:]...)\<close> the first slice has length and capacity
  32, so the append copies into a new array and \<^verbatim>\<open>hashes\<close> is not written: the byte string
  hashed is the concatenation.

  The lemmas relate the loop to the recursive tree in which the left subtree is a full binary
  tree over the largest power of two below the number of leaves, show that equally long lists with
  equal roots are equal unless SHA-256 collides on two of the strings hashed on the way.
\<close>

fun merkle_level :: "hash32 list \<Rightarrow> hash32 list" where
  "merkle_level [] = []"
| "merkle_level [h] = [h]"
| "merkle_level (a # b # r) = sha256 (bytes32 a @ bytes32 b) # merkle_level r"

lemma length_merkle_level [simp]: "length (merkle_level hs) = (length hs + 1) div 2"
  by (induction hs rule: merkle_level.induct) auto

function merkle_loop :: "hash32 list \<Rightarrow> hash32" where
  "merkle_loop hs = (if length hs > 1 then merkle_loop (merkle_level hs) else hs ! 0)"
  by pat_completeness auto
termination
  by (relation "measure length") auto

declare merkle_loop.simps [simp del]

definition merkle_root :: "hash32 list \<Rightarrow> hash32" where
  "merkle_root hs = (if hs = [] then zero32 else merkle_loop hs)"

section \<open>The tree the loop computes\<close>

lemma merkle_loop_single [simp]: "merkle_loop [h] = h"
  by (simp add: merkle_loop.simps)

lemma merkle_loop_pair [simp]: "merkle_loop [a, b] = sha256 (bytes32 a @ bytes32 b)"
  by (simp add: merkle_loop.simps)

lemma merkle_level_append:
  "even (length xs) \<Longrightarrow> merkle_level (xs @ ys) = merkle_level xs @ merkle_level ys"
  by (induction xs rule: merkle_level.induct) auto

text \<open>A node over a full left subtree of \<open>2 ^ k\<close> leaves and any right subtree not larger.\<close>

lemma merkle_loop_node:
  assumes "length xs = 2 ^ k" and "ys \<noteq> []" and "length ys \<le> 2 ^ k"
  shows "merkle_loop (xs @ ys) = sha256 (bytes32 (merkle_loop xs) @ bytes32 (merkle_loop ys))"
  using assms
proof (induction k arbitrary: xs ys)
  case 0
  then obtain x y where "xs = [x]" "ys = [y]"
    by (cases xs; cases ys) auto
  then show ?case by simp
next
  case (Suc k)
  have step: "merkle_loop (xs @ ys) = merkle_loop (merkle_level xs @ merkle_level ys)"
  proof -
    have "1 < length (xs @ ys)" using Suc.prems by (cases ys) auto
    then show ?thesis using Suc.prems by (subst merkle_loop.simps) (simp add: merkle_level_append)
  qed
  have "length (merkle_level xs) = 2 ^ k" using Suc.prems by simp
  moreover have "merkle_level ys \<noteq> []"
    using Suc.prems(2) by (cases ys rule: merkle_level.cases) auto
  moreover have "length (merkle_level ys) \<le> 2 ^ k" using Suc.prems(3) by simp
  ultimately have "merkle_loop (merkle_level xs @ merkle_level ys) =
    sha256 (bytes32 (merkle_loop (merkle_level xs)) @ bytes32 (merkle_loop (merkle_level ys)))"
    by (rule Suc.IH)
  moreover have "merkle_loop (merkle_level xs) = merkle_loop xs"
  proof -
    have "(1::nat) < 2 ^ Suc k" by (rule one_less_power) simp_all
    then show ?thesis using Suc.prems(1) by (subst (2) merkle_loop.simps) simp
  qed
  moreover have "merkle_loop (merkle_level ys) = merkle_loop ys"
  proof (cases "length ys > 1")
    case True
    then show ?thesis by (subst (2) merkle_loop.simps) simp
  next
    case False
    with Suc.prems(2) obtain y where "ys = [y]" by (cases ys) auto
    then show ?thesis by simp
  qed
  ultimately show ?case using step by simp
qed

fun split_point :: "nat \<Rightarrow> nat" where
  "split_point n = (if n \<le> 2 then 1 else 2 * split_point ((n + 1) div 2))"

declare split_point.simps [simp del]

lemma split_point_pow: "\<exists>k. split_point n = 2 ^ k"
proof (induction n rule: split_point.induct)
  case (1 n)
  show ?case
  proof (cases "n \<le> 2")
    case True
    then have "split_point n = 2 ^ 0" by (simp add: split_point.simps)
    then show ?thesis by blast
  next
    case False
    then obtain k where "split_point ((n + 1) div 2) = 2 ^ k" using 1 by blast
    with False have "split_point n = 2 ^ Suc k" by (simp add: split_point.simps [of n])
    then show ?thesis by blast
  qed
qed

lemma split_point_bounds: "2 \<le> n \<Longrightarrow> split_point n < n \<and> n \<le> 2 * split_point n"
proof (induction n rule: split_point.induct)
  case (1 n)
  show ?case
  proof (cases "n \<le> 2")
    case True
    with "1.prems" have "n = 2" by simp
    then show ?thesis by (simp add: split_point.simps [of 2])
  next
    case False
    then have "2 \<le> (n + 1) div 2" by simp
    with 1 False have "split_point ((n + 1) div 2) < (n + 1) div 2 \<and>
      (n + 1) div 2 \<le> 2 * split_point ((n + 1) div 2)" by simp
    with False show ?thesis by (simp add: split_point.simps [of n]) linarith
  qed
qed

function merkle_tree :: "hash32 list \<Rightarrow> hash32" where
  "merkle_tree hs = (if length hs \<le> 1 then hs ! 0 else
     sha256 (bytes32 (merkle_tree (take (split_point (length hs)) hs))
       @ bytes32 (merkle_tree (drop (split_point (length hs)) hs))))"
  by pat_completeness auto
termination
proof (relation "measure length", goal_cases)
  case 1
  show ?case by simp
next
  case (2 hs)
  then show ?case using split_point_bounds [of "length hs"] by simp
next
  case (3 hs)
  then have "0 < split_point (length hs)" "0 < length hs"
    using split_point_bounds [of "length hs"] by auto
  then show ?case by simp
qed

declare merkle_tree.simps [simp del]

lemma merkle_loop_tree: "hs \<noteq> [] \<Longrightarrow> merkle_loop hs = merkle_tree hs"
proof (induction hs rule: merkle_tree.induct)
  case (1 hs)
  show ?case
  proof (cases "length hs \<le> 1")
    case True
    with "1.prems" obtain h where "hs = [h]" by (cases hs) auto
    then show ?thesis by (simp add: merkle_tree.simps)
  next
    case False
    let ?k = "split_point (length hs)"
    have b: "?k < length hs" "length hs \<le> 2 * ?k"
      using split_point_bounds [of "length hs"] False by simp_all
    obtain e where e: "?k = 2 ^ e" using split_point_pow by blast
    have "merkle_loop hs = merkle_loop (take ?k hs @ drop ?k hs)" by simp
    also have "\<dots> = sha256 (bytes32 (merkle_loop (take ?k hs)) @ bytes32 (merkle_loop (drop ?k hs)))"
      using b e by (intro merkle_loop_node [where k = e]) auto
    also have "merkle_loop (take ?k hs) = merkle_tree (take ?k hs)"
      using False b e by (intro "1.IH"(1)) auto
    also have "merkle_loop (drop ?k hs) = merkle_tree (drop ?k hs)"
      using False b by (intro "1.IH"(2)) auto
    finally show ?thesis using False by (simp add: merkle_tree.simps [of hs])
  qed
qed

section \<open>Binding\<close>

text \<open>The byte strings hashed while a root is computed, and that SHA-256 has no collision among
  those of two computations.\<close>

fun level_inputs :: "hash32 list \<Rightarrow> bytes set" where
  "level_inputs (a # b # r) = insert (bytes32 a @ bytes32 b) (level_inputs r)"
| "level_inputs _ = {}"

function merkle_inputs :: "hash32 list \<Rightarrow> bytes set" where
  "merkle_inputs hs =
     (if length hs > 1 then level_inputs hs \<union> merkle_inputs (merkle_level hs) else {})"
  by pat_completeness auto
termination
  by (relation "measure length") auto

declare merkle_inputs.simps [simp del]

lemma merkle_level_binding:
  assumes "length xs = length ys" and "merkle_level xs = merkle_level ys"
    and "inj_on sha256 (level_inputs xs \<union> level_inputs ys)"
  shows "xs = ys"
  using assms
proof (induction xs arbitrary: ys rule: merkle_level.induct)
  case 1
  then show ?case by simp
next
  case (2 h)
  then obtain h' where "ys = [h']" by (cases ys) auto
  with 2 show ?case by simp
next
  case (3 a b r)
  then obtain a' b' r' where ys: "ys = a' # b' # r'" and len: "length r = length r'"
    by (cases ys rule: merkle_level.cases) auto
  have inj: "inj_on sha256 (level_inputs r \<union> level_inputs r')"
    by (rule inj_on_subset [OF "3.prems"(3)]) (auto simp: ys)
  have "bytes32 a @ bytes32 b = bytes32 a' @ bytes32 b'"
    by (rule inj_onD [OF "3.prems"(3)]) (use "3.prems"(2) ys in auto)
  then have "a = a'" "b = b'"
    by (simp_all add: bytes32_inject)
  moreover have "r = r'"
    using "3.IH" [OF len _ inj] "3.prems"(2) ys by simp
  ultimately show ?case using ys by simp
qed

lemma merkle_loop_binding:
  assumes "length xs = length ys" and "xs \<noteq> []" and "merkle_loop xs = merkle_loop ys"
    and "inj_on sha256 (merkle_inputs xs \<union> merkle_inputs ys)"
  shows "xs = ys"
  using assms
proof (induction xs arbitrary: ys rule: merkle_loop.induct)
  case (1 xs)
  show ?case
  proof (cases "length xs > 1")
    case False
    with "1.prems" obtain x y where "xs = [x]" "ys = [y]"
      by (cases xs; cases ys) auto
    with "1.prems" show ?thesis by simp
  next
    case True
    have ins: "merkle_inputs zs = level_inputs zs \<union> merkle_inputs (merkle_level zs)"
      if "length zs = length xs" for zs
      using True that by (subst merkle_inputs.simps) simp
    have eq: "merkle_loop (merkle_level xs) = merkle_loop (merkle_level ys)"
      using "1.prems" True by (simp add: merkle_loop.simps [of xs] merkle_loop.simps [of ys])
    have len: "length (merkle_level xs) = length (merkle_level ys)" using "1.prems"(1) by simp
    have ne: "merkle_level xs \<noteq> []" using True by (cases xs rule: merkle_level.cases) auto
    have inj: "inj_on sha256 (merkle_inputs (merkle_level xs) \<union> merkle_inputs (merkle_level ys))"
      by (rule inj_on_subset [OF "1.prems"(4)]) (use "1.prems"(1) in \<open>auto simp: ins\<close>)
    have lev: "merkle_level xs = merkle_level ys"
      by (rule "1.IH" [OF True len ne eq inj])
    have "inj_on sha256 (level_inputs xs \<union> level_inputs ys)"
      by (rule inj_on_subset [OF "1.prems"(4)]) (use "1.prems"(1) in \<open>auto simp: ins\<close>)
    with "1.prems"(1) lev show ?thesis by (rule merkle_level_binding)
  qed
qed

lemma merkle_root_Nil [simp]: "merkle_root [] = zero32"
  by (simp add: merkle_root_def)

lemma merkle_root_single [simp]: "merkle_root [h] = h"
  by (simp add: merkle_root_def)

lemma merkle_root_pair [simp]: "merkle_root [a, b] = sha256 (bytes32 a @ bytes32 b)"
  by (simp add: merkle_root_def)

section \<open>Properties\<close>

text \<open>C17. The level-by-level loop of \<^verbatim>\<open>ComputeRoot\<close> computes the recursive Merkle tree
  hash: the root of a list is the hash of the roots of its two parts, split at the largest power of
  two below its length; the root of one hash is that hash and the root of no hashes is zero.\<close>

theorem compute_root_tree: "merkle_root hs = (if hs = [] then zero32 else merkle_tree hs)"
  by (simp add: merkle_root_def merkle_loop_tree)

text \<open>C18. The root binds the chunk list: two lists of the same length with the same root are equal,
  unless SHA-256 collides on one of the node inputs hashed for them.\<close>

theorem compute_root_binding:
  assumes "length xs = length ys" and "merkle_root xs = merkle_root ys"
    and "inj_on sha256 (merkle_inputs xs \<union> merkle_inputs ys)"
  shows "xs = ys"
proof (cases "xs = []")
  case False
  moreover from this have "ys \<noteq> []" using assms(1) by auto
  ultimately show ?thesis
    using assms by (intro merkle_loop_binding) (simp_all add: merkle_root_def)
qed (use assms(1) in simp)

theorem compute_root_binding_witness:
  "length [zero32, zero32] = length [zero32, zero32] \<and>
   inj_on sha256 (merkle_inputs [zero32, zero32] \<union> merkle_inputs [zero32, zero32]) \<and>
   [zero32, zero32] = [zero32, zero32]"
proof -
  have "inj_on sha256 (merkle_inputs [zero32, zero32] \<union> merkle_inputs [zero32, zero32])"
    by (simp add: merkle_inputs.simps [of "[_, _]"] merkle_inputs.simps [of "[_]"])
  then show ?thesis using compute_root_binding [of "[zero32, zero32]" "[zero32, zero32]"] by simp
qed

end
