(* ===== verification/GoPath.thy ===== *)
theory GoPath
  imports GoCodec
begin

text \<open>
  The parts of the Go standard library's \<^verbatim>\<open>path/filepath\<close> the program uses, for a Unix
  system (separator \<^verbatim>\<open>/\<close>, so \<^verbatim>\<open>ToSlash\<close> and \<^verbatim>\<open>FromSlash\<close> are the identity):
  \<open>Clean\<close>, \<open>Join\<close>, \<open>IsAbs\<close>, \<open>Abs\<close>, \<open>Rel\<close>, \<open>Ext\<close>, \<open>Base\<close> and
  \<open>Dir\<close>.  \<open>Abs\<close> takes the result of \<^verbatim>\<open>os.Getwd\<close> (\<open>None\<close> when that fails).
  The lemmas describe cleaned absolute paths by their list of components, which is how the
  program's uses of \<open>Rel\<close> and \<open>Join\<close> are understood.
\<close>

abbreviation (input) slash :: char where "slash \<equiv> CHR ''/''"

fun join_path :: "gostring list \<Rightarrow> gostring" where
  "join_path [] = []"
| "join_path [w] = w"
| "join_path (w # ws) = w @ slash # join_path ws"

definition rooted :: "gostring \<Rightarrow> bool" where
  "rooted p \<longleftrightarrow> (\<exists>r. p = slash # r)"

lemma rooted_code [code]: "rooted p = (case p of [] \<Rightarrow> False | c # _ \<Rightarrow> c = slash)"
  by (auto simp: rooted_def split: list.splits)

definition clean_step :: "bool \<Rightarrow> gostring list \<Rightarrow> gostring \<Rightarrow> gostring list" where
  "clean_step root acc c =
     (if c = [] \<or> c = ''.'' then acc
      else if c = ''..'' then
        (if acc \<noteq> [] \<and> hd acc \<noteq> ''..'' then tl acc else if root then acc else ''..'' # acc)
      else c # acc)"

definition clean_comps :: "gostring \<Rightarrow> gostring list" where
  "clean_comps p = rev (foldl (clean_step (rooted p)) [] (SplitOn slash p))"

definition Clean :: "gostring \<Rightarrow> gostring" where
  "Clean p = (if rooted p then slash # join_path (clean_comps p)
     else if clean_comps p = [] then ''.'' else join_path (clean_comps p))"

definition Join :: "gostring \<Rightarrow> gostring \<Rightarrow> gostring" where
  "Join a b = (if a \<noteq> [] then Clean (a @ slash # b) else if b \<noteq> [] then Clean b else [])"

definition IsAbs :: "gostring \<Rightarrow> bool" where
  "IsAbs p = rooted p"

definition Abs :: "gostring option \<Rightarrow> gostring \<Rightarrow> gostring option" where
  "Abs wd p = (if IsAbs p then Some (Clean p) else map_option (\<lambda>w. Join w p) wd)"

definition split_comps :: "gostring \<Rightarrow> gostring list" where
  "split_comps p = (if p = [] then [] else SplitOn slash p)"

fun strip_common :: "gostring list \<Rightarrow> gostring list \<Rightarrow> gostring list \<times> gostring list" where
  "strip_common (b # bs) (t # ts) = (if b = t then strip_common bs ts else (b # bs, t # ts))"
| "strip_common bs ts = (bs, ts)"

definition Rel :: "gostring \<Rightarrow> gostring \<Rightarrow> gostring option" where
  "Rel basepath targpath =
     (let base = Clean basepath; targ = Clean targpath in
      if targ = base then Some ''.''
      else let base' = (if base = ''.'' then [] else base) in
        if rooted base' \<noteq> rooted targ then None
        else case strip_common
            (split_comps (if rooted base' then tl base' else base'))
            (split_comps (if rooted targ then tl targ else targ)) of
          (bs, ts) \<Rightarrow>
            if bs \<noteq> [] \<and> ts \<noteq> [] \<and> hd bs = ''..'' then None
            else Some (join_path (replicate (length bs) ''..'' @ ts)))"

definition last_elem :: "gostring \<Rightarrow> gostring" where
  "last_elem p = last (SplitOn slash p)"

definition Ext :: "gostring \<Rightarrow> gostring" where
  "Ext p = (let e = last_elem p in
     if CHR ''.'' \<in> set e then CHR ''.'' # last (SplitOn (CHR ''.'') e) else [])"

definition Base :: "gostring \<Rightarrow> gostring" where
  "Base p = (if p = [] then ''.'' else
     let q = rev (dropWhile (\<lambda>c. c = slash) (rev p)) in
     if q = [] then [slash] else last_elem q)"

definition Dir :: "gostring \<Rightarrow> gostring" where
  "Dir p = Clean (rev (dropWhile (\<lambda>c. c \<noteq> slash) (rev p)))"

section \<open>Components of clean paths\<close>

definition normal_comp :: "gostring \<Rightarrow> bool" where
  "normal_comp c \<longleftrightarrow> c \<noteq> [] \<and> c \<noteq> ''.'' \<and> c \<noteq> ''..'' \<and> slash \<notin> set c"

lemma clean_step_normal:
  "\<forall>c \<in> set acc. normal_comp c \<Longrightarrow> slash \<notin> set c \<Longrightarrow>
   \<forall>c \<in> set (clean_step True acc c). normal_comp c"
  by (cases acc) (auto simp: clean_step_def normal_comp_def)

lemma clean_fold_normal:
  assumes "\<forall>c \<in> set acc. normal_comp c" and "\<forall>w \<in> set ws. slash \<notin> set w"
  shows "\<forall>c \<in> set (foldl (clean_step True) acc ws). normal_comp c"
  using assms
proof (induction ws arbitrary: acc)
  case Nil
  then show ?case by simp
next
  case (Cons w ws)
  have "\<forall>c \<in> set (clean_step True acc w). normal_comp c"
    using Cons.prems by (intro clean_step_normal) auto
  with Cons show ?case by simp
qed

lemma clean_comps_normal:
  assumes "rooted p"
  shows "\<forall>c \<in> set (clean_comps p). normal_comp c"
proof -
  have "\<forall>c \<in> set (foldl (clean_step True) [] (SplitOn slash p)). normal_comp c"
    by (rule clean_fold_normal) (auto dest: SplitOn_pieces)
  with assms show ?thesis by (simp add: clean_comps_def)
qed

lemma clean_fold_id:
  "\<forall>c \<in> set ws. normal_comp c \<Longrightarrow> foldl (clean_step root) acc ws = rev ws @ acc"
  by (induction ws arbitrary: acc) (auto simp: clean_step_def normal_comp_def)

lemma SplitOn_join_path:
  assumes "ws \<noteq> []" and "\<forall>w \<in> set ws. slash \<notin> set w"
  shows "SplitOn slash (join_path ws) = ws"
  using assms
  by (induction ws rule: join_path.induct) (auto simp: SplitOn_no_sep SplitOn_append)

lemma split_comps_join_path:
  assumes "\<forall>w \<in> set ws. normal_comp w"
  shows "split_comps (join_path ws) = ws"
proof (cases "ws = []")
  case False
  then have "join_path ws \<noteq> []"
    using assms by (cases ws rule: join_path.cases) (auto simp: normal_comp_def)
  moreover have "SplitOn slash (join_path ws) = ws"
    using False assms by (intro SplitOn_join_path) (auto simp: normal_comp_def)
  ultimately show ?thesis by (simp add: split_comps_def)
qed (simp add: split_comps_def)

lemma rooted_slash [simp]: "rooted (slash # p)"
  by (simp add: rooted_def)

lemma clean_comps_rooted:
  assumes "\<forall>w \<in> set ws. normal_comp w"
  shows "clean_comps (slash # join_path ws) = ws"
proof (cases "ws = []")
  case True
  then show ?thesis by (simp add: clean_comps_def clean_step_def)
next
  case False
  then have "SplitOn slash (slash # join_path ws) = [] # ws"
    using assms by (simp add: SplitOn_join_path normal_comp_def)
  then show ?thesis using assms
    by (simp add: clean_comps_def clean_step_def clean_fold_id)
qed

text \<open>An absolute clean path is its components; a path is clean iff cleaning it changes nothing.\<close>

definition abs_path :: "gostring list \<Rightarrow> gostring" where
  "abs_path ws = slash # join_path ws"

lemma Clean_rooted: "rooted p \<Longrightarrow> Clean p = abs_path (clean_comps p)"
  by (simp add: Clean_def abs_path_def)

lemma clean_comps_abs_path [simp]:
  "\<forall>w \<in> set ws. normal_comp w \<Longrightarrow> clean_comps (abs_path ws) = ws"
  by (simp add: abs_path_def clean_comps_rooted)

lemma rooted_abs_path [simp]: "rooted (abs_path ws)"
  by (simp add: abs_path_def)

lemma Clean_abs_path [simp]:
  "\<forall>w \<in> set ws. normal_comp w \<Longrightarrow> Clean (abs_path ws) = abs_path ws"
  by (simp add: Clean_rooted)

lemma Clean_idem_rooted: "rooted p \<Longrightarrow> Clean (Clean p) = Clean p"
  using clean_comps_normal by (simp add: Clean_rooted)

lemma abs_path_inject:
  assumes "\<forall>w \<in> set us. normal_comp w" and "\<forall>w \<in> set vs. normal_comp w"
  shows "abs_path us = abs_path vs \<longleftrightarrow> us = vs"
  using assms clean_comps_abs_path by metis

lemma SplitOn_append_sep:
  "SplitOn sep (p @ sep # q) = SplitOn sep p @ SplitOn sep q"
proof (induction p)
  case Nil
  show ?case by simp
next
  case (Cons c p)
  obtain w ws where "SplitOn sep p = w # ws" by (cases "SplitOn sep p") auto
  with Cons show ?case by auto
qed

lemma Join_rooted:
  assumes "rooted b"
  shows "Join b p = abs_path (rev (foldl (clean_step True) (rev (clean_comps b)) (SplitOn slash p)))"
proof -
  have "b \<noteq> []" and r: "rooted (b @ slash # p)" using assms by (auto simp: rooted_def)
  then have "Join b p = abs_path (clean_comps (b @ slash # p))"
    by (simp add: Join_def Clean_rooted)
  then show ?thesis using assms r by (simp add: clean_comps_def SplitOn_append_sep)
qed

lemma strip_common_prefix: "strip_common bs (bs @ ts) = ([], ts)"
  by (induction bs) (cases ts, auto)

lemma strip_common_props:
  "strip_common bs ts = (bs', ts') \<Longrightarrow>
   \<exists>p. bs = p @ bs' \<and> ts = p @ ts' \<and> (bs' = [] \<or> ts' = [] \<or> hd bs' \<noteq> hd ts')"
proof (induction bs ts rule: strip_common.induct)
  case (1 b bs t ts)
  show ?case
  proof (cases "b = t")
    case True
    with 1 obtain p where "bs = p @ bs'" "ts = p @ ts'" "bs' = [] \<or> ts' = [] \<or> hd bs' \<noteq> hd ts'"
      by auto
    with True have "b # bs = (b # p) @ bs' \<and> t # ts = (b # p) @ ts' \<and>
      (bs' = [] \<or> ts' = [] \<or> hd bs' \<noteq> hd ts')" by simp
    then show ?thesis by blast
  next
    case False
    with 1 show ?thesis by auto
  qed
qed auto

lemma Rel_abs:
  assumes "\<forall>w \<in> set us. normal_comp w" and "\<forall>w \<in> set vs. normal_comp w"
  shows "Rel (abs_path us) (abs_path vs) =
    (if us = vs then Some ''.''
     else case strip_common us vs of (bs, ts) \<Rightarrow> Some (join_path (replicate (length bs) ''..'' @ ts)))"
proof (cases "us = vs")
  case True
  with assms show ?thesis by (simp add: Rel_def)
next
  case False
  obtain bs ts where s: "strip_common us vs = (bs, ts)" by (cases "strip_common us vs") auto
  have ne: "abs_path vs \<noteq> abs_path us" using False assms by (simp add: abs_path_inject)
  have dot: "abs_path us \<noteq> ''.''" by (simp add: abs_path_def)
  have tl: "tl (abs_path us) = join_path us" "tl (abs_path vs) = join_path vs"
    by (simp_all add: abs_path_def)
  obtain p where "us = p @ bs" using strip_common_props [OF s] by blast
  then have "bs = [] \<or> hd bs \<in> set us" by (cases bs) auto
  then have "bs = [] \<or> hd bs \<noteq> ''..''"
    using assms(1) by (auto simp: normal_comp_def)
  then show ?thesis
    using False ne dot s assms by (auto simp: Rel_def tl split_comps_join_path)
qed

text \<open>Joining what \<open>Rel\<close> returned for a target below the base gives the target back.\<close>

lemma Rel_below:
  assumes "\<forall>w \<in> set us. normal_comp w" and "\<forall>w \<in> set ts. normal_comp w" and "ts \<noteq> []"
  shows "Rel (abs_path us) (abs_path (us @ ts)) = Some (join_path ts)"
  using assms Rel_abs [of us "us @ ts"] by (auto simp: strip_common_prefix)

lemma Join_below:
  assumes "\<forall>w \<in> set us. normal_comp w" and "\<forall>w \<in> set ts. normal_comp w"
  shows "Join (abs_path us) (join_path ts) = abs_path (us @ ts)"
proof (cases "ts = []")
  case True
  with assms show ?thesis by (simp add: Join_rooted clean_step_def)
next
  case False
  with assms have "SplitOn slash (join_path ts) = ts"
    by (intro SplitOn_join_path) (auto simp: normal_comp_def)
  with assms show ?thesis by (simp add: Join_rooted clean_fold_id)
qed

end
