(* ===== verification/GoOs.thy ===== *)
theory GoOs
  imports GoPath
begin

text \<open>
  The file system as the program sees it through the Go package \<^verbatim>\<open>os\<close>.  A state \<open>fs\<close>
  maps a resolved path, a list of components below the root, to a directory or to a regular file
  with its content; \<open>wd\<close> is the working directory.  Path strings are resolved lexically
  (there are no symbolic links).  \<open>faults op p = Some n\<close> says that the environment makes
  operation \<open>op\<close> on \<open>p\<close> fail; for a write, the first \<open>n\<close> bytes still reach the file.
  So every error branch of the callers can be taken, including one that leaves a partial file.
  An operation returns the new state and its result; the state can change even on an error.
\<close>

datatype fnode = FDir | FFile bytes

datatype fsop = OpStat | OpOpen | OpRead | OpCreate | OpWrite | OpTruncate | OpRename | OpRemove
  | OpMkdir | OpClose

datatype os_error = ENOENT | EEXIST | EISDIR | ENOTDIR | EINVAL | EIO

type_synonym path = "gostring list"

record fs =
  ents :: "path \<Rightarrow> fnode option"
  wd :: path
  faults :: "fsop \<Rightarrow> path \<Rightarrow> nat option"

definition resolve :: "fs \<Rightarrow> gostring \<Rightarrow> path" where
  "resolve f p = (if rooted p then clean_comps p
     else rev (foldl (clean_step True) (rev (wd f)) (SplitOn slash p)))"

definition os_Getwd :: "fs \<Rightarrow> gostring option" where
  "os_Getwd f = Some (abs_path (wd f))"

definition faulty :: "fs \<Rightarrow> fsop \<Rightarrow> path \<Rightarrow> bool" where
  "faulty f op p \<longleftrightarrow> faults f op p \<noteq> None"

definition fs_set :: "fs \<Rightarrow> path \<Rightarrow> fnode option \<Rightarrow> fs" where
  "fs_set f p n = f\<lparr>ents := (ents f)(p := n)\<rparr>"

lemma fs_set_simps [simp]:
  "ents (fs_set f p n) = (ents f)(p := n)" "wd (fs_set f p n) = wd f"
  "faults (fs_set f p n) = faults f" "resolve (fs_set f p n) = resolve f"
  "faulty (fs_set f p n) = faulty f"
  by (auto simp: fs_set_def resolve_def faulty_def fun_eq_iff)

lemma fs_set_twice [simp]: "fs_set (fs_set f p m) p n = fs_set f p n"
  by (simp add: fs_set_def)

definition os_Stat :: "fs \<Rightarrow> gostring \<Rightarrow> (os_error, fnode) result" where
  "os_Stat f s = (let p = resolve f s in
     if faulty f OpStat p then Inl EIO
     else case ents f p of None \<Rightarrow> Inl ENOENT | Some n \<Rightarrow> Inr n)"

text \<open>An open file is the path it was opened at.\<close>

definition os_Open :: "fs \<Rightarrow> gostring \<Rightarrow> (os_error, path) result" where
  "os_Open f s = (let p = resolve f s in
     if faulty f OpOpen p then Inl EIO
     else case ents f p of None \<Rightarrow> Inl ENOENT | Some n \<Rightarrow> Inr p)"

definition io_ReadAll :: "fs \<Rightarrow> path \<Rightarrow> (os_error, bytes) result" where
  "io_ReadAll f p =
     (if faulty f OpRead p then Inl EIO
      else case ents f p of None \<Rightarrow> Inl ENOENT | Some FDir \<Rightarrow> Inl EISDIR | Some (FFile d) \<Rightarrow> Inr d)"

definition create_at :: "fs \<Rightarrow> path \<Rightarrow> fs \<times> (os_error, path) result" where
  "create_at f p =
     (if faulty f OpCreate p then (f, Inl EIO)
      else if ents f p = Some FDir then (f, Inl EISDIR)
      else if p = [] \<or> ents f (butlast p) \<noteq> Some FDir then (f, Inl ENOENT)
      else (fs_set f p (Some (FFile [])), Inr p))"

definition os_Create :: "fs \<Rightarrow> gostring \<Rightarrow> fs \<times> (os_error, path) result" where
  "os_Create f s = create_at f (resolve f s)"

definition os_WriteFile :: "fs \<Rightarrow> gostring \<Rightarrow> bytes \<Rightarrow> fs \<times> (os_error, unit) result" where
  "os_WriteFile f s d =
     (case create_at f (resolve f s) of
        (f1, Inl e) \<Rightarrow> (f1, Inl e)
      | (f1, Inr p) \<Rightarrow>
          (case faults f OpWrite p of
             Some n \<Rightarrow> (fs_set f1 p (Some (FFile (take n d))), Inl EIO)
           | None \<Rightarrow> (fs_set f1 p (Some (FFile d)), Inr ())))"

text \<open>The program renames regular files only.\<close>

definition os_Rename :: "fs \<Rightarrow> gostring \<Rightarrow> gostring \<Rightarrow> fs \<times> (os_error, unit) result" where
  "os_Rename f s t = (let p = resolve f s; q = resolve f t in
     if faulty f OpRename p then (f, Inl EIO)
     else case ents f p of
       None \<Rightarrow> (f, Inl ENOENT)
     | Some FDir \<Rightarrow> (f, Inl EISDIR)
     | Some (FFile d) \<Rightarrow>
         if ents f q = Some FDir then (f, Inl EEXIST)
         else if q = [] \<or> ents f (butlast q) \<noteq> Some FDir then (f, Inl ENOENT)
         else if p = q then (f, Inr ())
         else (fs_set (fs_set f p None) q (Some (FFile d)), Inr ()))"

definition os_Remove :: "fs \<Rightarrow> gostring \<Rightarrow> fs \<times> (os_error, unit) result" where
  "os_Remove f s = (let p = resolve f s in
     if faulty f OpRemove p then (f, Inl EIO)
     else case ents f p of
       None \<Rightarrow> (f, Inl ENOENT)
     | Some FDir \<Rightarrow> (f, Inl EEXIST)
     | Some (FFile d) \<Rightarrow> (fs_set f p None, Inr ()))"

fun mkdirs :: "fs \<Rightarrow> path list \<Rightarrow> fs \<times> (os_error, unit) result" where
  "mkdirs f [] = (f, Inr ())"
| "mkdirs f (p # ps) =
     (case ents f p of
        Some FDir \<Rightarrow> mkdirs f ps
      | Some (FFile d) \<Rightarrow> (f, Inl ENOTDIR)
      | None \<Rightarrow> if faulty f OpMkdir p then (f, Inl EIO)
                else mkdirs (fs_set f p (Some FDir)) ps)"

definition os_MkdirAll :: "fs \<Rightarrow> gostring \<Rightarrow> fs \<times> (os_error, unit) result" where
  "os_MkdirAll f s = (let p = resolve f s in
     if ents f p = Some FDir then (f, Inr ())
     else mkdirs f (map (\<lambda>n. take n p) [0..<Suc (length p)]))"

text \<open>\<^verbatim>\<open>File.Truncate\<close> and \<^verbatim>\<open>File.WriteAt\<close> on an open file; a hole reads as zero bytes.\<close>

definition resize :: "nat \<Rightarrow> bytes \<Rightarrow> bytes" where
  "resize n d = take n d @ replicate (n - length d) (CHR 0x00)"

definition write_at :: "bytes \<Rightarrow> nat \<Rightarrow> bytes \<Rightarrow> bytes" where
  "write_at d off new = resize off d @ new @ drop (off + length new) d"

definition file_Truncate :: "fs \<Rightarrow> path \<Rightarrow> int \<Rightarrow> fs \<times> (os_error, unit) result" where
  "file_Truncate f p sz =
     (if faulty f OpTruncate p then (f, Inl EIO)
      else if sz < 0 then (f, Inl EINVAL)
      else case ents f p of
        Some (FFile d) \<Rightarrow> (fs_set f p (Some (FFile (resize (nat sz) d))), Inr ())
      | _ \<Rightarrow> (f, Inl EINVAL))"

definition file_WriteAt :: "fs \<Rightarrow> path \<Rightarrow> bytes \<Rightarrow> int \<Rightarrow> fs \<times> (os_error, unit) result" where
  "file_WriteAt f p new off =
     (if off < 0 then (f, Inl EINVAL)
      else case ents f p of
        Some (FFile d) \<Rightarrow>
          (case faults f OpWrite p of
             Some n \<Rightarrow> (fs_set f p (Some (FFile (write_at d (nat off) (take n new)))), Inl EIO)
           | None \<Rightarrow> (fs_set f p (Some (FFile (write_at d (nat off) new))), Inr ()))
      | _ \<Rightarrow> (f, Inl EINVAL))"

definition file_Close :: "fs \<Rightarrow> path \<Rightarrow> (os_error, unit) result" where
  "file_Close f p = (if faulty f OpClose p then Inl EIO else Inr ())"

section \<open>Lexical resolution\<close>

definition normal_path :: "path \<Rightarrow> bool" where
  "normal_path p \<longleftrightarrow> (\<forall>c \<in> set p. normal_comp c)"

lemma normal_path_simps [simp]:
  "normal_path []" "normal_path (c # p) \<longleftrightarrow> normal_comp c \<and> normal_path p"
  "normal_path (p @ q) \<longleftrightarrow> normal_path p \<and> normal_path q"
  by (auto simp: normal_path_def)

text \<open>The accumulators that occur when a relative path is cleaned hold no empty or dot component.\<close>

definition solid :: "gostring list \<Rightarrow> bool" where
  "solid acc \<longleftrightarrow> (\<forall>w \<in> set acc. w \<noteq> [] \<and> w \<noteq> ''.'')"

lemma solid_clean_step: "solid acc \<Longrightarrow> solid (clean_step r acc c)"
  by (cases acc) (auto simp: solid_def clean_step_def)

lemma solid_fold: "solid acc \<Longrightarrow> solid (foldl (clean_step r) acc ws)"
  by (induction ws arbitrary: acc) (simp_all add: solid_clean_step)

lemma clean_abs_rel_step:
  assumes "solid acc"
  shows "foldl (clean_step True) A (rev (clean_step False acc c)) =
    clean_step True (foldl (clean_step True) A (rev acc)) c"
proof -
  consider "c = [] \<or> c = ''.''" | "c = ''..''" "acc \<noteq> []" "hd acc \<noteq> ''..''"
    | "c \<noteq> []" "c \<noteq> ''.''" "c \<noteq> ''..'' \<or> acc = [] \<or> hd acc = ''..''"
    by blast
  then show ?thesis
  proof cases
    case 1
    then show ?thesis by (auto simp: clean_step_def)
  next
    case 2
    then obtain w r where "acc = w # r" "w \<noteq> ''..''" by (cases acc) auto
    with 2 assms show ?thesis by (simp add: clean_step_def solid_def)
  next
    case 3
    then have "clean_step False acc c = c # acc" by (auto simp: clean_step_def)
    then show ?thesis by simp
  qed
qed

lemma clean_abs_rel:
  assumes "solid acc"
  shows "foldl (clean_step True) A (rev (foldl (clean_step False) acc ws)) =
    foldl (clean_step True) (foldl (clean_step True) A (rev acc)) ws"
  using assms
  by (induction ws arbitrary: acc) (simp_all add: clean_abs_rel_step solid_clean_step)

lemma clean_comps_pieces:
  assumes "w \<in> set (clean_comps p)"
  shows "slash \<notin> set w"
proof -
  have step: "set (clean_step r acc c) \<subseteq> insert c (set acc) \<union> {''..''}" for r acc c
    by (cases acc) (auto simp: clean_step_def)
  have "set (foldl (clean_step r) acc ws) \<subseteq> set acc \<union> set ws \<union> {''..''}" for r acc ws
  proof (induction ws arbitrary: acc)
    case (Cons c ws)
    show ?case using Cons [of "clean_step r acc c"] step [of r acc c] by auto
  qed auto
  then have "w \<in> set (SplitOn slash p) \<union> {''..''}"
    using assms by (force simp: clean_comps_def)
  then show ?thesis by (auto dest: SplitOn_pieces)
qed

lemma resolve_Clean: "resolve f (Clean p) = resolve f p"
proof (cases "rooted p")
  case True
  then show ?thesis using clean_comps_normal [OF True]
    by (simp add: resolve_def Clean_rooted)
next
  case False
  let ?cs = "clean_comps p"
  have fold: "foldl (clean_step True) A ?cs = foldl (clean_step True) A (SplitOn slash p)" for A
    using clean_abs_rel [of "[]" A "SplitOn slash p"] False
    by (simp add: clean_comps_def solid_def)
  show ?thesis
  proof (cases "?cs = []")
    case True
    with False fold have "Clean p = ''.''" by (simp add: Clean_def)
    then show ?thesis using False fold [of "rev (wd f)"] True
      by (simp add: resolve_def rooted_def clean_step_def)
  next
    case ne: False
    then have sp: "SplitOn slash (join_path ?cs) = ?cs"
      using clean_comps_pieces by (intro SplitOn_join_path) auto
    have "\<not> rooted (join_path ?cs)"
    proof
      assume "rooted (join_path ?cs)"
      then have "hd (SplitOn slash (join_path ?cs)) = []" by (auto simp: rooted_def)
      then have "[] \<in> set ?cs" using sp ne by (metis hd_in_set)
      moreover have "solid (rev ?cs)"
        unfolding clean_comps_def rev_rev_ident by (rule solid_fold) (simp add: solid_def)
      ultimately show False by (auto simp: solid_def)
    qed
    with False ne sp fold show ?thesis by (simp add: Clean_def resolve_def)
  qed
qed

lemma resolve_append:
  assumes "a \<noteq> []"
  shows "resolve f (a @ slash # b) =
    rev (foldl (clean_step True) (rev (resolve f a)) (SplitOn slash b))"
proof -
  have "rooted (a @ slash # b) \<longleftrightarrow> rooted a" using assms by (cases a) (auto simp: rooted_def)
  then show ?thesis by (simp add: resolve_def clean_comps_def SplitOn_append_sep)
qed

lemma resolve_Nil [simp]: "resolve f [] = wd f"
  by (simp add: resolve_def rooted_def clean_step_def)

lemma resolve_Join:
  assumes "\<not> rooted b" and "b \<noteq> []"
  shows "resolve f (Join a b) = rev (foldl (clean_step True) (rev (resolve f a)) (SplitOn slash b))"
proof (cases "a = []")
  case True
  with assms have "resolve f (Join a b) = resolve f b" by (simp add: Join_def resolve_Clean)
  also have "\<dots> = rev (foldl (clean_step True) (rev (wd f)) (SplitOn slash b))"
    using assms(1) by (simp add: resolve_def)
  finally show ?thesis using True by simp
next
  case False
  then show ?thesis by (simp add: Join_def resolve_Clean resolve_append)
qed

lemma join_path_normal:
  assumes "normal_path ts" and "ts \<noteq> []"
  shows "\<not> rooted (join_path ts)" and "join_path ts \<noteq> []" and "SplitOn slash (join_path ts) = ts"
proof -
  show sp: "SplitOn slash (join_path ts) = ts"
    using assms by (intro SplitOn_join_path) (auto simp: normal_path_def normal_comp_def)
  show "\<not> rooted (join_path ts)"
  proof
    assume "rooted (join_path ts)"
    then have "hd (SplitOn slash (join_path ts)) = []" by (auto simp: rooted_def)
    with sp assms show False by (cases ts) (auto simp: normal_comp_def)
  qed
  show "join_path ts \<noteq> []"
    using assms by (cases ts rule: join_path.cases) (auto simp: normal_comp_def)
qed

lemma resolve_Join_normal:
  assumes "normal_path ts" and "ts \<noteq> []"
  shows "resolve f (Join a (join_path ts)) = resolve f a @ ts"
  using resolve_Join [OF join_path_normal(1,2) [OF assms]] join_path_normal(3) [OF assms] assms
  by (simp add: clean_fold_id normal_path_def)

text \<open>The directory of a path.\<close>

lemma resolve_slash: "resolve f (q @ [slash]) = (if q = [] then [] else resolve f q)"
proof (cases "q = []")
  case True
  then show ?thesis by (simp add: resolve_def clean_comps_def clean_step_def)
next
  case False
  with resolve_append [of q f "[]"] show ?thesis by (simp add: clean_step_def)
qed

lemma resolve_Dir_slash:
  assumes "normal_comp w"
  shows "resolve f (Dir (q @ slash # w)) @ [w] = resolve f (q @ slash # w)"
proof -
  have ns: "slash \<notin> set w" and step: "clean_step r acc w = w # acc" for r acc
    using assms by (auto simp: normal_comp_def clean_step_def)
  have "dropWhile (\<lambda>c. c \<noteq> slash) (rev w @ slash # rev q) = slash # rev q"
    using ns by (intro dropWhile_append_stop) auto
  then have d: "resolve f (Dir (q @ slash # w)) = (if q = [] then [] else resolve f q)"
    by (simp add: Dir_def resolve_Clean resolve_slash)
  show ?thesis
  proof (cases "q = []")
    case True
    then have "resolve f (q @ slash # w) = [w]"
      using ns step by (simp add: resolve_def clean_comps_def SplitOn_no_sep) (simp add: clean_step_def)
    with d True show ?thesis by simp
  next
    case False
    with d ns step show ?thesis by (simp add: resolve_append SplitOn_no_sep)
  qed
qed

lemma resolve_Dir_plain:
  assumes "normal_comp w"
  shows "resolve f (Dir w) @ [w] = resolve f w"
proof -
  have ns: "slash \<notin> set w" and step: "clean_step r acc w = w # acc" for r acc
    using assms by (auto simp: normal_comp_def clean_step_def)
  have "dropWhile (\<lambda>c. c \<noteq> slash) (rev w) = []" using ns by (simp add: dropWhile_eq_Nil_conv) blast
  then have "Dir w = Clean []" unfolding Dir_def by (simp only: rev.simps)
  then have "resolve f (Dir w) = wd f" by (simp add: resolve_Clean)
  moreover have "\<not> rooted w" using ns by (auto simp: rooted_def)
  ultimately show ?thesis using ns step by (simp add: resolve_def SplitOn_no_sep)
qed

lemma join_path_snoc: "ws \<noteq> [] \<Longrightarrow> join_path (ws @ [w]) = join_path ws @ slash # w"
  by (induction ws rule: join_path.induct) (auto simp: neq_Nil_conv)

lemma resolve_Dir_Clean:
  assumes "clean_comps q = ws @ [w]" and "normal_comp w"
  shows "resolve f (Dir (Clean q)) @ [w] = resolve f q"
proof -
  have "\<exists>r. Clean q = r @ slash # w \<or> Clean q = w"
  proof (cases "ws = []")
    case True
    with assms(1) show ?thesis by (cases "rooted q") (auto simp: Clean_def)
  next
    case False
    with assms(1) show ?thesis by (auto simp: Clean_def join_path_snoc)
  qed
  then have "resolve f (Dir (Clean q)) @ [w] = resolve f (Clean q)"
    using resolve_Dir_slash [OF assms(2)] resolve_Dir_plain [OF assms(2)] by metis
  then show ?thesis by (simp add: resolve_Clean)
qed

lemma resolve_Dir_Join:
  assumes "normal_path cs" and "cs \<noteq> []"
  shows "resolve f (Dir (Join a (join_path cs))) = resolve f a @ butlast cs"
proof -
  note jp = join_path_normal [OF assms]
  let ?q = "if a = [] then join_path cs else a @ slash # join_path cs"
  have q: "Join a (join_path cs) = Clean ?q" using jp(2) by (simp add: Join_def)
  have fold: "foldl (clean_step r) acc cs = rev cs @ acc" for r acc
    using assms(1) by (intro clean_fold_id) (simp add: normal_path_def)
  have "\<exists>xs. clean_comps ?q = xs @ cs"
    using jp(3) fold by (auto simp: clean_comps_def SplitOn_append_sep)
  then obtain xs where "clean_comps ?q = (xs @ butlast cs) @ [last cs]" using assms(2) by auto
  moreover have "normal_comp (last cs)" using assms by (simp add: normal_path_def)
  ultimately have "resolve f (Dir (Clean ?q)) @ [last cs] = resolve f ?q" by (rule resolve_Dir_Clean)
  also have "\<dots> = resolve f a @ cs"
    using resolve_Join_normal [OF assms, of f a] unfolding q resolve_Clean .
  also have "\<dots> = (resolve f a @ butlast cs) @ [last cs]" using assms(2) by simp
  finally show ?thesis unfolding q by simp
qed

lemma resolve_normal:
  assumes "normal_path (wd f)"
  shows "normal_path (resolve f p)"
proof (cases "rooted p")
  case True
  then show ?thesis using clean_comps_normal by (simp add: resolve_def normal_path_def)
next
  case False
  have "\<forall>c \<in> set (foldl (clean_step True) (rev (wd f)) (SplitOn slash p)). normal_comp c"
    using assms by (intro clean_fold_normal) (auto simp: normal_path_def dest: SplitOn_pieces)
  with False show ?thesis by (simp add: resolve_def normal_path_def)
qed

lemma Abs_resolve:
  assumes "normal_path (wd f)"
  shows "Abs (os_Getwd f) p = Some (abs_path (resolve f p))"
proof (cases "rooted p")
  case True
  then show ?thesis by (simp add: Abs_def IsAbs_def Clean_rooted resolve_def)
next
  case False
  have "clean_comps (abs_path (wd f)) = wd f"
    using assms by (simp add: normal_path_def)
  with False show ?thesis
    by (simp add: Abs_def IsAbs_def os_Getwd_def Join_rooted resolve_def)
qed

section \<open>File contents\<close>

lemma length_resize [simp]: "length (resize n d) = n"
  by (auto simp: resize_def)

lemma write_at_within:
  "off + length new \<le> length d \<Longrightarrow> write_at d off new = take off d @ new @ drop (off + length new) d"
  by (simp add: write_at_def resize_def)

lemma write_at_append: "length d = off \<Longrightarrow> write_at d off new = d @ new"
  by (simp add: write_at_def resize_def)

end
