(* ===== verification/Chunker.thy ===== *)
theory Chunker
  imports Merkle GoOs "HOL-Library.Signed_Division" "HOL-Library.Monad_Syntax"
begin

text \<open>
  \<^verbatim>\<open>internal/chunker/chunker.go\<close>, and \<^verbatim>\<open>ComputeRoot\<close> of
  \<^verbatim>\<open>internal/merkle/tree.go\<close> on its chunks.  The content-defined splitter
  \<^verbatim>\<open>github.com/jotfs/fastcdc-go\<close> is a parameter, the record \<open>fastcdc\<close> of its two
  calls.  \<open>fastcdc_spec\<close> states what its documentation promises for the options the program
  passes: the parts come in order, cover the input exactly, are not empty, carry their offset and
  length, and the iterator ends with \<^verbatim>\<open>io.EOF\<close>.  \<open>ChunkFile_loop\<close> is the
  \<^verbatim>\<open>for\<close> loop; it has no bound of its own, so \<open>None\<close> stands for a run that does not
  return, and \<open>ChunkFile_spec\<close> shows that it returns.
\<close>

record Chunk =
  ch_Hash :: hash32
  ch_Offset :: uint64
  ch_Size :: uint32
  ch_Sequence :: uint32
  ch_Data :: bytes

record cdc_opts =
  AverageSize :: int
  MinSize :: int
  MaxSize :: int

record cdc_part =
  part_Offset :: int
  part_Length :: int
  part_Data :: bytes

datatype cdc_next = CdcPart cdc_part | CdcEOF | CdcErr gostring

text \<open>The reader handed to the splitter is what reading the open file yields.\<close>

type_synonym reader = "(os_error, bytes) result"

record 's fastcdc =
  cdc_NewChunker :: "reader \<Rightarrow> cdc_opts \<Rightarrow> (gostring, 's) result"
  cdc_Next :: "'s \<Rightarrow> cdc_next \<times> 's"

datatype chunk_error = ChunkOpen os_error | ChunkCreate gostring | ChunkFailed uint32 gostring

definition NewFastCDCChunker :: "int \<Rightarrow> cdc_opts" where
  "NewFastCDCChunker avgSize =
     \<lparr>AverageSize = avgSize, MinSize = avgSize sdiv 4, MaxSize = avgSize * 8\<rparr>"

partial_function (option) ChunkFile_loop ::
  "'s fastcdc \<Rightarrow> 's \<Rightarrow> Chunk list \<Rightarrow> uint32 \<Rightarrow> (chunk_error, Chunk list) result option" where
  "ChunkFile_loop C cdc chunks seq =
     (case cdc_Next C cdc of
        (CdcEOF, _) \<Rightarrow> Some (Inr chunks)
      | (CdcErr e, _) \<Rightarrow> Some (Inl (ChunkFailed seq e))
      | (CdcPart part, cdc') \<Rightarrow>
          ChunkFile_loop C cdc'
            (chunks @ [\<lparr>ch_Hash = sha256 (part_Data part),
                        ch_Offset = word_of_int (part_Offset part),
                        ch_Size = word_of_int (part_Length part),
                        ch_Sequence = seq,
                        ch_Data = part_Data part\<rparr>])
            (seq + 1))"

definition ChunkFile ::
  "'s fastcdc \<Rightarrow> cdc_opts \<Rightarrow> fs \<Rightarrow> gostring \<Rightarrow> (chunk_error, Chunk list) result option" where
  "ChunkFile C opts f path =
     (case os_Open f path of
        Inl e \<Rightarrow> Some (Inl (ChunkOpen e))
      | Inr file \<Rightarrow>
          (case cdc_NewChunker C (io_ReadAll f file) opts of
             Inl e \<Rightarrow> Some (Inl (ChunkCreate e))
           | Inr cdc \<Rightarrow> ChunkFile_loop C cdc [] 0))"

definition ComputeRoot :: "Chunk list \<Rightarrow> hash32" where
  "ComputeRoot chunks = merkle_root (map ch_Hash chunks)"

section \<open>What the splitter promises\<close>

inductive cdc_yields :: "'s fastcdc \<Rightarrow> 's \<Rightarrow> cdc_part list \<Rightarrow> bool" for C where
  yields_eof: "fst (cdc_Next C s) = CdcEOF \<Longrightarrow> cdc_yields C s []"
| yields_part: "cdc_Next C s = (CdcPart p, s') \<Longrightarrow> cdc_yields C s' ps \<Longrightarrow> cdc_yields C s (p # ps)"

fun parts_ok :: "nat \<Rightarrow> cdc_part list \<Rightarrow> bytes \<Rightarrow> bool" where
  "parts_ok off [] d \<longleftrightarrow> d = []"
| "parts_ok off (p # ps) d \<longleftrightarrow>
     part_Offset p = int off \<and> part_Length p = int (length (part_Data p)) \<and> part_Data p \<noteq> [] \<and>
     take (length (part_Data p)) d = part_Data p \<and>
     parts_ok (off + length (part_Data p)) ps (drop (length (part_Data p)) d)"

definition fastcdc_spec :: "'s fastcdc \<Rightarrow> bool" where
  "fastcdc_spec C \<longleftrightarrow> (\<forall>d. \<exists>s ps. cdc_NewChunker C (Inr d) (NewFastCDCChunker 8192) = Inr s \<and>
     cdc_yields C s ps \<and> parts_ok 0 ps d)"

text \<open>A splitter that cuts at a fixed size satisfies the specification; it is the instance the
  witnesses use.\<close>

definition fixed_Next :: "nat \<times> bytes \<Rightarrow> cdc_next \<times> (nat \<times> bytes)" where
  "fixed_Next s = (case s of (off, d) \<Rightarrow>
     if d = [] then (CdcEOF, s)
     else let p = take 8192 d in
       (CdcPart \<lparr>part_Offset = int off, part_Length = int (length p), part_Data = p\<rparr>,
        (off + length p, drop 8192 d)))"

definition fixed_cdc :: "(nat \<times> bytes) fastcdc" where
  "fixed_cdc = \<lparr>cdc_NewChunker = (\<lambda>r _. case r of Inl e \<Rightarrow> Inl ''read error'' | Inr d \<Rightarrow> Inr (0, d)),
     cdc_Next = fixed_Next\<rparr>"

lemma fixed_cdc_yields: "\<exists>ps. cdc_yields fixed_cdc (off, d) ps \<and> parts_ok off ps d"
proof (induction "length d" arbitrary: off d rule: less_induct)
  case less
  show ?case
  proof (cases "d = []")
    case True
    then have "cdc_yields fixed_cdc (off, d) []"
      by (intro yields_eof) (simp add: fixed_cdc_def fixed_Next_def)
    with True show ?thesis by (intro exI [of _ "[]"]) simp
  next
    case False
    let ?p = "\<lparr>part_Offset = int off, part_Length = int (length (take 8192 d)),
      part_Data = take 8192 d\<rparr>"
    have "length (drop 8192 d) < length d" using False by simp
    then obtain ps where ps: "cdc_yields fixed_cdc (off + length (take 8192 d), drop 8192 d) ps"
      "parts_ok (off + length (take 8192 d)) ps (drop 8192 d)"
      using less by blast
    have "cdc_Next fixed_cdc (off, d) = (CdcPart ?p, (off + length (take 8192 d), drop 8192 d))"
      using False by (simp add: fixed_cdc_def fixed_Next_def)
    then have "cdc_yields fixed_cdc (off, d) (?p # ps)"
      using ps(1) by (rule yields_part)
    moreover have "parts_ok off (?p # ps) d"
      using ps(2) False by (cases "length d \<le> 8192") (simp_all add: min_def)
    ultimately show ?thesis by blast
  qed
qed

lemma fixed_cdc_spec: "fastcdc_spec fixed_cdc"
  unfolding fastcdc_spec_def
proof
  fix d
  show "\<exists>s ps. cdc_NewChunker fixed_cdc (Inr d) (NewFastCDCChunker 8192) = Inr s \<and>
     cdc_yields fixed_cdc s ps \<and> parts_ok 0 ps d"
    using fixed_cdc_yields [of 0 d] by (auto simp: fixed_cdc_def)
qed

section \<open>What the loop returns\<close>

definition chunk_of :: "nat \<Rightarrow> cdc_part \<Rightarrow> Chunk" where
  "chunk_of i p = \<lparr>ch_Hash = sha256 (part_Data p), ch_Offset = word_of_int (part_Offset p),
     ch_Size = word_of_int (part_Length p), ch_Sequence = word_of_nat i, ch_Data = part_Data p\<rparr>"

lemma ChunkFile_loop_yields:
  assumes "cdc_yields C s ps"
  shows "ChunkFile_loop C s acc (word_of_nat n) =
    Some (Inr (acc @ map (\<lambda>(i, p). chunk_of i p) (enumerate n ps)))"
  using assms
proof (induction arbitrary: acc n rule: cdc_yields.induct)
  case (yields_eof s)
  then show ?case
    by (cases "cdc_Next C s") (simp add: ChunkFile_loop.simps [of C s])
next
  case (yields_part s p s' ps)
  have "word_of_nat n + 1 = (word_of_nat (Suc n) :: uint32)" by simp
  with yields_part show ?case
    by (simp add: ChunkFile_loop.simps [of C s] chunk_of_def del: of_nat_Suc)
qed

definition chunks_wf :: "Chunk list \<Rightarrow> bool" where
  "chunks_wf cs \<longleftrightarrow> (\<forall>i < length cs.
     ch_Hash (cs ! i) = sha256 (ch_Data (cs ! i)) \<and>
     ch_Data (cs ! i) \<noteq> [] \<and>
     ch_Sequence (cs ! i) = word_of_nat i \<and>
     ch_Size (cs ! i) = word_of_nat (length (ch_Data (cs ! i))) \<and>
     ch_Offset (cs ! i) = word_of_nat (length (concat (map ch_Data (take i cs)))))"

lemma parts_ok_concat: "parts_ok off ps d \<Longrightarrow> concat (map part_Data ps) = d"
proof (induction ps arbitrary: off d)
  case Nil
  then show ?case by simp
next
  case (Cons p ps)
  then have "concat (map part_Data ps) = drop (length (part_Data p)) d"
    and "take (length (part_Data p)) d = part_Data p" by auto
  then show ?case by (metis append_take_drop_id concat.simps(2) list.simps(9))
qed

lemma parts_ok_nth:
  assumes "parts_ok off ps d" and "i < length ps"
  shows "part_Offset (ps ! i) = int (off + length (concat (map part_Data (take i ps)))) \<and>
    part_Length (ps ! i) = int (length (part_Data (ps ! i))) \<and> part_Data (ps ! i) \<noteq> []"
  using assms
proof (induction ps arbitrary: off d i)
  case Nil
  then show ?case by simp
next
  case (Cons p ps)
  show ?case
  proof (cases i)
    case 0
    with Cons.prems show ?thesis by simp
  next
    case (Suc j)
    with Cons.prems Cons.IH [of "off + length (part_Data p)" "drop (length (part_Data p)) d" j]
    show ?thesis by simp
  qed
qed

lemma chunks_of_parts:
  defines "cs \<equiv> \<lambda>ps. map (\<lambda>(i, p). chunk_of i p) (enumerate 0 ps)"
  assumes "parts_ok 0 ps d"
  shows "map ch_Data (cs ps) = map part_Data ps" and "chunks_wf (cs ps)"
proof -
  show data: "map ch_Data (cs ps) = map part_Data ps"
    by (rule nth_equalityI) (simp_all add: cs_def nth_enumerate_eq chunk_of_def)
  show "chunks_wf (cs ps)"
    unfolding chunks_wf_def
  proof (intro allI impI)
    fix i assume i: "i < length (cs ps)"
    then have "i < length ps" by (simp add: cs_def)
    moreover have "cs ps ! i = chunk_of i (ps ! i)"
      using i by (simp add: cs_def nth_enumerate_eq)
    moreover have "map ch_Data (take i (cs ps)) = map part_Data (take i ps)"
      using data by (metis take_map)
    ultimately show "ch_Hash (cs ps ! i) = sha256 (ch_Data (cs ps ! i)) \<and>
      ch_Data (cs ps ! i) \<noteq> [] \<and> ch_Sequence (cs ps ! i) = word_of_nat i \<and>
      ch_Size (cs ps ! i) = word_of_nat (length (ch_Data (cs ps ! i))) \<and>
      ch_Offset (cs ps ! i) = word_of_nat (length (concat (map ch_Data (take i (cs ps)))))"
      using parts_ok_nth [OF assms(2), of i] by (simp add: chunk_of_def)
  qed
qed

text \<open>Every chunk returned carries the hash of its data, whatever the splitter does.\<close>

definition hashed :: "Chunk list \<Rightarrow> bool" where
  "hashed chunks \<longleftrightarrow> (\<forall>ch \<in> set chunks. sha256 (ch_Data ch) = ch_Hash ch)"

lemma ChunkFile_loop_hashes:
  assumes "ChunkFile_loop C s acc n = Some r"
  shows "hashed acc \<longrightarrow> (\<forall>chunks. r = Inr chunks \<longrightarrow> hashed chunks)"
proof (rule ChunkFile_loop.raw_induct [where P = "\<lambda>C s acc n r. hashed acc \<longrightarrow> (\<forall>chunks. r = Inr chunks \<longrightarrow> hashed chunks)",
      OF _ assms])
  fix loop C s acc n r
  assume IH: "\<And>C s acc n r. loop C s acc n = Some r \<Longrightarrow> hashed acc \<longrightarrow> (\<forall>chunks. r = Inr chunks \<longrightarrow> hashed chunks)"
    and r: "(case cdc_Next C s of (CdcPart part, cdc') \<Rightarrow> loop C cdc' (acc @ [\<lparr>ch_Hash = sha256 (part_Data part),
          ch_Offset = word_of_int (part_Offset part), ch_Size = word_of_int (part_Length part), ch_Sequence = n,
          ch_Data = part_Data part\<rparr>]) (n + 1)
      | (CdcEOF, _) \<Rightarrow> Some (Inr acc) | (CdcErr e, _) \<Rightarrow> Some (Inl (ChunkFailed n e))) = Some r"
  show "hashed acc \<longrightarrow> (\<forall>chunks. r = Inr chunks \<longrightarrow> hashed chunks)"
  proof (cases "cdc_Next C s")
    case (Pair x cdc')
    show ?thesis
    proof (cases x)
      case (CdcPart part)
      let ?acc = "acc @ [\<lparr>ch_Hash = sha256 (part_Data part), ch_Offset = word_of_int (part_Offset part),
          ch_Size = word_of_int (part_Length part), ch_Sequence = n, ch_Data = part_Data part\<rparr>]"
      have "loop C cdc' ?acc (n + 1) = Some r" using r Pair CdcPart by simp
      from IH [OF this] have "hashed ?acc \<longrightarrow> (\<forall>chunks. r = Inr chunks \<longrightarrow> hashed chunks)" .
      moreover have "hashed acc \<Longrightarrow> hashed ?acc" by (simp add: hashed_def)
      ultimately show ?thesis by blast
    qed (use r Pair in auto)
  qed
qed

lemma ChunkFile_hashes:
  assumes "ChunkFile C opts f path = Some (Inr chunks)"
  shows "\<forall>ch \<in> set chunks. sha256 (ch_Data ch) = ch_Hash ch"
proof -
  have "hashed []" by (simp add: hashed_def)
  then show ?thesis using assms ChunkFile_loop_hashes [of C _ "[]" 0]
    by (auto simp: ChunkFile_def hashed_def split: sum.splits)
qed

text \<open>For a readable regular file the chunks are its content, in order, each with its hash.\<close>

definition readable :: "fs \<Rightarrow> gostring \<Rightarrow> bytes \<Rightarrow> bool" where
  "readable f path d \<longleftrightarrow> ents f (resolve f path) = Some (FFile d) \<and>
     \<not> faulty f OpOpen (resolve f path) \<and> \<not> faulty f OpRead (resolve f path)"

lemma readable_Open: "readable f path d \<Longrightarrow> os_Open f path = Inr (resolve f path)"
  by (simp add: readable_def os_Open_def)

lemma readable_ReadAll: "readable f path d \<Longrightarrow> io_ReadAll f (resolve f path) = Inr d"
  by (simp add: readable_def io_ReadAll_def)

lemma ChunkFile_spec:
  assumes "fastcdc_spec C" and "readable f path d"
  obtains cs where "ChunkFile C (NewFastCDCChunker 8192) f path = Some (Inr cs)"
    and "concat (map ch_Data cs) = d" and "chunks_wf cs"
proof -
  obtain s ps where s: "cdc_NewChunker C (Inr d) (NewFastCDCChunker 8192) = Inr s"
    and ps: "cdc_yields C s ps" "parts_ok 0 ps d"
    using assms(1) unfolding fastcdc_spec_def by blast
  let ?cs = "map (\<lambda>(i, p). chunk_of i p) (enumerate 0 ps)"
  have "ChunkFile C (NewFastCDCChunker 8192) f path = Some (Inr ?cs)"
    using s ChunkFile_loop_yields [OF ps(1), of "[]" 0] assms(2)
    by (simp add: ChunkFile_def readable_Open readable_ReadAll)
  moreover have "concat (map ch_Data ?cs) = d"
    using chunks_of_parts(1) [OF ps(2)] parts_ok_concat [OF ps(2)] by simp
  ultimately show ?thesis using chunks_of_parts(2) [OF ps(2)] that by blast
qed

lemma chunks_wf_hash: "chunks_wf cs \<Longrightarrow> c \<in> set cs \<Longrightarrow> ch_Hash c = sha256 (ch_Data c)"
  by (auto simp: chunks_wf_def in_set_conv_nth)

lemma chunks_wf_slice:
  assumes "chunks_wf cs" and "c \<in> set cs" and "length (concat (map ch_Data cs)) < 2 ^ 64"
  shows "take (length (ch_Data c)) (drop (unat (ch_Offset c)) (concat (map ch_Data cs))) = ch_Data c"
proof -
  obtain i where i: "i < length cs" "c = cs ! i" using assms(2) by (auto simp: in_set_conv_nth)
  let ?pre = "concat (map ch_Data (take i cs))"
  have split: "concat (map ch_Data cs) = ?pre @ ch_Data c @ concat (map ch_Data (drop (Suc i) cs))"
    using i id_take_nth_drop [OF i(1)] by (metis concat.simps(2) concat_append list.simps(9) map_append)
  then have "length ?pre < 2 ^ 64" using assms(3) by simp
  then have "unat (ch_Offset c) = length ?pre" using assms(1) i by (simp add: chunks_wf_def unat_of_nat take_bit_nat_eq_self)
  with split show ?thesis by simp
qed

section \<open>Properties\<close>

text \<open>C22. What \<open>ChunkFile\<close> returns is well formed.  For a readable file it returns, with chunks that are numbered
  from 0, not empty, named by the hash of their data, with their size and with the offset at which the file has that data, and
  whose concatenation is the file.  Without the file the error of opening it comes back, and chunks that come back are
  named by their hashes even if the splitter breaks every promise.\<close>

theorem chunk_file_wf:
  assumes "fastcdc_spec C"
  shows "(readable f path d \<and> length d < 2 ^ 64 \<longrightarrow> (\<exists>cs. ChunkFile C (NewFastCDCChunker 8192) f path = Some (Inr cs) \<and>
      chunks_wf cs \<and> concat (map ch_Data cs) = d \<and>
      (\<forall>c \<in> set cs. take (length (ch_Data c)) (drop (unat (ch_Offset c)) d) = ch_Data c))) \<and>
    (os_Open f path = Inl e \<longrightarrow> ChunkFile C opts f path = Some (Inl (ChunkOpen e))) \<and>
    (ChunkFile C' opts f path = Some (Inr cs) \<longrightarrow> (\<forall>c \<in> set cs. sha256 (ch_Data c) = ch_Hash c))"
proof -
  have "\<exists>cs. ChunkFile C (NewFastCDCChunker 8192) f path = Some (Inr cs) \<and> chunks_wf cs \<and> concat (map ch_Data cs) = d \<and>
      (\<forall>c \<in> set cs. take (length (ch_Data c)) (drop (unat (ch_Offset c)) d) = ch_Data c)" if "readable f path d" "length d < 2 ^ 64"
  proof (rule ChunkFile_spec [OF assms that(1)])
    fix cs
    assume cs: "ChunkFile C (NewFastCDCChunker 8192) f path = Some (Inr cs)" "concat (map ch_Data cs) = d" "chunks_wf cs"
    have "take (length (ch_Data c)) (drop (unat (ch_Offset c)) d) = ch_Data c" if "c \<in> set cs" for c
      using chunks_wf_slice [OF cs(3) that] cs(2) \<open>length d < 2 ^ 64\<close> by simp
    with cs show ?thesis by blast
  qed
  moreover have "ChunkFile C opts f path = Some (Inl (ChunkOpen e))" if "os_Open f path = Inl e"
    using that by (simp add: ChunkFile_def)
  ultimately show ?thesis using ChunkFile_hashes by blast
qed

theorem chunk_file_wf_witness:
  "let f = \<lparr>ents = (\<lambda>p. if p = [''a''] then Some (FFile ''xyz'') else None), wd = [], faults = (\<lambda>_ _. None)\<rparr>
   in \<exists>cs. ChunkFile fixed_cdc (NewFastCDCChunker 8192) f ''/a'' = Some (Inr cs) \<and> chunks_wf cs \<and> concat (map ch_Data cs) = ''xyz''"
proof -
  let ?f = "\<lparr>ents = (\<lambda>p. if p = [''a''] then Some (FFile ''xyz'') else None), wd = [], faults = (\<lambda>_ _. None)\<rparr>"
  have "resolve ?f ''/a'' = [''a'']" by code_simp
  then have "readable ?f ''/a'' ''xyz''" by (simp add: readable_def faulty_def)
  moreover have "length ''xyz'' < 2 ^ 64" by simp
  ultimately show ?thesis
    using conjunct1 [OF chunk_file_wf [OF fixed_cdc_spec, of ?f "''/a''" "''xyz''"]] unfolding Let_def by blast
qed

end
