(* ===== verification/Cas.thy ===== *)
theory Cas
  imports Chunker
begin

text \<open>
  \<^verbatim>\<open>internal/store/cas.go\<close>: the content-addressed blob store over the file system.
  \<open>Put\<close> is the whole method, every file operation and every early return, with the deferred
  removal of the temporary file.  The invariant \<open>cas_inv\<close> says that an object file holds
  exactly the bytes its name is the hash of; it is kept by \<open>Put\<close> under any fault, partial
  writes included.  Locale \<open>blob_store\<close> is what the other components rely on; it is
  interpreted on \<open>Put\<close> and \<open>Get\<close>.
\<close>

record CASBlobStore =
  baseDir :: gostring

datatype cas_error = CasOs os_error | HashMismatch hash32 hash32

text \<open>\<^verbatim>\<open>filepath.Join\<close> with three elements, the second a non-empty literal.\<close>

definition Join3 :: "gostring \<Rightarrow> gostring \<Rightarrow> gostring \<Rightarrow> gostring" where
  "Join3 a b c = Join a (b @ slash # c)"

definition NewCASBlobStore :: "fs \<Rightarrow> gostring \<Rightarrow> fs \<times> (cas_error, CASBlobStore) result" where
  "NewCASBlobStore f base =
     (case os_MkdirAll f (Join base ''objects'') of
        (f1, Inl e) \<Rightarrow> (f1, Inl (CasOs e))
      | (f1, Inr _) \<Rightarrow>
          (case os_MkdirAll f1 (Join base ''tmp'') of
             (f2, Inl e) \<Rightarrow> (f2, Inl (CasOs e))
           | (f2, Inr _) \<Rightarrow> (f2, Inr \<lparr>baseDir = base\<rparr>)))"

definition Put :: "CASBlobStore \<Rightarrow> fs \<Rightarrow> hash32 \<Rightarrow> bytes \<Rightarrow> fs \<times> (cas_error, unit) result" where
  "Put s f hash data =
     (let name = hex_EncodeToString (bytes32 hash);
          path = Join3 (baseDir s) ''objects'' name;
          tmp = Join3 (baseDir s) ''tmp'' (name @ ''.tmp'')
      in case os_Stat f path of
           Inr _ \<Rightarrow> (f, Inr ())
         | Inl _ \<Rightarrow>
             (case os_WriteFile f tmp data of
                (f1, Inl e) \<Rightarrow> (f1, Inl (CasOs e))
              | (f1, Inr _) \<Rightarrow>
                  (let got = sha256 data in
                   if got \<noteq> hash then (fst (os_Remove f1 tmp), Inl (HashMismatch hash got))
                   else (case os_Rename f1 tmp path of
                           (f2, Inl e) \<Rightarrow> (fst (os_Remove f2 tmp), Inl (CasOs e))
                         | (f2, Inr _) \<Rightarrow> (fst (os_Remove f2 tmp), Inr ())))))"

definition GetFile :: "CASBlobStore \<Rightarrow> fs \<Rightarrow> hash32 \<Rightarrow> (os_error, path) result" where
  "GetFile s f hash =
     os_Open f (Join3 (baseDir s) ''objects'' (hex_EncodeToString (bytes32 hash)))"

definition Get :: "CASBlobStore \<Rightarrow> fs \<Rightarrow> hash32 \<Rightarrow> (os_error, bytes) result" where
  "Get s f hash = (case GetFile s f hash of Inl e \<Rightarrow> Inl e | Inr p \<Rightarrow> io_ReadAll f p)"

section \<open>Where objects live\<close>

text \<open>The path strings the methods build, and the places they resolve to.\<close>

abbreviation (input) obj_str :: "CASBlobStore \<Rightarrow> hash32 \<Rightarrow> gostring" where
  "obj_str s h \<equiv> Join3 (baseDir s) ''objects'' (hex_EncodeToString (bytes32 h))"

abbreviation (input) tmp_str :: "CASBlobStore \<Rightarrow> hash32 \<Rightarrow> gostring" where
  "tmp_str s h \<equiv> Join3 (baseDir s) ''tmp'' (hex_EncodeToString (bytes32 h) @ ''.tmp'')"

definition obj_path :: "CASBlobStore \<Rightarrow> fs \<Rightarrow> hash32 \<Rightarrow> path" where
  "obj_path s f h = resolve f (baseDir s) @ [''objects'', hex_EncodeToString (bytes32 h)]"

definition tmp_path :: "CASBlobStore \<Rightarrow> fs \<Rightarrow> hash32 \<Rightarrow> path" where
  "tmp_path s f h = resolve f (baseDir s) @ [''tmp'', hex_EncodeToString (bytes32 h) @ ''.tmp'']"

lemma hex_val_punct [simp]: "hex_val slash = None" "hex_val (CHR ''.'') = None"
  by (simp_all add: hex_val_def)

lemma hex_no_slash [simp]: "slash \<notin> set (hex_EncodeToString bs)"
  using hex_chars hex_val_punct(1) by blast

lemma hex_no_dot [simp]: "CHR ''.'' \<notin> set (hex_EncodeToString bs)"
  using hex_chars hex_val_punct(2) by blast

lemma hex32_nonempty [simp]: "hex_EncodeToString (bytes32 h) \<noteq> []"
  using length_hex [of "bytes32 h"] by (metis length_bytes32 length_0_conv mult_is_0 zero_neq_numeral)

lemma normal_hex [simp]: "normal_comp (hex_EncodeToString (bytes32 h))"
proof -
  have "CHR ''.'' \<notin> set (hex_EncodeToString (bytes32 h))" by simp
  then have "hex_EncodeToString (bytes32 h) \<noteq> ''.''" "hex_EncodeToString (bytes32 h) \<noteq> ''..''"
    by (metis list.set_intros(1))+
  then show ?thesis by (simp add: normal_comp_def)
qed

lemma normal_hex_tmp [simp]: "normal_comp (hex_EncodeToString (bytes32 h) @ ''.tmp'')"
  by (auto simp: normal_comp_def)

lemma normal_literals [simp]: "normal_comp ''objects''" "normal_comp ''tmp''"
  by (auto simp: normal_comp_def)

lemma resolve_Join3:
  assumes "normal_comp b" and "normal_comp c"
  shows "resolve f (Join3 a b c) = resolve f a @ [b, c]"
  using resolve_Join_normal [of "[b, c]" f a] assms by (simp add: Join3_def)

lemma resolve_obj [simp]:
  "resolve f (obj_str s h) = obj_path s f h"
  by (simp add: resolve_Join3 obj_path_def)

lemma resolve_tmp [simp]:
  "resolve f (tmp_str s h) = tmp_path s f h"
  by (simp add: resolve_Join3 tmp_path_def)

lemma obj_path_inject [simp]: "obj_path s f h = obj_path s f h' \<longleftrightarrow> h = h'"
  using hexc.enc_eq_iff by (auto simp: obj_path_def bytes32_inject)

lemma obj_tmp_distinct [simp]: "obj_path s f h \<noteq> tmp_path s f h'" "tmp_path s f h' \<noteq> obj_path s f h"
  by (auto simp: obj_path_def tmp_path_def)

lemma butlast_paths [simp]:
  "butlast (obj_path s f h) = resolve f (baseDir s) @ [''objects'']"
  "butlast (tmp_path s f h) = resolve f (baseDir s) @ [''tmp'']"
  "obj_path s f h \<noteq> []" "tmp_path s f h \<noteq> []"
  by (simp_all add: obj_path_def tmp_path_def butlast_append)

lemma path_dirs_distinct [simp]:
  "resolve f (baseDir s) @ [''objects''] \<noteq> tmp_path s f h"
  "resolve f (baseDir s) @ [''objects''] \<noteq> obj_path s f h"
  "resolve f (baseDir s) @ [''tmp''] \<noteq> tmp_path s f h"
  "resolve f (baseDir s) @ [''tmp''] \<noteq> obj_path s f h"
  by (simp_all add: obj_path_def tmp_path_def)

lemma paths_fs_set [simp]:
  "obj_path s (fs_set f p n) = obj_path s f" "tmp_path s (fs_set f p n) = tmp_path s f"
  by (simp_all add: obj_path_def tmp_path_def fun_eq_iff)

section \<open>The invariant\<close>

definition cas_dirs :: "CASBlobStore \<Rightarrow> fs \<Rightarrow> bool" where
  "cas_dirs s f \<longleftrightarrow> ents f (resolve f (baseDir s) @ [''objects'']) = Some FDir \<and>
     ents f (resolve f (baseDir s) @ [''tmp'']) = Some FDir"

definition cas_inv :: "CASBlobStore \<Rightarrow> fs \<Rightarrow> bool" where
  "cas_inv s f \<longleftrightarrow> (\<forall>h n. ents f (obj_path s f h) = Some n \<longrightarrow> (\<exists>d. n = FFile d \<and> sha256 d = h))"

definition stored :: "CASBlobStore \<Rightarrow> fs \<Rightarrow> hash32 \<Rightarrow> bytes option" where
  "stored s f h = (case ents f (obj_path s f h) of Some (FFile d) \<Rightarrow> Some d | _ \<Rightarrow> None)"

text \<open>\<open>Put\<close> in terms of its effect on the map of entries: it touches the temporary file of its
  own hash, and at most adds the object of its own hash with verified content.\<close>

definition put_effect :: "CASBlobStore \<Rightarrow> fs \<Rightarrow> hash32 \<Rightarrow> bytes \<Rightarrow> fs \<Rightarrow> bool" where
  "put_effect s f h d f' \<longleftrightarrow> wd f' = wd f \<and> faults f' = faults f \<and>
     (\<forall>p. p \<noteq> tmp_path s f h \<and> p \<noteq> obj_path s f h \<longrightarrow> ents f' p = ents f p) \<and>
     (ents f' (obj_path s f h) = ents f (obj_path s f h) \<or>
      sha256 d = h \<and> ents f' (obj_path s f h) = Some (FFile d))"

lemma resolve_cong: "wd f' = wd f \<Longrightarrow> resolve f' = resolve f"
  by (auto simp: resolve_def fun_eq_iff)

lemma put_effect_refl: "put_effect s f h d f"
  by (simp add: put_effect_def)

lemma os_Remove_tmp:
  "os_Remove f1 (tmp_str s h) = (f2, r) \<Longrightarrow>
   f2 = f1 \<or> f2 = fs_set f1 (tmp_path s f1 h) None"
  by (auto simp: os_Remove_def Let_def split: if_splits option.splits fnode.splits)

lemma put_effect_tmp:
  "put_effect s f h d f1 \<Longrightarrow> put_effect s f h d (fs_set f1 (tmp_path s f h) n)"
  by (simp add: put_effect_def)

lemma put_effect_Remove:
  assumes "put_effect s f h d f1"
  shows "put_effect s f h d
    (fst (os_Remove f1 (tmp_str s h)))"
proof -
  obtain f2 r where r: "os_Remove f1 (tmp_str s h) = (f2, r)"
    by (rule prod.exhaust)
  have "tmp_path s f1 h = tmp_path s f h"
    using assms resolve_cong [of f1 f] by (simp add: put_effect_def tmp_path_def)
  with os_Remove_tmp [OF r] assms put_effect_tmp show ?thesis by (auto simp: r)
qed

lemma put_effect_WriteFile:
  assumes "os_WriteFile f (tmp_str s h) d
    = (f1, r)"
  shows "put_effect s f h d f1" and "r = Inr () \<Longrightarrow> f1 = fs_set f (tmp_path s f h) (Some (FFile d))"
  using assms
  by (auto simp: os_WriteFile_def create_at_def fs_set_def put_effect_def tmp_path_def
      obj_path_def split: if_splits option.splits prod.splits sum.splits)

lemma put_effect_Rename:
  assumes "sha256 d = h"
    and "os_Rename (fs_set f (tmp_path s f h) (Some (FFile d)))
      (tmp_str s h)
      (obj_str s h) = (f2, r)"
  shows "put_effect s f h d f2" and "r = Inr () \<Longrightarrow> ents f2 (obj_path s f h) = Some (FFile d)"
  using assms
  by (auto simp: os_Rename_def put_effect_def Let_def split: if_splits option.splits)

lemma Put_effect: "put_effect s f h d (fst (Put s f h d))"
proof (cases "os_Stat f (obj_str s h)")
  case (Inr n)
  then show ?thesis by (simp add: Put_def put_effect_refl)
next
  case stat: (Inl e)
  obtain f1 r1 where w: "os_WriteFile f
      (tmp_str s h) d = (f1, r1)"
    by (rule prod.exhaust)
  note w' = put_effect_WriteFile [OF w]
  show ?thesis
  proof (cases r1)
    case (Inl e)
    then show ?thesis using stat w w'(1) by (simp add: Put_def)
  next
    case (Inr u)
    then have f1: "f1 = fs_set f (tmp_path s f h) (Some (FFile d))" using w'(2) by simp
    show ?thesis
    proof (cases "sha256 d = h")
      case False
      then show ?thesis using stat w Inr put_effect_Remove [OF w'(1)] by (simp add: Put_def)
    next
      case True
      obtain f2 r2 where rn: "os_Rename f1
          (tmp_str s h)
          (obj_str s h) = (f2, r2)"
        by (rule prod.exhaust)
      have "put_effect s f h d f2"
        using put_effect_Rename(1) [OF True] rn f1 by blast
      then have "put_effect s f h d (fst (os_Remove f2 (tmp_str s h)))"
        by (rule put_effect_Remove)
      then show ?thesis
        using stat w Inr True rn by (cases r2) (simp_all add: Put_def Let_def)
    qed
  qed
qed

section \<open>The contract\<close>

text \<open>
  What the rest of the program relies on: an operation keeps the invariant, a blob that is stored
  stays stored under the same hash, a successful \<open>put\<close> leaves its hash stored, a failed check
  of the hash stores nothing, and whatever can be read back hashes to the name it is read under.
\<close>

locale blob_store =
  fixes put :: "'s \<Rightarrow> hash32 \<Rightarrow> bytes \<Rightarrow> 's \<times> ('e, unit) result"
    and get :: "'s \<Rightarrow> hash32 \<Rightarrow> ('g, bytes) result"
    and content :: "'s \<Rightarrow> hash32 \<Rightarrow> bytes option"
    and inv :: "'s \<Rightarrow> bool"
  assumes put_inv: "inv s \<Longrightarrow> inv (fst (put s h d))"
    and content_hash: "inv s \<Longrightarrow> content s h = Some d \<Longrightarrow> sha256 d = h"
    and put_other: "h' \<noteq> h \<Longrightarrow> content (fst (put s h d)) h' = content s h'"
    and put_keeps: "inv s \<Longrightarrow> content s h \<noteq> None \<Longrightarrow> content (fst (put s h d)) h \<noteq> None"
    and put_stores: "inv s \<Longrightarrow> snd (put s h d) = Inr () \<Longrightarrow> content (fst (put s h d)) h \<noteq> None"
    and put_rejects: "sha256 d \<noteq> h \<Longrightarrow> content (fst (put s h d)) = content s"
    and get_content: "get s h = Inr d \<Longrightarrow> content s h = Some d"
begin

lemma put_mono: "inv s \<Longrightarrow> content s h' \<noteq> None \<Longrightarrow> content (fst (put s h d)) h' \<noteq> None"
  using put_other put_keeps by (cases "h' = h") auto

lemma get_hash: "inv s \<Longrightarrow> get s h = Inr d \<Longrightarrow> sha256 d = h"
  using get_content content_hash by blast

text \<open>A whole sequence of \<open>put\<close>s whose errors are ignored, as the indexing loop does it.\<close>

primrec put_all :: "'s \<Rightarrow> (hash32 \<times> bytes) list \<Rightarrow> 's" where
  "put_all s [] = s"
| "put_all s (x # xs) = put_all (fst (put s (fst x) (snd x))) xs"

lemma put_all_inv: "inv s \<Longrightarrow> inv (put_all s xs)"
  by (induction xs arbitrary: s) (auto intro: put_inv)

lemma put_all_mono: "inv s \<Longrightarrow> content s h \<noteq> None \<Longrightarrow> content (put_all s xs) h \<noteq> None"
proof (induction xs arbitrary: s)
  case (Cons x xs)
  have "inv (fst (put s (fst x) (snd x)))" "content (fst (put s (fst x) (snd x))) h \<noteq> None"
    using Cons.prems put_inv put_mono by blast+
  then show ?case using Cons.IH by simp
qed simp

text \<open>Two blobs stored under one hash are the same unless SHA-256 collides on them.\<close>

lemma content_unique:
  "inv s \<Longrightarrow> content s h = Some d \<Longrightarrow> sha256 d' = h \<Longrightarrow> inj_on sha256 {d, d'} \<Longrightarrow> d = d'"
  using content_hash by (metis inj_onD insertCI)

end

lemma effect_paths:
  assumes "put_effect s f h d f'"
  shows "obj_path s f' = obj_path s f" and "resolve f' = resolve f"
proof -
  show "resolve f' = resolve f" using assms resolve_cong [of f' f] by (simp add: put_effect_def)
  then show "obj_path s f' = obj_path s f" by (simp add: obj_path_def fun_eq_iff)
qed

lemma Put_paths [simp]:
  "obj_path s (fst (Put s f h d)) = obj_path s f" "resolve (fst (Put s f h d)) = resolve f"
  using effect_paths [OF Put_effect] by auto

lemma cas_inv_Put: "cas_inv s f \<Longrightarrow> cas_inv s (fst (Put s f h d))"
proof -
  assume inv: "cas_inv s f"
  have eff: "put_effect s f h d (fst (Put s f h d))" by (rule Put_effect)
  show ?thesis
    unfolding cas_inv_def Put_paths
  proof (intro allI impI)
    fix h' n
    assume n: "ents (fst (Put s f h d)) (obj_path s f h') = Some n"
    show "\<exists>da. n = FFile da \<and> sha256 da = h'"
    proof (cases "h' = h")
      case True
      then show ?thesis using eff n inv by (auto simp: put_effect_def cas_inv_def)
    next
      case False
      then have "ents (fst (Put s f h d)) (obj_path s f h') = ents f (obj_path s f h')"
        using eff by (simp add: put_effect_def)
      with n inv show ?thesis by (simp add: cas_inv_def)
    qed
  qed
qed

lemma Put_ok_entry:
  assumes "snd (Put s f h d) = Inr ()"
  shows "\<exists>n. ents (fst (Put s f h d)) (obj_path s f h) = Some n"
proof (cases "os_Stat f (obj_str s h)")
  case (Inr n)
  then have "ents f (obj_path s f h) = Some n"
    by (auto simp: os_Stat_def Let_def split: if_splits option.splits)
  with Inr show ?thesis by (simp add: Put_def)
next
  case stat: (Inl e)
  obtain f1 r1 where w: "os_WriteFile f (tmp_str s h) d = (f1, r1)" by (rule prod.exhaust)
  have r1: "r1 = Inr ()" using assms stat w by (cases r1) (simp_all add: Put_def)
  then have f1: "f1 = fs_set f (tmp_path s f h) (Some (FFile d))"
    using put_effect_WriteFile(2) [OF w] by simp
  have h: "sha256 d = h"
    using assms stat w r1 by (auto simp: Put_def Let_def split: if_splits)
  obtain f2 r2 where rn: "os_Rename f1 (tmp_str s h) (obj_str s h) = (f2, r2)"
    by (rule prod.exhaust)
  have "r2 = Inr ()" using assms stat w r1 h rn by (cases r2) (simp_all add: Put_def Let_def)
  then have obj: "ents f2 (obj_path s f h) = Some (FFile d)"
    and eff: "put_effect s f h d f2"
    using put_effect_Rename [OF h] rn f1 by blast+
  have "fst (Put s f h d) = fst (os_Remove f2 (tmp_str s h))"
    using stat w r1 h rn \<open>r2 = Inr ()\<close> by (simp add: Put_def Let_def)
  moreover have "ents (fst (os_Remove f2 (tmp_str s h))) (obj_path s f h) = Some (FFile d)"
    using os_Remove_tmp [of f2 s h] obj effect_paths [OF eff]
    by (cases "os_Remove f2 (tmp_str s h)") (auto simp: tmp_path_def obj_path_def)
  ultimately show ?thesis by simp
qed

lemma stored_iff: "cas_inv s f \<Longrightarrow> stored s f h \<noteq> None \<longleftrightarrow> ents f (obj_path s f h) \<noteq> None"
  by (auto simp: stored_def cas_inv_def split: option.splits fnode.splits)

lemma stored_Put_other: "h' \<noteq> h \<Longrightarrow> stored s (fst (Put s f h d)) h' = stored s f h'"
  using Put_effect [of s f h d] by (simp add: stored_def put_effect_def)

lemma stored_Put_rejects: "sha256 d \<noteq> h \<Longrightarrow> stored s (fst (Put s f h d)) = stored s f"
proof
  fix h'
  assume "sha256 d \<noteq> h"
  then show "stored s (fst (Put s f h d)) h' = stored s f h'"
    using Put_effect [of s f h d] stored_Put_other [of h' h s f d]
    by (cases "h' = h") (auto simp: stored_def put_effect_def)
qed

interpretation cas: blob_store "Put s" "Get s" "stored s" "cas_inv s" for s
proof (unfold_locales, goal_cases)
  case (1 f h d)
  then show ?case by (rule cas_inv_Put)
next
  case (2 f h d)
  then show ?case by (auto simp: stored_def cas_inv_def split: option.splits fnode.splits)
next
  case (3 h' h f d)
  then show ?case by (rule stored_Put_other)
next
  case (4 f h d)
  then show ?case using Put_effect [of s f h d]
    by (auto simp: stored_def put_effect_def split: option.splits fnode.splits)
next
  case (5 f h d)
  then have "ents (fst (Put s f h d)) (obj_path s (fst (Put s f h d)) h) \<noteq> None"
    using Put_ok_entry [of s f h d] by auto
  then show ?case using stored_iff cas_inv_Put 5(1) by blast
next
  case (6 d h f)
  then show ?case by (rule stored_Put_rejects)
next
  case (7 f h d)
  then show ?case
    by (auto simp: Get_def GetFile_def os_Open_def io_ReadAll_def stored_def Let_def
        split: sum.splits if_splits option.splits fnode.splits)
qed

section \<open>When nothing fails\<close>

definition no_faults :: "fs \<Rightarrow> bool" where
  "no_faults f \<longleftrightarrow> (\<forall>op p. faults f op p = None)"

lemma no_faults_faulty [simp]: "no_faults f \<Longrightarrow> \<not> faulty f op p"
  by (simp add: no_faults_def faulty_def)

lemma Put_faults [simp]: "faults (fst (Put s f h d)) = faults f" "wd (fst (Put s f h d)) = wd f"
  using Put_effect [of s f h d] by (simp_all add: put_effect_def)

lemma no_faults_Put [simp]: "no_faults (fst (Put s f h d)) \<longleftrightarrow> no_faults f"
  by (simp add: no_faults_def)

lemma cas_dirs_Put: "cas_dirs s f \<Longrightarrow> cas_dirs s (fst (Put s f h d))"
  using Put_effect [of s f h d] by (simp add: cas_dirs_def put_effect_def)

text \<open>The temporary name is free or a regular file; \<open>Put\<close> overwrites leftovers.\<close>

definition tmp_free :: "CASBlobStore \<Rightarrow> fs \<Rightarrow> bool" where
  "tmp_free s f \<longleftrightarrow> (\<forall>h. ents f (tmp_path s f h) \<noteq> Some FDir)"

lemma tmp_free_Put:
  assumes "tmp_free s f"
  shows "tmp_free s (fst (Put s f h d))"
proof -
  have "ents (fst (Put s f h d)) (tmp_path s f h) \<noteq> Some FDir"
    using assms
    by (auto simp: tmp_free_def Put_def Let_def os_WriteFile_def create_at_def os_Rename_def os_Remove_def
        split: sum.splits option.splits prod.splits if_splits fnode.splits)
  moreover have "ents (fst (Put s f h d)) (tmp_path s f h') = ents f (tmp_path s f h')" if "h' \<noteq> h" for h'
  proof -
    have "tmp_path s f h' \<noteq> tmp_path s f h"
      using that hexc.enc_eq_iff by (auto simp: tmp_path_def bytes32_inject)
    then show ?thesis using Put_effect [of s f h d] by (simp add: put_effect_def)
  qed
  moreover have "tmp_path s (fst (Put s f h d)) = tmp_path s f"
    using resolve_cong [OF Put_faults(2)] by (simp add: tmp_path_def fun_eq_iff)
  ultimately show ?thesis using assms by (metis tmp_free_def)
qed

lemma Put_succeeds:
  assumes "no_faults f" and "cas_dirs s f" and "tmp_free s f" and "cas_inv s f"
    and "sha256 d = h"
  shows "snd (Put s f h d) = Inr ()"
proof (cases "os_Stat f (obj_str s h)")
  case (Inr n)
  then show ?thesis by (simp add: Put_def)
next
  case stat: (Inl e)
  have none: "ents f (obj_path s f h) = None"
    using stat assms(1) by (auto simp: os_Stat_def Let_def split: if_splits option.splits)
  have w: "os_WriteFile f (tmp_str s h) d = (fs_set f (tmp_path s f h) (Some (FFile d)), Inr ())"
    using assms by (simp add: os_WriteFile_def create_at_def cas_dirs_def tmp_free_def
        no_faults_def fs_set_def)
  have "snd (os_Rename (fs_set f (tmp_path s f h) (Some (FFile d))) (tmp_str s h) (obj_str s h)) = Inr ()"
    using assms none by (simp add: os_Rename_def Let_def cas_dirs_def)
  then show ?thesis using stat w assms(5)
    by (auto simp: Put_def Let_def split: prod.splits sum.splits)
qed

lemma Get_stored: "no_faults f \<Longrightarrow> stored s f h = Some d \<Longrightarrow> Get s f h = Inr d"
  by (auto simp: Get_def GetFile_def os_Open_def io_ReadAll_def stored_def Let_def
      split: option.splits fnode.splits)

lemma GetFile_stored:
  "no_faults f \<Longrightarrow> stored s f h = Some d \<Longrightarrow> GetFile s f h = Inr (obj_path s f h)"
  by (auto simp: GetFile_def os_Open_def stored_def Let_def split: option.splits fnode.splits)

lemma GetFile_missing: "no_faults f \<Longrightarrow> cas_inv s f \<Longrightarrow> stored s f h = None \<Longrightarrow> GetFile s f h = Inl ENOENT"
  using stored_iff [of s f h] by (simp add: GetFile_def os_Open_def Let_def)

section \<open>Properties\<close>

text \<open>A history of \<open>Put\<close> calls whose errors the callers ignore; the environment chooses the I/O
  faults of every call anew.\<close>

fun put_run :: "CASBlobStore \<Rightarrow> fs \<Rightarrow> ((fsop \<Rightarrow> path \<Rightarrow> nat option) \<times> hash32 \<times> bytes) list \<Rightarrow> fs" where
  "put_run s f [] = f"
| "put_run s f ((flt, h, d) # r) = put_run s (fst (Put s (f\<lparr>faults := flt\<rparr>) h d)) r"

lemma faults_irrelevant [simp]:
  "obj_path s (f\<lparr>faults := flt\<rparr>) = obj_path s f" "tmp_path s (f\<lparr>faults := flt\<rparr>) = tmp_path s f"
  "cas_inv s (f\<lparr>faults := flt\<rparr>) \<longleftrightarrow> cas_inv s f" "stored s (f\<lparr>faults := flt\<rparr>) = stored s f"
  by (simp_all add: obj_path_def tmp_path_def cas_inv_def stored_def resolve_def fun_eq_iff)

lemma put_run_inv: "cas_inv s f \<Longrightarrow> cas_inv s (put_run s f xs)"
  by (induction s f xs rule: put_run.induct) (simp_all add: cas.put_inv)

lemma put_run_mono: "cas_inv s f \<Longrightarrow> stored s f h \<noteq> None \<Longrightarrow> stored s (put_run s f xs) h \<noteq> None"
proof (induction s f xs rule: put_run.induct)
  case (2 s f flt h' d r)
  have "cas_inv s (f\<lparr>faults := flt\<rparr>)" using "2.prems" by simp
  then show ?case using 2 cas.put_inv cas.put_mono [of s "f\<lparr>faults := flt\<rparr>"] by simp
qed simp

lemma Put_new:
  assumes "no_faults f" and "cas_dirs s f" and "tmp_free s f" and "cas_inv s f"
    and "sha256 d = h" and "stored s f h = None"
  shows "Get s (fst (Put s f h d)) h = Inr d"
proof -
  have "snd (Put s f h d) = Inr ()" using assms by (intro Put_succeeds)
  then have "\<exists>n. ents (fst (Put s f h d)) (obj_path s f h) = Some n" by (rule Put_ok_entry)
  moreover have "ents f (obj_path s f h) = None" using assms(4,6) stored_iff by blast
  ultimately have "ents (fst (Put s f h d)) (obj_path s f h) = Some (FFile d)"
    using Put_effect [of s f h d] by (auto simp: put_effect_def)
  then have "stored s (fst (Put s f h d)) h = Some d" by (simp add: stored_def)
  moreover have "no_faults (fst (Put s f h d))" using assms(1) by simp
  ultimately show ?thesis by (intro Get_stored)
qed

text \<open>A store with its two directories below \<^verbatim>\<open>/d\<close>, nothing in it.\<close>

definition empty_cas_fs :: fs where
  "empty_cas_fs = \<lparr>ents = (\<lambda>p. if p \<in> {[], [''d''], [''d'', ''objects''], [''d'', ''tmp'']} then Some FDir else None),
     wd = [], faults = (\<lambda>_ _. None)\<rparr>"

abbreviation (input) demo_store :: CASBlobStore where
  "demo_store \<equiv> \<lparr>baseDir = ''/d''\<rparr>"

lemma resolve_demo [simp]: "resolve f ''/d'' = [''d'']"
  by (simp add: resolve_def rooted_def clean_comps_def clean_step_def)

lemma empty_cas_fs_ok [simp]:
  "no_faults empty_cas_fs" "cas_dirs demo_store empty_cas_fs" "tmp_free demo_store empty_cas_fs"
  "cas_inv demo_store empty_cas_fs" "stored demo_store empty_cas_fs h = None"
  "empty_cas_fs\<lparr>faults := \<lambda>_ _. None\<rparr> = empty_cas_fs"
  by (auto simp: empty_cas_fs_def no_faults_def cas_dirs_def tmp_free_def cas_inv_def obj_path_def
      tmp_path_def stored_def)

text \<open>C7. Integrity of the content store: whatever \<open>Put\<close>s run one after the other, with whatever
  hashes, data and I/O faults, a later \<open>Get h\<close> that succeeds returns bytes whose SHA-256 is
  \<open>h\<close>, and no object stored before is lost.\<close>

theorem cas_integrity:
  assumes "cas_inv s f"
  shows "(Get s (put_run s f xs) h = Inr d \<longrightarrow> sha256 d = h) \<and>
    (stored s f h' \<noteq> None \<longrightarrow> stored s (put_run s f xs) h' \<noteq> None)"
  using put_run_inv [OF assms] cas.get_hash put_run_mono [OF assms] by blast

theorem cas_integrity_witness:
  "cas_inv demo_store empty_cas_fs \<and>
   Get demo_store (put_run demo_store empty_cas_fs [(\<lambda>_ _. None, sha256 ''ab'', ''ab'')]) (sha256 ''ab'') = Inr ''ab'' \<and>
   cas_inv demo_store (fst (Put demo_store empty_cas_fs (sha256 ''ab'') ''ab'')) \<and>
   stored demo_store (put_run demo_store (fst (Put demo_store empty_cas_fs (sha256 ''ab'') ''ab''))
     [(\<lambda>_ _. Some 1, zero32, ''x'')]) (sha256 ''ab'') \<noteq> None"
proof -
  let ?f = "fst (Put demo_store empty_cas_fs (sha256 ''ab'') ''ab'')"
  have get: "Get demo_store ?f (sha256 ''ab'') = Inr ''ab''" by (rule Put_new) simp_all
  have inv: "cas_inv demo_store ?f" by (rule cas_inv_Put) simp
  have "stored demo_store ?f (sha256 ''ab'') \<noteq> None" using cas.get_content [OF get] by simp
  then have "stored demo_store (put_run demo_store ?f [(\<lambda>_ _. Some 1, zero32, ''x'')]) (sha256 ''ab'') \<noteq> None"
    by (rule cas_integrity [OF inv, THEN conjunct2, rule_format])
  moreover have run: "put_run demo_store empty_cas_fs [(\<lambda>_ _. None, sha256 ''ab'', ''ab'')] = ?f"
    unfolding put_run.simps empty_cas_fs_ok(6) ..
  ultimately show ?thesis unfolding run using get inv empty_cas_fs_ok(4) by blast
qed

text \<open>\<open>Put\<close> on a healthy disk: data that matches its hash is stored and \<open>Get\<close> returns it
  (or the blob that was there under that hash); data that does not match is refused with the computed
  hash, its temporary file is gone, and every other file is as before.\<close>

theorem cas_put_behaviour:
  assumes "no_faults f" and "cas_dirs s f" and "tmp_free s f" and "cas_inv s f"
  shows "(sha256 d = h \<longrightarrow> snd (Put s f h d) = Inr () \<and>
      (\<exists>d'. Get s (fst (Put s f h d)) h = Inr d' \<and> (stored s f h = None \<longrightarrow> d' = d))) \<and>
    (sha256 d \<noteq> h \<and> stored s f h = None \<longrightarrow> snd (Put s f h d) = Inl (HashMismatch h (sha256 d)) \<and>
      ents (fst (Put s f h d)) = (ents f)(tmp_path s f h := None))"
proof (intro conjI impI; (elim conjE)?)
  assume h: "sha256 d = h"
  then show ok: "snd (Put s f h d) = Inr ()" using assms by (intro Put_succeeds)
  have "stored s (fst (Put s f h d)) h \<noteq> None" using assms(4) ok by (rule cas.put_stores)
  then obtain d' where "stored s (fst (Put s f h d)) h = Some d'" by blast
  then have "Get s (fst (Put s f h d)) h = Inr d'" using assms(1) by (intro Get_stored) simp_all
  with Put_new [OF assms h]
  show "\<exists>d'. Get s (fst (Put s f h d)) h = Inr d' \<and> (stored s f h = None \<longrightarrow> d' = d)" by auto
next
  assume h: "sha256 d \<noteq> h" "stored s f h = None"
  then have none: "ents f (obj_path s f h) = None" using assms(4) stored_iff by blast
  have w: "os_WriteFile f (tmp_str s h) d = (fs_set f (tmp_path s f h) (Some (FFile d)), Inr ())"
    using assms by (simp add: os_WriteFile_def create_at_def cas_dirs_def tmp_free_def
        no_faults_def fs_set_def)
  have "os_Stat f (obj_str s h) = Inl ENOENT" using none assms(1) by (simp add: os_Stat_def)
  with h w assms(1)
  show "snd (Put s f h d) = Inl (HashMismatch h (sha256 d))"
    and "ents (fst (Put s f h d)) = (ents f)(tmp_path s f h := None)"
    by (simp_all add: Put_def os_Remove_def Let_def)
qed

theorem cas_put_behaviour_witness:
  "no_faults empty_cas_fs \<and> cas_dirs demo_store empty_cas_fs \<and> tmp_free demo_store empty_cas_fs \<and>
   cas_inv demo_store empty_cas_fs \<and>
   snd (Put demo_store empty_cas_fs (sha256 ''ab'') ''ab'') = Inr () \<and>
   Get demo_store (fst (Put demo_store empty_cas_fs (sha256 ''ab'') ''ab'')) (sha256 ''ab'') = Inr ''ab''"
  using cas_put_behaviour [OF empty_cas_fs_ok(1-4), of "''ab''" "sha256 ''ab''"] by auto

end
