(* ===== verification/Auth.thy ===== *)
theory Auth
  imports Sha256 Json
begin

text \<open>
  \<^verbatim>\<open>internal/auth\<close>: the HMAC authentication of the HTTP data plane (\<^verbatim>\<open>hmac.go\<close>) and of
  the gRPC control plane (\<^verbatim>\<open>grpc_interceptor.go\<close>).  A request carries its method, its request
  URI and its headers; the clock is an argument (nanoseconds since 1970).  Time arithmetic keeps Go's
  widths: \<open>time_Unix\<close> wraps at 64 bits as the seconds field does, \<open>time_Sub\<close>
  saturates as \<^verbatim>\<open>Time.Sub\<close> does.  Both planes are interpretations of the locale
  \<open>signed_channel\<close>: what a signer promises a verifier.
\<close>

section \<open>Time\<close>

definition wrap64 :: "int \<Rightarrow> int" where
  "wrap64 x = (x + 2 ^ 63) mod 2 ^ 64 - 2 ^ 63"

definition sat64 :: "int \<Rightarrow> int" where
  "sat64 x = max (- (2 ^ 63)) (min (2 ^ 63 - 1) x)"

definition time_Unix :: "int \<Rightarrow> int" where
  "time_Unix sec = (wrap64 (sec + 62135596800) - 62135596800) * 1000000000"

definition time_Sub :: "int \<Rightarrow> int \<Rightarrow> int" where
  "time_Sub t u = sat64 (t - u)"

definition dur_Abs :: "int \<Rightarrow> int" where
  "dur_Abs d = (if 0 \<le> d then d else if d = - (2 ^ 63) then 2 ^ 63 - 1 else - d)"

definition now_Unix :: "int \<Rightarrow> int" where
  "now_Unix now = now div 1000000000"

definition MaxClockSkew :: int where
  "MaxClockSkew = 30 * 1000000000"

text \<open>Wall clocks between 1970 and 2262: nanoseconds that fit 63 bits.\<close>

definition clock_ok :: "int \<Rightarrow> bool" where
  "clock_ok now \<longleftrightarrow> 0 \<le> now \<and> now < 2 ^ 63"

definition skewed :: "int \<Rightarrow> int \<Rightarrow> bool" where
  "skewed now t \<longleftrightarrow> MaxClockSkew < dur_Abs (time_Sub now (time_Unix t))"

lemma wrap64_id: "- (2 ^ 63) \<le> x \<Longrightarrow> x < 2 ^ 63 \<Longrightarrow> wrap64 x = x"
  by (simp add: wrap64_def)

lemma wrap64_over: "2 ^ 63 \<le> x \<Longrightarrow> x < 2 ^ 64 \<Longrightarrow> wrap64 x = x - 2 ^ 64"
  using mod_add_self2 [of "x - 2 ^ 63" "2 ^ 64"] by (simp add: wrap64_def add.commute)

lemma time_Unix_small: "- (2 ^ 63) \<le> t \<Longrightarrow> t < 2 ^ 62 \<Longrightarrow> time_Unix t = t * 1000000000"
  by (simp add: time_Unix_def wrap64_id)

lemma time_Unix_big:
  assumes "2 ^ 62 \<le> t" and "t < 2 ^ 63"
  shows "2 ^ 91 \<le> time_Unix t \<or> time_Unix t \<le> - (2 ^ 91)"
proof (cases "t + 62135596800 < 2 ^ 63")
  case True
  with assms have "wrap64 (t + 62135596800) = t + 62135596800" by (intro wrap64_id) auto
  with assms show ?thesis by (simp add: time_Unix_def)
next
  case False
  with assms have "wrap64 (t + 62135596800) = t + 62135596800 - 2 ^ 64" by (intro wrap64_over) auto
  with assms show ?thesis by (simp add: time_Unix_def)
qed

text \<open>For a 64-bit timestamp the check rejects exactly what is more than 30 seconds away: the wrap
  and the saturation of the time arithmetic never hide a skew.\<close>

lemma skewed_iff:
  assumes "clock_ok now" and "- (2 ^ 63) \<le> t" and "t < 2 ^ 63"
  shows "skewed now t \<longleftrightarrow> 30000000000 < \<bar>now - t * 1000000000\<bar>"
proof (cases "t < 2 ^ 62")
  case True
  with assms have "time_Unix t = t * 1000000000" by (intro time_Unix_small)
  then show ?thesis
    by (auto simp: skewed_def MaxClockSkew_def time_Sub_def sat64_def dur_Abs_def)
next
  case False
  then have "2 ^ 91 \<le> time_Unix t \<or> time_Unix t \<le> - (2 ^ 91)"
    using assms(3) by (intro time_Unix_big) auto
  then have "skewed now t"
  proof
    assume "2 ^ 91 \<le> time_Unix t"
    then have "sat64 (now - time_Unix t) = - (2 ^ 63)"
      using assms(1) by (simp add: sat64_def clock_ok_def)
    then show ?thesis by (simp add: skewed_def MaxClockSkew_def time_Sub_def dur_Abs_def)
  next
    assume "time_Unix t \<le> - (2 ^ 91)"
    then have "sat64 (now - time_Unix t) = 2 ^ 63 - 1"
      using assms(1) by (simp add: sat64_def clock_ok_def)
    then show ?thesis by (simp add: skewed_def MaxClockSkew_def time_Sub_def dur_Abs_def)
  qed
  moreover have "30000000000 < \<bar>now - t * 1000000000\<bar>"
    using False assms(1) by (simp add: clock_ok_def)
  ultimately show ?thesis by simp
qed

section \<open>HTTP requests\<close>

text \<open>\<^verbatim>\<open>textproto.CanonicalMIMEHeaderKey\<close>: upper case at the start and after a hyphen, lower
  case elsewhere; a key with a byte that no header name has is left alone.\<close>

definition upper :: "char \<Rightarrow> char" where
  "upper c = (let n = byte_val c in if 97 \<le> n \<and> n \<le> 122 then char_of (n - 32) else c)"

definition lower :: "char \<Rightarrow> char" where
  "lower c = (let n = byte_val c in if 65 \<le> n \<and> n \<le> 90 then char_of (n + 32) else c)"

definition token_char :: "char \<Rightarrow> bool" where
  "token_char c \<longleftrightarrow> (let n = byte_val c in 97 \<le> n \<and> n \<le> 122 \<or> 65 \<le> n \<and> n \<le> 90 \<or> 48 \<le> n \<and> n \<le> 57
     \<or> c \<in> set ''!#$%&*+-.^_`|~'' \<or> n = 39)"

fun canon_chars :: "bool \<Rightarrow> gostring \<Rightarrow> gostring" where
  "canon_chars up [] = []"
| "canon_chars up (c # cs) = (if up then upper c else lower c) # canon_chars (c = CHR ''-'') cs"

definition CanonicalMIMEHeaderKey :: "gostring \<Rightarrow> gostring" where
  "CanonicalMIMEHeaderKey k = (if list_all token_char k then canon_chars True k else k)"

type_synonym header = "gostring \<Rightarrow> gostring list"

definition header_Set :: "header \<Rightarrow> gostring \<Rightarrow> gostring \<Rightarrow> header" where
  "header_Set h k v = h(CanonicalMIMEHeaderKey k := [v])"

definition header_Get :: "header \<Rightarrow> gostring \<Rightarrow> gostring" where
  "header_Get h k = (case h (CanonicalMIMEHeaderKey k) of [] \<Rightarrow> [] | v # _ \<Rightarrow> v)"

record request =
  rq_Method :: gostring
  rq_URI :: gostring
  rq_Header :: header

lemma auth_header_keys:
  "CanonicalMIMEHeaderKey ''Authorization'' = ''Authorization''"
  "CanonicalMIMEHeaderKey ''X-NuSync-Timestamp'' = ''X-Nusync-Timestamp''"
  "CanonicalMIMEHeaderKey ''X-NuSync-NodeID'' = ''X-Nusync-Nodeid''"
  by (simp_all add: CanonicalMIMEHeaderKey_def token_char_def upper_def lower_def char_eval)

record hmacAuth =
  ha_secret :: bytes
  ha_nodeID :: gostring

definition NewAuth :: "bytes \<Rightarrow> gostring \<Rightarrow> hmacAuth" where
  "NewAuth secret nodeID = \<lparr>ha_secret = secret, ha_nodeID = nodeID\<rparr>"

text \<open>The text that is signed: three lines, the timestamp last.\<close>

definition sign_text :: "gostring \<Rightarrow> gostring \<Rightarrow> gostring \<Rightarrow> gostring" where
  "sign_text meth uri ts = meth @ CHR 0x0A # uri @ CHR 0x0A # ts"

definition SignHTTP :: "hmacAuth \<Rightarrow> int \<Rightarrow> request \<Rightarrow> request" where
  "SignHTTP a now req =
     (let ts = FormatInt (now_Unix now);
          text = sign_text (rq_Method req) (rq_URI req) ts;
          sig = b64_EncodeToString (hmac_sha256 (ha_secret a) text);
          h = header_Set (rq_Header req) ''Authorization'' (''HMAC '' @ sig);
          h = header_Set h ''X-NuSync-Timestamp'' ts;
          h = header_Set h ''X-NuSync-NodeID'' (ha_nodeID a)
      in req\<lparr>rq_Header := h\<rparr>)"

datatype auth_error = AuthMissing | AuthBadSignature | AuthBadTimestamp | AuthExpired | AuthMismatch

definition VerifyHTTP :: "hmacAuth \<Rightarrow> int \<Rightarrow> request \<Rightarrow> (auth_error, unit) result" where
  "VerifyHTTP a now req =
     (let auth = header_Get (rq_Header req) ''Authorization'' in
      if \<not> HasPrefix auth ''HMAC '' then Inl AuthMissing
      else (case b64_DecodeString (TrimPrefix auth ''HMAC '') of
          None \<Rightarrow> Inl AuthBadSignature
        | Some sig \<Rightarrow>
            (let ts = header_Get (rq_Header req) ''X-NuSync-Timestamp'' in
             case ParseInt ts of
               None \<Rightarrow> Inl AuthBadTimestamp
             | Some t \<Rightarrow>
                 if skewed now t then Inl AuthExpired
                 else if hmac_sha256 (ha_secret a) (sign_text (rq_Method req) (rq_URI req) ts) \<noteq> sig
                 then Inl AuthMismatch
                 else Inr ())))"

section \<open>gRPC interceptors\<close>

text \<open>Request metadata, in the order it was appended; keys are lower case on the wire.\<close>

type_synonym metadata = "(gostring \<times> gostring) list"

definition md_Get :: "metadata \<Rightarrow> gostring \<Rightarrow> gostring list" where
  "md_Get md k = map snd (filter (\<lambda>kv. fst kv = map lower k) md)"

text \<open>What the client interceptor appends to the outgoing context before it calls the invoker.\<close>

definition UnaryClientInterceptor ::
  "bytes \<Rightarrow> gostring \<Rightarrow> int \<Rightarrow> gostring \<Rightarrow> (metadata \<Rightarrow> 'a) \<Rightarrow> metadata \<Rightarrow> 'a" where
  "UnaryClientInterceptor secret nodeID now meth invoker md =
     (let ts = FormatInt (now_Unix now);
          sig = b64_EncodeToString (hmac_sha256 secret (sign_text ''GRPC'' meth ts))
      in invoker (md @ [(''authorization'', ''HMAC '' @ sig),
           (''x-nusync-timestamp'', ts), (''x-nusync-nodeid'', nodeID)]))"

text \<open>\<^verbatim>\<open>fmt.Sscanf(s, "HMAC %s", &sig)\<close>, whose error the code ignores: the literal must match,
  then at least one space that is no newline (or the end), then the longest run without white space;
  an invalid byte is read as U+FFFD.  On a mismatch \<open>sig\<close> stays empty.\<close>

definition space_unit :: "bytes \<Rightarrow> bool" where
  "space_unit u \<longleftrightarrow> (case u of
     [c] \<Rightarrow> (let n = byte_val c in 9 \<le> n \<and> n \<le> 13 \<or> n = 32)
   | [a, b] \<Rightarrow> byte_val a = 0xC2 \<and> (byte_val b = 0x85 \<or> byte_val b = 0xA0)
   | [a, b, c] \<Rightarrow> (let x = byte_val a; y = byte_val b; z = byte_val c in
       x = 0xE1 \<and> y = 0x9A \<and> z = 0x80
       \<or> x = 0xE2 \<and> y = 0x80 \<and> (0x80 \<le> z \<and> z \<le> 0x8A \<or> z = 0xA8 \<or> z = 0xA9 \<or> z = 0xAF)
       \<or> x = 0xE2 \<and> y = 0x81 \<and> z = 0x9F
       \<or> x = 0xE3 \<and> y = 0x80 \<and> z = 0x80)
   | _ \<Rightarrow> False)"

definition blank_unit :: "bytes \<Rightarrow> bool" where
  "blank_unit u \<longleftrightarrow> space_unit u \<and> u \<noteq> [CHR 0x0A]"

definition rune_bytes :: "bytes \<Rightarrow> bytes" where
  "rune_bytes u = (if valid_unit u then u else map char_of [0xEF, 0xBF, 0xBD :: nat])"

definition Sscanf_HMAC :: "gostring \<Rightarrow> bytes" where
  "Sscanf_HMAC s =
     (if \<not> HasPrefix s ''HMAC'' then []
      else let us = utf8_units (drop 4 s) in
        case us of
          [] \<Rightarrow> []
        | u # _ \<Rightarrow> if \<not> blank_unit u then []
            else concat (map rune_bytes (takeWhile (\<lambda>u. \<not> space_unit u) (dropWhile blank_unit us))))"

datatype grpc_code = Unauthenticated | PermissionDenied | Unimplemented | Internal | Unavailable

definition UnaryServerInterceptor ::
  "bytes \<Rightarrow> int \<Rightarrow> gostring \<Rightarrow> metadata option \<Rightarrow> (metadata \<Rightarrow> 'a) \<Rightarrow> (grpc_code, 'a) result" where
  "UnaryServerInterceptor secret now fullMethod incoming handler =
     (case incoming of
        None \<Rightarrow> Inl Unauthenticated
      | Some md \<Rightarrow>
          (case (md_Get md ''authorization'', md_Get md ''x-nusync-timestamp'') of
             (auth # _, ts # _) \<Rightarrow>
               (case ParseInt ts of
                  None \<Rightarrow> Inl Unauthenticated
                | Some t \<Rightarrow>
                    if skewed now t then Inl Unauthenticated
                    else (case b64_DecodeString (Sscanf_HMAC auth) of
                        None \<Rightarrow> Inl PermissionDenied
                      | Some sig \<Rightarrow>
                          if hmac_sha256 secret (sign_text ''GRPC'' fullMethod ts) \<noteq> sig
                          then Inl PermissionDenied
                          else Inr (handler md)))
           | _ \<Rightarrow> Inl Unauthenticated))"

lemma now_Unix_bounds:
  assumes "clock_ok now"
  shows "now_Unix now * 1000000000 \<le> now" "now < now_Unix now * 1000000000 + 1000000000"
    "- (2 ^ 63) \<le> now_Unix now" "now_Unix now < 2 ^ 63"
proof -
  show b: "now_Unix now * 1000000000 \<le> now" "now < now_Unix now * 1000000000 + 1000000000"
    using div_mult_mod_eq [of now 1000000000] pos_mod_bound [of 1000000000 now]
      pos_mod_sign [of 1000000000 now] unfolding now_Unix_def by linarith+
  with assms show "- (2 ^ 63) \<le> now_Unix now" "now_Unix now < 2 ^ 63" by (auto simp: clock_ok_def)
qed

text \<open>The signed second is accepted up to 30 s before and 29 s after the signing instant, and refused
  more than 31 s before or 30 s after it.\<close>

lemma not_skewed_window:
  assumes "clock_ok now" and "clock_ok now'"
    and "now - 30000000000 \<le> now'" and "now' \<le> now + 29000000000"
  shows "\<not> skewed now' (now_Unix now)"
  using now_Unix_bounds [OF assms(1)] assms(3,4)
  by (simp add: skewed_iff [OF assms(2)] abs_le_iff)

lemma skewed_outside:
  assumes "clock_ok now" and "clock_ok now'" and "now' < now - 31000000000 \<or> now + 30000000000 < now'"
  shows "skewed now' (now_Unix now)"
  using now_Unix_bounds [OF assms(1)] assms(3)
  by (auto simp: skewed_iff [OF assms(2)])

section \<open>What a signer promises a verifier\<close>

text \<open>A signature made at time \<open>now\<close> is accepted at every time from which the signed
  second is not skewed.\<close>

locale signed_channel =
  fixes sign :: "int \<Rightarrow> 'r \<Rightarrow> 'r"
    and accepts :: "int \<Rightarrow> 'r \<Rightarrow> bool"
  assumes sign_accepted: "clock_ok now \<Longrightarrow> \<not> skewed now' (now_Unix now) \<Longrightarrow> accepts now' (sign now r)"
begin

lemma accepted_window:
  assumes "clock_ok now" and "clock_ok now'"
    and "now - 30000000000 \<le> now'" and "now' \<le> now + 29000000000"
  shows "accepts now' (sign now r)"
  using assms by (intro sign_accepted not_skewed_window)

lemma accepted_at_once: "clock_ok now \<Longrightarrow> accepts now (sign now r)"
  by (rule accepted_window) auto

end

lemma now_Unix_parse: "clock_ok now \<Longrightarrow> ParseInt (FormatInt (now_Unix now)) = Some (now_Unix now)"
  using now_Unix_bounds by simp

subsection \<open>HTTP\<close>

lemma header_Get_Set:
  "header_Get (header_Set h k v) k' =
     (if CanonicalMIMEHeaderKey k' = CanonicalMIMEHeaderKey k then v else header_Get h k')"
  by (simp add: header_Get_def header_Set_def)

lemma SignHTTP_fields:
  "rq_Method (SignHTTP a now req) = rq_Method req"
  "rq_URI (SignHTTP a now req) = rq_URI req"
  "header_Get (rq_Header (SignHTTP a now req)) ''X-NuSync-Timestamp'' = FormatInt (now_Unix now)"
  "header_Get (rq_Header (SignHTTP a now req)) ''X-NuSync-NodeID'' = ha_nodeID a"
  "header_Get (rq_Header (SignHTTP a now req)) ''Authorization'' =
     ''HMAC '' @ b64_EncodeToString
       (hmac_sha256 (ha_secret a) (sign_text (rq_Method req) (rq_URI req) (FormatInt (now_Unix now))))"
  by (simp_all add: SignHTTP_def Let_def header_Get_Set auth_header_keys)

lemma Verify_Sign_iff:
  assumes "ha_secret b = ha_secret a" and "clock_ok now"
  shows "VerifyHTTP b now' (SignHTTP a now req) =
    (if skewed now' (now_Unix now) then Inl AuthExpired else Inr ())"
  using now_Unix_parse [OF assms(2)] TrimPrefix_append [of "''HMAC ''"] HasPrefix_append [of "''HMAC ''"]
  by (simp add: VerifyHTTP_def Let_def SignHTTP_fields assms(1) del: append_Cons append_Nil)

interpretation http: signed_channel "SignHTTP (NewAuth secret nodeID)"
  "\<lambda>now req. VerifyHTTP (NewAuth secret nodeID') now req = Inr ()" for secret nodeID nodeID'
  by unfold_locales (simp add: Verify_Sign_iff NewAuth_def)

text \<open>What an accepted request guarantees: a signature header with the MAC of this method, this URI
  and a timestamp within 30 seconds of the verifier's clock.\<close>

lemma VerifyHTTP_ok:
  assumes "VerifyHTTP a now req = Inr ()"
  obtains sigText t where
    "header_Get (rq_Header req) ''Authorization'' = ''HMAC '' @ sigText"
    and "ParseInt (header_Get (rq_Header req) ''X-NuSync-Timestamp'') = Some t"
    and "\<not> skewed now t"
    and "b64_DecodeString sigText = Some (hmac_sha256 (ha_secret a)
           (sign_text (rq_Method req) (rq_URI req) (header_Get (rq_Header req) ''X-NuSync-Timestamp'')))"
proof -
  let ?auth = "header_Get (rq_Header req) ''Authorization''"
  have *: "HasPrefix ?auth ''HMAC ''"
    using assms by (auto simp: VerifyHTTP_def Let_def split: if_splits)
  then have "?auth = ''HMAC '' @ TrimPrefix ?auth ''HMAC ''"
    by (rule HasPrefix_split)
  with assms * that [of "TrimPrefix ?auth ''HMAC ''"] show ?thesis
    by (auto simp: VerifyHTTP_def Let_def split: if_splits option.splits)
qed

text \<open>A timestamp that parses has no line break, so the three lines of the signed text can be told
  apart whatever the URI holds.\<close>

lemma ParseInt_no_LF: "ParseInt s = Some t \<Longrightarrow> CHR 0x0A \<notin> set s"
  using ParseInt_chars [of s t "CHR 0x0A"] by (auto simp: digit_val_def)

lemma sign_text_inject:
  assumes "sign_text m u ts = sign_text m' u' ts'"
    and "CHR 0x0A \<notin> set m" and "CHR 0x0A \<notin> set m'"
    and "CHR 0x0A \<notin> set ts" and "CHR 0x0A \<notin> set ts'"
  shows "m = m' \<and> u = u' \<and> ts = ts'"
proof -
  have 1: "m = m'" "u @ CHR 0x0A # ts = u' @ CHR 0x0A # ts'"
    using append_sep_inject [OF assms(2,3)] assms(1) by (auto simp: sign_text_def)
  have "rev ts @ CHR 0x0A # rev u = rev ts' @ CHR 0x0A # rev u'"
    using arg_cong [OF 1(2), of rev] by simp
  then have "rev ts = rev ts' \<and> rev u = rev u'"
    using assms(4,5) by (intro append_sep_inject) auto
  with 1 show ?thesis by simp
qed

subsection \<open>gRPC\<close>

lemma utf8_units_ascii:
  "\<forall>c \<in> set s. byte_val c < 128 \<Longrightarrow> utf8_units s = map (\<lambda>c. [c]) s"
  by (induction s) (simp_all add: utf8_units.simps [of "[]"] utf8_units.simps [of "_ # _"] unit_len_def)

lemma rune_bytes_ascii:
  "\<forall>c \<in> set s. 43 \<le> byte_val c \<and> byte_val c < 123 \<Longrightarrow> concat (map (rune_bytes \<circ> (\<lambda>c. [c])) s) = s"
  by (induction s) (auto simp: rune_bytes_def valid_unit_def)

lemma Sscanf_HMAC_b64: "Sscanf_HMAC (''HMAC '' @ b64_EncodeToString bs) = b64_EncodeToString bs"
proof -
  let ?s = "b64_EncodeToString bs"
  have r: "\<forall>c \<in> set ?s. 43 \<le> byte_val c \<and> byte_val c < 123" by (rule b64_encode_range)
  then have ns: "\<forall>c \<in> set ?s. \<not> space_unit [c]" by (auto simp: space_unit_def Let_def)
  have units: "utf8_units (CHR '' '' # ?s) = [CHR '' ''] # map (\<lambda>c. [c]) ?s"
    using r by (subst utf8_units_ascii) auto
  have blank: "blank_unit [CHR '' '']" by (simp add: blank_unit_def space_unit_def)
  have drop: "dropWhile blank_unit (map (\<lambda>c. [c]) ?s) = map (\<lambda>c. [c]) ?s"
    using ns by (cases ?s) (auto simp: blank_unit_def)
  have tok: "takeWhile (\<lambda>u. \<not> space_unit u) (map (\<lambda>c. [c]) ?s) = map (\<lambda>c. [c]) ?s"
    using ns by (simp add: takeWhile_eq_all_conv)
  have "concat (map rune_bytes (map (\<lambda>c. [c]) ?s)) = ?s"
    using r by (simp add: rune_bytes_ascii)
  then show ?thesis
    by (simp add: Sscanf_HMAC_def HasPrefix_def units blank drop tok
        del: map_map takeWhile_eq_all_conv)
qed

lemma Server_Client:
  assumes "clock_ok now"
    and "md_Get md ''authorization'' = []" and "md_Get md ''x-nusync-timestamp'' = []"
  shows "UnaryServerInterceptor secret now' meth
    (Some (UnaryClientInterceptor secret nodeID now meth (\<lambda>m. m) md)) handler =
    (if skewed now' (now_Unix now) then Inl Unauthenticated
     else Inr (handler (UnaryClientInterceptor secret nodeID now meth (\<lambda>m. m) md)))"
proof -
  let ?ts = "FormatInt (now_Unix now)"
  let ?auth = "''HMAC '' @ b64_EncodeToString (hmac_sha256 secret (sign_text ''GRPC'' meth ?ts))"
  let ?md = "UnaryClientInterceptor secret nodeID now meth (\<lambda>m. m) md"
  have lower: "map lower ''authorization'' = ''authorization''"
    "map lower ''x-nusync-timestamp'' = ''x-nusync-timestamp''"
    by (simp_all add: lower_def)
  have "md_Get ?md ''authorization'' = [?auth]" "md_Get ?md ''x-nusync-timestamp'' = [?ts]"
    using assms(2,3) unfolding md_Get_def lower UnaryClientInterceptor_def Let_def by simp_all
  with assms(1) show ?thesis
    by (simp add: UnaryServerInterceptor_def now_Unix_parse Sscanf_HMAC_b64 del: append_Cons append_Nil)
qed

interpretation grpc: signed_channel
  "\<lambda>now (meth, md). (meth, UnaryClientInterceptor secret nodeID now meth (\<lambda>m. m) [])"
  "\<lambda>now (meth, md). is_ok (UnaryServerInterceptor secret now meth (Some md) (\<lambda>_. ()))"
  for secret nodeID
  by unfold_locales (auto simp: Server_Client md_Get_def split: prod.splits)

lemma UnaryServerInterceptor_ok:
  assumes "UnaryServerInterceptor secret now meth incoming handler = Inr x"
  obtains md auth ts t where "incoming = Some md" and "x = handler md"
    and "md_Get md ''authorization'' \<noteq> []" and "hd (md_Get md ''authorization'') = auth"
    and "md_Get md ''x-nusync-timestamp'' \<noteq> []" and "hd (md_Get md ''x-nusync-timestamp'') = ts"
    and "ParseInt ts = Some t" and "\<not> skewed now t"
    and "b64_DecodeString (Sscanf_HMAC auth) = Some (hmac_sha256 secret (sign_text ''GRPC'' meth ts))"
  using assms
  by (auto simp: UnaryServerInterceptor_def split: option.splits list.splits if_splits)

section \<open>Properties\<close>

text \<open>C15. Signing and verifying HTTP requests agree on the time window: a node that shares the secret
  accepts a signed request up to 30 s before and 29 s after the signer's clock, and refuses it as
  expired more than 31 s before or 30 s after, whatever the request is.\<close>

theorem http_sign_verify:
  assumes "clock_ok now" and "clock_ok now'"
  shows "(now - 30000000000 \<le> now' \<and> now' \<le> now + 29000000000 \<longrightarrow>
      VerifyHTTP (NewAuth secret n') now' (SignHTTP (NewAuth secret n) now req) = Inr ()) \<and>
    (now' < now - 31000000000 \<or> now + 30000000000 < now' \<longrightarrow>
      VerifyHTTP (NewAuth secret n') now' (SignHTTP (NewAuth secret n) now req) = Inl AuthExpired)"
  using http.accepted_window [OF assms] skewed_outside [OF assms] assms
  by (simp add: Verify_Sign_iff NewAuth_def)

definition demo_request :: request where
  "demo_request = \<lparr>rq_Method = ''GET'', rq_URI = ''/catalog'', rq_Header = (\<lambda>_. [])\<rparr>"

theorem http_sign_verify_witness:
  "clock_ok 1000000000 \<and> clock_ok 2000000000 \<and> clock_ok 50000000000 \<and>
   VerifyHTTP (NewAuth ''k'' ''b'') 2000000000 (SignHTTP (NewAuth ''k'' ''a'') 1000000000 demo_request) = Inr () \<and>
   VerifyHTTP (NewAuth ''k'' ''b'') 50000000000 (SignHTTP (NewAuth ''k'' ''a'') 1000000000 demo_request) =
     Inl AuthExpired"
proof -
  have c: "clock_ok 1000000000" "clock_ok 2000000000" "clock_ok 50000000000"
    by (simp_all add: clock_ok_def)
  from http_sign_verify [OF c(1,2)] http_sign_verify [OF c(1,3)] c show ?thesis by simp
qed

text \<open>C16. A signature cannot be moved to another request: whenever a request that carries the
  Authorization header of a signed request is accepted, it has the signed method, the signed URI and
  the signed timestamp, and that timestamp is within 30 seconds of the verifier's clock, unless HMAC
  under the shared secret collides on the two signed texts.\<close>

theorem http_signature_binding:
  assumes "VerifyHTTP b now' req' = Inr ()" and "ha_secret b = ha_secret a" and "clock_ok now"
    and "header_Get (rq_Header req') ''Authorization'' =
      header_Get (rq_Header (SignHTTP a now req)) ''Authorization''"
    and "CHR 0x0A \<notin> set (rq_Method req)" and "CHR 0x0A \<notin> set (rq_Method req')"
    and "inj_on (hmac_sha256 (ha_secret a))
      {sign_text (rq_Method req) (rq_URI req) (FormatInt (now_Unix now)),
       sign_text (rq_Method req') (rq_URI req') (header_Get (rq_Header req') ''X-NuSync-Timestamp'')}"
  shows "rq_Method req' = rq_Method req \<and> rq_URI req' = rq_URI req \<and>
    header_Get (rq_Header req') ''X-NuSync-Timestamp'' = FormatInt (now_Unix now) \<and>
    \<not> skewed now' (now_Unix now)"
proof -
  let ?ts = "FormatInt (now_Unix now)" and ?ts' = "header_Get (rq_Header req') ''X-NuSync-Timestamp''"
  let ?t = "sign_text (rq_Method req) (rq_URI req) ?ts"
  let ?t' = "sign_text (rq_Method req') (rq_URI req') ?ts'"
  obtain sigText t where v: "header_Get (rq_Header req') ''Authorization'' = ''HMAC '' @ sigText"
    "ParseInt ?ts' = Some t" "\<not> skewed now' t"
    "b64_DecodeString sigText = Some (hmac_sha256 (ha_secret b) ?t')"
    using VerifyHTTP_ok [OF assms(1)] by blast
  have "sigText = b64_EncodeToString (hmac_sha256 (ha_secret a) ?t)"
    using v(1) assms(4) SignHTTP_fields(5) [of a now req] by simp
  then have "hmac_sha256 (ha_secret a) ?t' = hmac_sha256 (ha_secret a) ?t"
    using v(4) assms(2) by simp
  then have "?t' = ?t" using assms(7) by (meson inj_onD insertI1 insert_iff)
  then have "rq_Method req' = rq_Method req \<and> rq_URI req' = rq_URI req \<and> ?ts' = ?ts"
    using assms(5,6) ParseInt_no_LF [OF v(2)] ParseInt_no_LF [OF now_Unix_parse [OF assms(3)]]
    by (intro sign_text_inject)
  with v(2,3) now_Unix_parse [OF assms(3)] show ?thesis by simp
qed

theorem http_signature_binding_witness:
  "\<exists>req'. VerifyHTTP (NewAuth ''k'' ''b'') 2000000000 req' = Inr () \<and>
     rq_Method req' = rq_Method demo_request \<and> rq_URI req' = rq_URI demo_request \<and>
     \<not> skewed 2000000000 (now_Unix 1000000000)"
proof -
  let ?a = "NewAuth ''k'' ''a''" and ?b = "NewAuth ''k'' ''b''"
  let ?r = "SignHTTP ?a 1000000000 demo_request"
  have c: "clock_ok 1000000000" "clock_ok 2000000000" by (simp_all add: clock_ok_def)
  have ok: "VerifyHTTP ?b 2000000000 ?r = Inr ()" using c by (intro http.accepted_window) simp_all
  have "rq_Method ?r = rq_Method demo_request \<and> rq_URI ?r = rq_URI demo_request \<and>
    header_Get (rq_Header ?r) ''X-NuSync-Timestamp'' = FormatInt (now_Unix 1000000000) \<and>
    \<not> skewed 2000000000 (now_Unix 1000000000)"
    by (rule http_signature_binding [OF ok _ c(1) refl])
      (simp_all add: SignHTTP_fields NewAuth_def demo_request_def)
  with ok show ?thesis by blast
qed

end
