(* ===== verification/Dataplane.thy ===== *)
theory Dataplane
  imports MetaStore Cas Auth
begin

text \<open>
  \<^verbatim>\<open>internal/dataplane\<close>: the HTTP data plane.  The client (\<^verbatim>\<open>client.go\<close>) builds a URL by
  string formatting, signs the request and interprets the status code; the server
  (\<^verbatim>\<open>server.go\<close>) verifies the signature, limits concurrency and serves chunks, metadata and
  the catalog.  From \<^verbatim>\<open>net/url\<close> and \<^verbatim>\<open>net/http\<close> the theory has what happens to such
  a URL on its way: parsing, the request line, query decoding, routing.  The network is a parameter
  \<open>net\<close> from host and request to a response; the semaphore of \<^verbatim>\<open>golang.org/x/sync\<close> is a
  parameter too.
\<close>

section \<open>URLs\<close>

definition ctl_byte :: "char \<Rightarrow> bool" where
  "ctl_byte c \<longleftrightarrow> byte_val c < 32 \<or> byte_val c = 127"

definition cut :: "char \<Rightarrow> gostring \<Rightarrow> gostring \<times> gostring option" where
  "cut sep s = (case dropWhile (\<lambda>c. c \<noteq> sep) s of
     [] \<Rightarrow> (s, None) | _ # r \<Rightarrow> (takeWhile (\<lambda>c. c \<noteq> sep) s, Some r))"

text \<open>\<^verbatim>\<open>url.unescape\<close>: percent decoding; a plus sign is a space in a query only.\<close>

fun unescape :: "bool \<Rightarrow> gostring \<Rightarrow> gostring option" where
  "unescape query [] = Some []"
| "unescape query (c # cs) =
     (if c = CHR 0x25 then
        (case cs of
           a # b # r \<Rightarrow>
             (case (hex_val a, hex_val b, unescape query r) of
                (Some x, Some y, Some t) \<Rightarrow> Some (byte_of (16 * x + y) # t) | _ \<Rightarrow> None)
         | _ \<Rightarrow> None)
      else map_option (\<lambda>t. (if query \<and> c = CHR ''+'' then CHR '' '' else c) # t) (unescape query cs))"

definition host_char :: "char \<Rightarrow> bool" where
  "host_char c \<longleftrightarrow> byte_val c \<ge> 128 \<or> digit_val c \<noteq> None \<or> 97 \<le> byte_val c \<and> byte_val c \<le> 122
     \<or> 65 \<le> byte_val c \<and> byte_val c \<le> 90 \<or> c \<in> set ''-_.~!$&()*+,;=:[]<>'' \<or> byte_val c = 39 \<or> byte_val c = 34"

definition valid_port :: "gostring \<Rightarrow> bool" where
  "valid_port s \<longleftrightarrow> (case s of [] \<Rightarrow> True | c # r \<Rightarrow> c = CHR '':'' \<and> list_all (\<lambda>d. digit_val d \<noteq> None) r)"

text \<open>\<^verbatim>\<open>url.parseHost\<close> for a host without percent signs (member addresses are IP literals): the
  characters are allowed and what follows the last colon, or the closing bracket, is a port.\<close>

definition host_ok :: "gostring \<Rightarrow> bool" where
  "host_ok h \<longleftrightarrow> list_all host_char h \<and>
     (if h \<noteq> [] \<and> hd h = CHR ''['' then CHR '']'' \<in> set h \<and> valid_port (rev (takeWhile (\<lambda>c. c \<noteq> CHR '']'') (rev h)))
      else CHR '':'' \<notin> set h \<or> valid_port (CHR '':'' # rev (takeWhile (\<lambda>c. c \<noteq> CHR '':'') (rev h))))"

text \<open>\<^verbatim>\<open>http.NewRequest\<close> for \<^verbatim>\<open>http://host/path?query\<close>: control characters are refused,
  a fragment is cut off, and the request URI is what follows the host.\<close>

definition http_NewRequest :: "gostring \<Rightarrow> (gostring \<times> request) option" where
  "http_NewRequest url =
     (if list_ex ctl_byte url then None
      else (case cut (CHR ''#'') url of (u, frag) \<Rightarrow>
        if (case frag of None \<Rightarrow> False | Some g \<Rightarrow> unescape False g = None) then None
        else if \<not> HasPrefix u ''http://'' then None
        else let rest = TrimPrefix u ''http://'';
                 host = takeWhile (\<lambda>c. c \<noteq> slash \<and> c \<noteq> CHR ''?'') rest;
                 uri = drop (length host) rest
             in if host_ok host then Some (host, \<lparr>rq_Method = ''GET'', rq_URI = uri, rq_Header = (\<lambda>_. [])\<rparr>)
                else None))"

text \<open>\<^verbatim>\<open>URL.Query().Get(key)\<close>: the first pair with that key; a pair with a semicolon or a bad
  escape is dropped.\<close>

fun query_values :: "gostring list \<Rightarrow> (gostring \<times> gostring) list" where
  "query_values [] = []"
| "query_values (kv # r) =
     (if CHR '';'' \<in> set kv \<or> kv = [] then query_values r
      else (case cut (CHR ''='') kv of (k, v) \<Rightarrow>
        (case (unescape True k, unescape True (case v of None \<Rightarrow> [] | Some v \<Rightarrow> v)) of
           (Some k', Some v') \<Rightarrow> (k', v') # query_values r
         | _ \<Rightarrow> query_values r)))"

definition query_Get :: "gostring \<Rightarrow> gostring \<Rightarrow> gostring" where
  "query_Get rawQuery key =
     (case map_of (query_values (SplitOn (CHR ''&'') rawQuery)) key of None \<Rightarrow> [] | Some v \<Rightarrow> v)"

definition uri_path :: "gostring \<Rightarrow> gostring" where
  "uri_path uri = fst (cut (CHR ''?'') uri)"

definition uri_query :: "gostring \<Rightarrow> gostring" where
  "uri_query uri = (case snd (cut (CHR ''?'') uri) of None \<Rightarrow> [] | Some q \<Rightarrow> q)"

section \<open>Responses\<close>

text \<open>\<open>rs_Body\<close>: what reading the body yields; \<open>Inl\<close> is a read error.\<close>

record response =
  rs_StatusCode :: int
  rs_Header :: header
  rs_Body :: "(unit, bytes) result"

definition http_Error :: "header \<Rightarrow> gostring \<Rightarrow> int \<Rightarrow> response" where
  "http_Error h msg code = \<lparr>rs_StatusCode = code, rs_Header = h, rs_Body = Inr (msg @ [CHR 0x0A])\<rparr>"

definition no_header :: header where "no_header = (\<lambda>_. [])"

section \<open>The server\<close>

record 'sem semaphore =
  sem_TryAcquire :: "'sem \<Rightarrow> bool \<times> 'sem"
  sem_Release :: "'sem \<Rightarrow> 'sem"

record Server =
  sv_addr :: gostring
  sv_verifier :: hmacAuth
  sv_cas :: CASBlobStore
  sv_maxStreams :: int

text \<open>The semaphore starts with \<open>maxConcurrentStreams\<close> free slots; its state is passed separately.\<close>

definition NewServer :: "gostring \<Rightarrow> hmacAuth \<Rightarrow> CASBlobStore \<Rightarrow> int \<Rightarrow> Server" where
  "NewServer addr verifier cas maxConcurrentStreams =
     \<lparr>sv_addr = addr, sv_verifier = verifier, sv_cas = cas, sv_maxStreams = maxConcurrentStreams\<rparr>"

text \<open>\<^verbatim>\<open>http.ServeContent\<close> without range or precondition headers sends the whole file; with
  them the answer is \<open>partial\<close>, which no client of this program asks for.\<close>

definition plain_get :: "request \<Rightarrow> bool" where
  "plain_get r \<longleftrightarrow> list_all (\<lambda>k. header_Get (rq_Header r) k = [])
     [''Range'', ''If-Match'', ''If-Unmodified-Since'', ''If-None-Match'', ''If-Modified-Since'']"

definition ServeContent :: "(request \<Rightarrow> fnode \<Rightarrow> response) \<Rightarrow> fs \<Rightarrow> header \<Rightarrow> request \<Rightarrow> path \<Rightarrow> response" where
  "ServeContent partial f h r p =
     (case ents f p of
        None \<Rightarrow> http_Error h ''seeker can't seek'' 500
      | Some n \<Rightarrow>
          if \<not> plain_get r then partial r n
          else (case n of
              FDir \<Rightarrow> http_Error h ''seeker can't seek'' 500
            | FFile d \<Rightarrow> \<lparr>rs_StatusCode = 200, rs_Header = h,
                rs_Body = (if faulty f OpRead p then Inl () else Inr d)\<rparr>))"

definition handleGetChunk ::
  "'sem semaphore \<Rightarrow> (request \<Rightarrow> fnode \<Rightarrow> response) \<Rightarrow> Server \<Rightarrow> 'sem \<Rightarrow> fs \<Rightarrow> int \<Rightarrow> request \<Rightarrow> 'sem \<times> response" where
  "handleGetChunk S partial srv sem f now r =
     (case VerifyHTTP (sv_verifier srv) now r of
        Inl e \<Rightarrow> (sem, http_Error no_header ''Unauthorized'' 403)
      | Inr _ \<Rightarrow>
          (case sem_TryAcquire S sem of
             (False, sem1) \<Rightarrow>
               (sem1, http_Error (header_Set no_header ''Retry-After'' ''2'') ''Too Many Requests - Server busy'' 429)
           | (True, sem1) \<Rightarrow>
               (sem_Release S sem1,
                let hashHex = query_Get (uri_query (rq_URI r)) ''h'' in
                if length hashHex \<noteq> 64 then http_Error no_header ''Invalid or missing chunk hash'' 400
                else (case hex_DecodeString hashHex of
                    None \<Rightarrow> http_Error no_header ''Malformed chunk hash hex'' 400
                  | Some decoded \<Rightarrow>
                      if length decoded \<noteq> 32 then http_Error no_header ''Malformed chunk hash hex'' 400
                      else (case GetFile (sv_cas srv) f (copy32 decoded) of
                          Inl _ \<Rightarrow> http_Error no_header ''Chunk not found'' 404
                        | Inr file \<Rightarrow>
                            if faulty f OpStat file then http_Error no_header ''Internal server error'' 500
                            else ServeContent partial f
                              (header_Set no_header ''X-Content-Type-Options'' ''nosniff'') r file)))))"

definition handleGetMeta :: "'db bolt \<Rightarrow> 'db \<Rightarrow> Server \<Rightarrow> int \<Rightarrow> request \<Rightarrow> response" where
  "handleGetMeta B db srv now r =
     (case VerifyHTTP (sv_verifier srv) now r of
        Inl e \<Rightarrow> http_Error no_header ''Unauthorized'' 403
      | Inr _ \<Rightarrow>
          (case GetFileMeta B db (query_Get (uri_query (rq_URI r)) ''id'') of
             Inl _ \<Rightarrow> http_Error no_header ''Not found'' 404
           | Inr meta \<Rightarrow> \<lparr>rs_StatusCode = 200, rs_Header = header_Set no_header ''Content-Type'' ''application/json'',
               rs_Body = Inr (json_Encode (FileMeta_json meta))\<rparr>))"

definition catalog_json :: "CatalogEntry list \<Rightarrow> json" where
  "catalog_json es = (if es = [] then JNull else JArr (map CatalogEntry_json es))"

definition handleGetCatalog :: "'db bolt \<Rightarrow> 'db \<Rightarrow> Server \<Rightarrow> int \<Rightarrow> request \<Rightarrow> response" where
  "handleGetCatalog B db srv now r =
     (case VerifyHTTP (sv_verifier srv) now r of
        Inl e \<Rightarrow> http_Error no_header ''Unauthorized'' 403
      | Inr _ \<Rightarrow>
          (case ListCatalog B db of
             Inl e \<Rightarrow> http_Error no_header ''error'' 500
           | Inr files \<Rightarrow> \<lparr>rs_StatusCode = 200, rs_Header = header_Set no_header ''Content-Type'' ''application/json'',
               rs_Body = Inr (json_Encode (catalog_json files))\<rparr>))"

text \<open>From the request line to the handler: a URI with a space makes the line malformed, a path that
  does not decode is a bad request, an unclean path is redirected, an unknown one not found.\<close>

definition mux_serve ::
  "'sem semaphore \<Rightarrow> (request \<Rightarrow> fnode \<Rightarrow> response) \<Rightarrow> 'db bolt \<Rightarrow> 'db \<Rightarrow> Server \<Rightarrow> 'sem \<Rightarrow> fs \<Rightarrow> int \<Rightarrow> request
   \<Rightarrow> 'sem \<times> response" where
  "mux_serve S partial B db srv sem f now r =
     (if CHR '' '' \<in> set (rq_URI r) then (sem, http_Error no_header ''400 Bad Request'' 400)
      else (case unescape False (uri_path (rq_URI r)) of
          None \<Rightarrow> (sem, http_Error no_header ''400 Bad Request'' 400)
        | Some p \<Rightarrow>
            if p = ''/chunk'' then handleGetChunk S partial srv sem f now r
            else if p = ''/meta'' then (sem, handleGetMeta B db srv now r)
            else if p = ''/catalog'' then (sem, handleGetCatalog B db srv now r)
            else if Clean p \<noteq> p \<and> Clean p @ [slash] \<noteq> p then (sem, http_Error no_header ''Moved Permanently'' 301)
            else (sem, http_Error no_header ''404 page not found'' 404)))"

section \<open>The client\<close>

datatype client_error = ErrPeerUnreachable | ErrRequest | ErrRateLimited | RateLimitError int gostring
  | ErrUnauthorized | ErrChunkNotFound | ErrStatus int | ErrRead | ErrCas cas_error | ErrJson

type_synonym net = "gostring \<Rightarrow> request \<Rightarrow> (gostring, response) result"

record Client =
  cl_signer :: hmacAuth
  cl_cas :: CASBlobStore

definition NewClient :: "hmacAuth \<Rightarrow> CASBlobStore \<Rightarrow> Client" where
  "NewClient signer cas = \<lparr>cl_signer = signer, cl_cas = cas\<rparr>"

definition chunk_url :: "gostring \<Rightarrow> hash32 \<Rightarrow> gostring" where
  "chunk_url peerAddr hash = ''http://'' @ peerAddr @ ''/chunk?h='' @ hex_EncodeToString (bytes32 hash)"

definition FetchChunk :: "net \<Rightarrow> Client \<Rightarrow> int \<Rightarrow> gostring \<Rightarrow> hash32 \<Rightarrow> (client_error, bytes) result" where
  "FetchChunk net c now peerAddr hash =
     (case http_NewRequest (chunk_url peerAddr hash) of
        None \<Rightarrow> Inl ErrPeerUnreachable
      | Some (host, req) \<Rightarrow>
          (case net host (SignHTTP (cl_signer c) now req) of
             Inl _ \<Rightarrow> Inl ErrPeerUnreachable
           | Inr resp \<Rightarrow>
               if rs_StatusCode resp = 200 then (case rs_Body resp of Inl _ \<Rightarrow> Inl ErrRead | Inr d \<Rightarrow> Inr d)
               else if rs_StatusCode resp = 429 then Inl ErrRateLimited
               else if rs_StatusCode resp = 403 then Inl ErrUnauthorized
               else if rs_StatusCode resp = 404 then Inl ErrChunkNotFound
               else Inl (ErrStatus (rs_StatusCode resp))))"

definition FetchSingle ::
  "net \<Rightarrow> Client \<Rightarrow> fs \<Rightarrow> int \<Rightarrow> gostring \<Rightarrow> hash32 \<Rightarrow> fs \<times> (client_error, unit) result" where
  "FetchSingle net c f now peerAddr hash =
     (case http_NewRequest (chunk_url peerAddr hash) of
        None \<Rightarrow> (f, Inl ErrPeerUnreachable)
      | Some (host, req) \<Rightarrow>
          (case net host (SignHTTP (cl_signer c) now req) of
             Inl _ \<Rightarrow> (f, Inl ErrPeerUnreachable)
           | Inr resp \<Rightarrow>
               if rs_StatusCode resp = 200 then
                 (case rs_Body resp of
                    Inl _ \<Rightarrow> (f, Inl ErrRead)
                  | Inr d \<Rightarrow> (case Put (cl_cas c) f hash d of
                        (f1, Inl e) \<Rightarrow> (f1, Inl (ErrCas e)) | (f1, Inr _) \<Rightarrow> (f1, Inr ())))
               else if rs_StatusCode resp = 429 then
                 (let value = header_Get (rs_Header resp) ''Retry-After'';
                      retrySecs = (case ParseInt value of None \<Rightarrow> 2 | Some n \<Rightarrow> n)
                  in (f, Inl (RateLimitError (wrap64 (retrySecs * 1000000000)) peerAddr)))
               else if rs_StatusCode resp = 403 then (f, Inl ErrUnauthorized)
               else if rs_StatusCode resp = 404 then (f, Inl ErrChunkNotFound)
               else (f, Inl (ErrStatus (rs_StatusCode resp)))))"

definition meta_url :: "gostring \<Rightarrow> gostring \<Rightarrow> gostring" where
  "meta_url peerAddr fileID = ''http://'' @ peerAddr @ ''/meta?id='' @ fileID"

definition FetchMeta :: "net \<Rightarrow> Client \<Rightarrow> int \<Rightarrow> gostring \<Rightarrow> gostring \<Rightarrow> (client_error, FileMeta) result" where
  "FetchMeta net c now peerAddr fileID =
     (case http_NewRequest (meta_url peerAddr fileID) of
        None \<Rightarrow> Inl ErrRequest
      | Some (host, req) \<Rightarrow>
          (case net host (SignHTTP (cl_signer c) now req) of
             Inl _ \<Rightarrow> Inl ErrPeerUnreachable
           | Inr resp \<Rightarrow>
               if rs_StatusCode resp \<noteq> 200 then Inl (ErrStatus (rs_StatusCode resp))
               else (case rs_Body resp of
                   Inl _ \<Rightarrow> Inl ErrJson
                 | Inr d \<Rightarrow> (case Option.bind (json_Decode d) FileMeta_of_json of
                     None \<Rightarrow> Inl ErrJson | Some m \<Rightarrow> Inr m))))"

fun dec_entries :: "json list \<Rightarrow> CatalogEntry list option" where
  "dec_entries [] = Some []"
| "dec_entries (v # vs) =
     (case (CatalogEntry_of_json v, dec_entries vs) of (Some e, Some es) \<Rightarrow> Some (e # es) | _ \<Rightarrow> None)"

definition catalog_of_json :: "json \<Rightarrow> CatalogEntry list option" where
  "catalog_of_json j = (case j of JNull \<Rightarrow> Some [] | JArr vs \<Rightarrow> dec_entries vs | _ \<Rightarrow> None)"

definition catalog_url :: "gostring \<Rightarrow> gostring" where
  "catalog_url peerAddr = ''http://'' @ peerAddr @ ''/catalog''"

definition FetchCatalog :: "net \<Rightarrow> Client \<Rightarrow> int \<Rightarrow> gostring \<Rightarrow> (client_error, CatalogEntry list) result" where
  "FetchCatalog net c now peerAddr =
     (case http_NewRequest (catalog_url peerAddr) of
        None \<Rightarrow> Inl ErrRequest
      | Some (host, req) \<Rightarrow>
          (case net host (SignHTTP (cl_signer c) now req) of
             Inl _ \<Rightarrow> Inl ErrPeerUnreachable
           | Inr resp \<Rightarrow>
               if rs_StatusCode resp \<noteq> 200 then Inl (ErrStatus (rs_StatusCode resp))
               else (case rs_Body resp of
                   Inl _ \<Rightarrow> Inl ErrJson
                 | Inr d \<Rightarrow> (case Option.bind (json_Decode d) catalog_of_json of
                     None \<Rightarrow> Inl ErrJson | Some es \<Rightarrow> Inr es))))"

definition ParseRateLimit :: "response \<Rightarrow> int" where
  "ParseRateLimit resp =
     (if rs_StatusCode resp \<noteq> 429 then 0
      else (case ParseInt (header_Get (rs_Header resp) ''Retry-After'') of
          Some seconds \<Rightarrow> if seconds > 0 then wrap64 (seconds * 1000000000) else 2000000000
        | None \<Rightarrow> 2000000000))"

section \<open>From the client's URL to the server's lookup\<close>

lemma cut_none: "sep \<notin> set s \<Longrightarrow> cut sep s = (s, None)"
proof -
  assume "sep \<notin> set s"
  then have "dropWhile (\<lambda>c. c \<noteq> sep) s = []" by (auto simp: dropWhile_eq_Nil_conv)
  then show ?thesis unfolding cut_def by (simp only: list.case)
qed

lemma cut_append: "sep \<notin> set s \<Longrightarrow> cut sep (s @ sep # t) = (s, Some t)"
proof -
  assume "sep \<notin> set s"
  then have "\<forall>c \<in> set s. c \<noteq> sep" by blast
  then show ?thesis by (simp add: cut_def takeWhile_append_stop dropWhile_append_stop)
qed

text \<open>An address as the discovery component produces it.\<close>

definition plain_host :: "gostring \<Rightarrow> bool" where
  "plain_host h \<longleftrightarrow> host_ok h \<and> list_all (\<lambda>c. \<not> ctl_byte c \<and> c \<notin> set ''#/?'') h"

lemma http_NewRequest_target:
  assumes "plain_host host" and "\<forall>c \<in> set target. \<not> ctl_byte c \<and> c \<noteq> CHR ''#''"
  shows "http_NewRequest (''http://'' @ host @ slash # target) =
    Some (host, \<lparr>rq_Method = ''GET'', rq_URI = slash # target, rq_Header = (\<lambda>_. [])\<rparr>)"
proof -
  let ?url = "''http://'' @ host @ slash # target"
  have host: "\<forall>c \<in> set host. \<not> ctl_byte c" "CHR ''#'' \<notin> set host"
    "\<forall>c \<in> set host. c \<noteq> slash \<and> c \<noteq> CHR ''?''" "host_ok host"
    using assms(1) by (auto simp: plain_host_def list_all_iff)
  have "\<not> list_ex ctl_byte ?url"
    using host(1) assms(2) by (auto simp: list_ex_iff ctl_byte_def)
  moreover have "cut (CHR ''#'') ?url = (?url, None)"
    using host(2) assms(2) by (intro cut_none) auto
  moreover have "TrimPrefix ?url ''http://'' = host @ slash # target" by (rule TrimPrefix_append)
  moreover have "HasPrefix ?url ''http://''" by (rule HasPrefix_append)
  moreover have "takeWhile (\<lambda>c. c \<noteq> slash \<and> c \<noteq> CHR ''?'') (host @ slash # target) = host"
    using host(3) by (intro takeWhile_append_stop) auto
  ultimately show ?thesis
    using host(4) by (simp add: http_NewRequest_def del: append_Cons append_Nil)
qed

lemma http_NewRequest_fragment:
  assumes "\<forall>c \<in> set u. \<not> ctl_byte c \<and> c \<noteq> CHR ''#''" and "\<forall>c \<in> set g. \<not> ctl_byte c"
    and "unescape False g \<noteq> None"
  shows "http_NewRequest (u @ CHR ''#'' # g) = http_NewRequest u"
proof -
  have "\<not> list_ex ctl_byte (u @ CHR ''#'' # g)" "\<not> list_ex ctl_byte u"
    using assms(1,2) by (auto simp: list_ex_iff ctl_byte_def)
  moreover have "cut (CHR ''#'') (u @ CHR ''#'' # g) = (u, Some g)" "cut (CHR ''#'') u = (u, None)"
    using assms(1) by (auto intro!: cut_append cut_none)
  ultimately show ?thesis using assms(3) by (auto simp add: http_NewRequest_def)
qed

text \<open>Bytes that mean themselves in a query value.\<close>

definition query_safe :: "char \<Rightarrow> bool" where
  "query_safe c \<longleftrightarrow> \<not> ctl_byte c \<and> c \<notin> {CHR '' '', CHR ''#'', CHR ''&'', CHR '';'', CHR 0x25, CHR ''+''}"

lemma unescape_plain:
  "\<forall>c \<in> set s. c \<noteq> CHR 0x25 \<and> c \<noteq> CHR ''+'' \<Longrightarrow> unescape q s = Some s"
  by (induction s) auto

lemma query_Get_safe:
  assumes "\<forall>c \<in> set v. query_safe c" and "\<forall>c \<in> set k. query_safe c \<and> c \<noteq> CHR ''=''"
  shows "query_Get (k @ CHR ''='' # v) k = v"
proof -
  have "CHR ''&'' \<notin> set (k @ CHR ''='' # v)" "CHR '';'' \<notin> set (k @ CHR ''='' # v)"
    using assms by (auto simp: query_safe_def)
  moreover have "cut (CHR ''='') (k @ CHR ''='' # v) = (k, Some v)"
    using assms(2) by (intro cut_append) auto
  moreover have "unescape True k = Some k" "unescape True v = Some v"
    using assms by (auto intro!: unescape_plain simp: query_safe_def)
  ultimately show ?thesis by (simp add: query_Get_def SplitOn_no_sep)
qed

lemma hex_query_safe: "c \<in> set (hex_EncodeToString bs) \<Longrightarrow> query_safe c"
proof -
  assume "c \<in> set (hex_EncodeToString bs)"
  then have "hex_val c \<noteq> None" by (rule hex_chars)
  then show ?thesis by (auto simp: query_safe_def ctl_byte_def hex_val_def Let_def split: if_splits)
qed

text \<open>The network delivers to a server of this model at \<open>host\<close>.\<close>

definition http_serves ::
  "net \<Rightarrow> gostring \<Rightarrow> 'sem semaphore \<Rightarrow> (request \<Rightarrow> fnode \<Rightarrow> response) \<Rightarrow> 'db bolt \<Rightarrow> 'db \<Rightarrow> Server \<Rightarrow> 'sem \<Rightarrow> fs \<Rightarrow> int \<Rightarrow> bool" where
  "http_serves net host S partial B db srv sem f now \<longleftrightarrow>
     (\<forall>req. net host req = Inr (snd (mux_serve S partial B db srv sem f now req)))"

lemma plain_get_signed:
  "plain_get (SignHTTP a now \<lparr>rq_Method = m, rq_URI = u, rq_Header = (\<lambda>_. [])\<rparr>)"
  by (simp add: plain_get_def SignHTTP_def Let_def header_Get_def header_Set_def
      CanonicalMIMEHeaderKey_def token_char_def upper_def lower_def char_eval)

lemma uri_parts:
  assumes "CHR ''?'' \<notin> set p"
  shows "uri_path (p @ CHR ''?'' # q) = p" and "uri_query (p @ CHR ''?'' # q) = q"
  using cut_append [OF assms] by (simp_all add: uri_path_def uri_query_def)

lemma chunk_request:
  assumes "plain_host host"
  shows "http_NewRequest (chunk_url host h) = Some (host,
    \<lparr>rq_Method = ''GET'', rq_URI = ''/chunk?h='' @ hex_EncodeToString (bytes32 h), rq_Header = (\<lambda>_. [])\<rparr>)"
  using http_NewRequest_target [OF assms, of "''chunk?h='' @ hex_EncodeToString (bytes32 h)"]
    hex_query_safe [of _ "bytes32 h"]
  by (auto simp: chunk_url_def query_safe_def ctl_byte_def)

lemma chunk_uri:
  "uri_path (''/chunk?h='' @ hex_EncodeToString bs) = ''/chunk''"
  "query_Get (uri_query (''/chunk?h='' @ hex_EncodeToString bs)) ''h'' = hex_EncodeToString bs"
  "CHR '' '' \<notin> set (''/chunk?h='' @ hex_EncodeToString bs)"
proof -
  show "uri_path (''/chunk?h='' @ hex_EncodeToString bs) = ''/chunk''"
    using uri_parts(1) [of "''/chunk''" "''h='' @ hex_EncodeToString bs"] by simp
  have "uri_query (''/chunk?h='' @ hex_EncodeToString bs) = ''h='' @ hex_EncodeToString bs"
    using uri_parts(2) [of "''/chunk''" "''h='' @ hex_EncodeToString bs"] by simp
  moreover have "query_Get (''h'' @ CHR ''='' # hex_EncodeToString bs) ''h'' = hex_EncodeToString bs"
    using hex_query_safe by (intro query_Get_safe) (auto simp: query_safe_def ctl_byte_def)
  ultimately show "query_Get (uri_query (''/chunk?h='' @ hex_EncodeToString bs)) ''h'' = hex_EncodeToString bs"
    by simp
  show "CHR '' '' \<notin> set (''/chunk?h='' @ hex_EncodeToString bs)"
    using hex_query_safe [of "CHR '' ''" bs] by (auto simp: query_safe_def)
qed

lemma GetFile_result:
  "no_faults f \<Longrightarrow> cas_inv s f \<Longrightarrow>
   GetFile s f h = (case stored s f h of None \<Rightarrow> Inl ENOENT | Some d \<Rightarrow> Inr (obj_path s f h))"
  using GetFile_stored GetFile_missing by (cases "stored s f h") auto

lemma ServeContent_stored:
  "no_faults f \<Longrightarrow> stored s f h = Some d \<Longrightarrow> plain_get r \<Longrightarrow>
   ServeContent partial f hdr r (obj_path s f h) = \<lparr>rs_StatusCode = 200, rs_Header = hdr, rs_Body = Inr d\<rparr>"
  by (auto simp: ServeContent_def stored_def split: option.splits fnode.splits)

lemma handleGetChunk_signed:
  assumes "ha_secret (sv_verifier srv) = ha_secret a" and "clock_ok now"
    and "no_faults f" and "cas_inv (sv_cas srv) f"
  shows "snd (handleGetChunk S partial srv sem f now' (SignHTTP a now \<lparr>rq_Method = ''GET'',
      rq_URI = ''/chunk?h='' @ hex_EncodeToString (bytes32 h), rq_Header = (\<lambda>_. [])\<rparr>)) =
    (if skewed now' (now_Unix now) then http_Error no_header ''Unauthorized'' 403
     else if \<not> fst (sem_TryAcquire S sem) then
       http_Error (header_Set no_header ''Retry-After'' ''2'') ''Too Many Requests - Server busy'' 429
     else case stored (sv_cas srv) f h of
         None \<Rightarrow> http_Error no_header ''Chunk not found'' 404
       | Some d \<Rightarrow> \<lparr>rs_StatusCode = 200,
           rs_Header = header_Set no_header ''X-Content-Type-Options'' ''nosniff'', rs_Body = Inr d\<rparr>)"
proof -
  obtain b sem1 where s: "sem_TryAcquire S sem = (b, sem1)" by (rule prod.exhaust)
  show ?thesis
    using assms(3)
    by (cases b) (simp_all add: handleGetChunk_def Let_def Verify_Sign_iff [OF assms(1,2)] s SignHTTP_fields
        chunk_uri GetFile_result [OF assms(3,4)] ServeContent_stored plain_get_signed copy32_bytes32
        split: option.split del: append_Cons append_Nil)
qed

lemma unescape_routes:
  "unescape False ''/chunk'' = Some ''/chunk''" "unescape False ''/meta'' = Some ''/meta''"
  "unescape False ''/catalog'' = Some ''/catalog''"
  by simp_all

lemma FetchChunk_served:
  assumes "http_serves net host S partial B db srv sem f now'" and "plain_host host"
    and "ha_secret (sv_verifier srv) = ha_secret (cl_signer c)" and "clock_ok now"
    and "no_faults f" and "cas_inv (sv_cas srv) f"
  shows "FetchChunk net c now host h =
    (if skewed now' (now_Unix now) then Inl ErrUnauthorized
     else if \<not> fst (sem_TryAcquire S sem) then Inl ErrRateLimited
     else case stored (sv_cas srv) f h of None \<Rightarrow> Inl ErrChunkNotFound | Some d \<Rightarrow> Inr d)"
proof -
  let ?req = "SignHTTP (cl_signer c) now \<lparr>rq_Method = ''GET'',
      rq_URI = ''/chunk?h='' @ hex_EncodeToString (bytes32 h), rq_Header = (\<lambda>_. [])\<rparr>"
  have "snd (mux_serve S partial B db srv sem f now' ?req) = snd (handleGetChunk S partial srv sem f now' ?req)"
    by (simp only: mux_serve_def SignHTTP_fields request.select_convs chunk_uri unescape_routes
        if_False if_True option.case simp_thms)
  then have "net host ?req = Inr (snd (handleGetChunk S partial srv sem f now' ?req))"
    using assms(1) by (simp add: http_serves_def)
  then show ?thesis
    unfolding FetchChunk_def chunk_request [OF assms(2)] handleGetChunk_signed [OF assms(3-6)]
    by (simp add: http_Error_def split: option.split)
qed

text \<open>For a file identifier without control characters, blanks and number signs, the server answers
  for whatever identifier the query decodes to, which is the one asked for if all its bytes are
  safe in a query.\<close>

definition sent_id :: "gostring \<Rightarrow> gostring" where
  "sent_id fileID = query_Get (''id='' @ fileID) ''id''"

lemma sent_id_safe: "\<forall>c \<in> set i. query_safe c \<Longrightarrow> sent_id i = i"
  unfolding sent_id_def using query_Get_safe [of i "''id''"] by (simp add: query_safe_def ctl_byte_def)

lemma meta_request:
  assumes "plain_host host" and "\<forall>c \<in> set i. \<not> ctl_byte c \<and> c \<noteq> CHR ''#''"
  shows "http_NewRequest (meta_url host i) = Some (host,
    \<lparr>rq_Method = ''GET'', rq_URI = ''/meta?id='' @ i, rq_Header = (\<lambda>_. [])\<rparr>)"
  using http_NewRequest_target [OF assms(1), of "''meta?id='' @ i"] assms(2)
  by (auto simp: meta_url_def ctl_byte_def)

lemma meta_uri:
  "uri_path (''/meta?id='' @ i) = ''/meta''"
  "query_Get (uri_query (''/meta?id='' @ i)) ''id'' = sent_id i"
  using uri_parts [of "''/meta''" "''id='' @ i"] by (simp_all add: sent_id_def)

lemma FetchMeta_served:
  assumes "http_serves net host S partial B db srv sem f now'" and "plain_host host"
    and "ha_secret (sv_verifier srv) = ha_secret (cl_signer c)" and "clock_ok now"
    and "\<forall>c \<in> set i. \<not> ctl_byte c \<and> c \<noteq> CHR ''#'' \<and> c \<noteq> CHR '' ''"
    and "\<And>m. GetFileMeta B db (sent_id i) = Inr m \<Longrightarrow> valid_utf8 (fm_FileID m)"
  shows "FetchMeta net c now host i =
    (if skewed now' (now_Unix now) then Inl (ErrStatus 403)
     else case GetFileMeta B db (sent_id i) of Inl _ \<Rightarrow> Inl (ErrStatus 404) | Inr m \<Rightarrow> Inr m)"
proof -
  let ?req = "SignHTTP (cl_signer c) now \<lparr>rq_Method = ''GET'', rq_URI = ''/meta?id='' @ i, rq_Header = (\<lambda>_. [])\<rparr>"
  have sp: "CHR '' '' \<notin> set (''/meta?id='' @ i)" using assms(5) by auto
  have "snd (mux_serve S partial B db srv sem f now' ?req) = handleGetMeta B db srv now' ?req"
    by (simp add: mux_serve_def SignHTTP_fields meta_uri sp del: append_Cons append_Nil set_append)
  then have net: "net host ?req = Inr (handleGetMeta B db srv now' ?req)"
    using assms(1) by (simp add: http_serves_def)
  have req: "http_NewRequest (meta_url host i) = Some (host,
    \<lparr>rq_Method = ''GET'', rq_URI = ''/meta?id='' @ i, rq_Header = (\<lambda>_. [])\<rparr>)"
    using assms(2,5) by (intro meta_request) auto
  have dec: "Option.bind (json_Decode (json_Encode (FileMeta_json m))) FileMeta_of_json = Some m"
    if "GetFileMeta B db (sent_id i) = Inr m" for m
    using assms(6) [OF that] by (simp add: json_Decode_Encode)
  show ?thesis
    using dec net
    by (simp add: FetchMeta_def req handleGetMeta_def Verify_Sign_iff [OF assms(3,4)] SignHTTP_fields
        meta_uri http_Error_def split: sum.split del: append_Cons append_Nil bind_eq_Some_conv)
qed

lemma FetchMeta_blank:
  assumes "http_serves net host S partial B db srv sem f now'" and "plain_host host"
    and "\<forall>c \<in> set i. \<not> ctl_byte c \<and> c \<noteq> CHR ''#''" and "CHR '' '' \<in> set i"
  shows "FetchMeta net c now host i = Inl (ErrStatus 400)"
proof -
  let ?req = "SignHTTP (cl_signer c) now \<lparr>rq_Method = ''GET'', rq_URI = ''/meta?id='' @ i, rq_Header = (\<lambda>_. [])\<rparr>"
  have "snd (mux_serve S partial B db srv sem f now' ?req) = http_Error no_header ''400 Bad Request'' 400"
    using assms(4) by (simp add: mux_serve_def SignHTTP_fields)
  then have "net host ?req = Inr (http_Error no_header ''400 Bad Request'' 400)"
    using assms(1) by (simp add: http_serves_def)
  then show ?thesis
    by (simp add: FetchMeta_def meta_request [OF assms(2,3)] http_Error_def del: append_Cons append_Nil)
qed

lemma dec_entries_json: "dec_entries (map CatalogEntry_json es) = Some es"
  by (induction es) simp_all

lemma catalog_of_json_json: "catalog_of_json (catalog_json es) = Some es"
  by (simp add: catalog_of_json_def catalog_json_def dec_entries_json)

lemma FetchCatalog_served:
  assumes "http_serves net host S partial B db srv sem f now'" and "plain_host host"
    and "ha_secret (sv_verifier srv) = ha_secret (cl_signer c)" and "clock_ok now"
    and "\<not> skewed now' (now_Unix now)" and "ListCatalog B db = Inr es"
    and "\<forall>e \<in> set es. valid_utf8 (ce_FileID e)"
  shows "FetchCatalog net c now host = Inr es"
proof -
  let ?req = "SignHTTP (cl_signer c) now \<lparr>rq_Method = ''GET'', rq_URI = ''/catalog'', rq_Header = (\<lambda>_. [])\<rparr>"
  have req: "http_NewRequest (catalog_url host) = Some (host,
    \<lparr>rq_Method = ''GET'', rq_URI = ''/catalog'', rq_Header = (\<lambda>_. [])\<rparr>)"
    using http_NewRequest_target [OF assms(2), of "''catalog''"] by (simp add: catalog_url_def ctl_byte_def)
  have "uri_path ''/catalog'' = ''/catalog''" by (simp add: uri_path_def cut_def)
  then have "snd (mux_serve S partial B db srv sem f now' ?req) = handleGetCatalog B db srv now' ?req"
    by (simp add: mux_serve_def SignHTTP_fields)
  then have net: "net host ?req = Inr (handleGetCatalog B db srv now' ?req)"
    using assms(1) by (simp add: http_serves_def)
  have "json_ok (catalog_json es)" using assms(7) by (auto simp: catalog_json_def)
  then have dec: "json_Decode (json_Encode (catalog_json es)) = Some (catalog_json es)"
    by (rule json_Decode_Encode)
  show ?thesis
    using net assms(5,6)
    by (simp add: FetchCatalog_def req handleGetCatalog_def Verify_Sign_iff [OF assms(3,4)] dec
        catalog_of_json_json)
qed

section \<open>Properties\<close>

text \<open>A semaphore that counts, and a network that reaches one server.\<close>

definition count_sem :: "nat semaphore" where
  "count_sem = \<lparr>sem_TryAcquire = (\<lambda>n. if 0 < n then (True, n - 1) else (False, n)), sem_Release = Suc\<rparr>"

definition demo_server :: Server where
  "demo_server = NewServer ''0.0.0.0:9100'' (NewAuth ''k'' ''s'') demo_store 50"

definition demo_net :: "nat \<Rightarrow> (bytes \<times> bytes) list \<Rightarrow> net" where
  "demo_net n db host req = Inr (snd (mux_serve count_sem (\<lambda>_ _. http_Error no_header [] 416) list_bolt db
     demo_server n empty_cas_fs 5000000000 req))"

definition demo_dclient :: Client where
  "demo_dclient = NewClient (NewAuth ''k'' ''c'') demo_store"

lemma demo_net_serves:
  "http_serves (demo_net n db) host count_sem (\<lambda>_ _. http_Error no_header [] 416) list_bolt db demo_server n
     empty_cas_fs 5000000000"
  by (simp add: http_serves_def demo_net_def)

lemma demo_host: "plain_host ''10.0.0.2:9100''"
  by (simp add: plain_host_def host_ok_def host_char_def valid_port_def ctl_byte_def digit_val_def)

lemma demo_secrets:
  "ha_secret (sv_verifier demo_server) = ha_secret (cl_signer demo_dclient)" "sv_cas demo_server = demo_store"
  by (simp_all add: demo_server_def NewServer_def demo_dclient_def NewClient_def NewAuth_def)

text \<open>C20. Fetching a chunk from a node that shares the secret: with clocks in step it yields the bytes
  stored under that hash, which hash to it, or the not-found error if the node has none; a busy node
  gives the rate-limit error and a skewed clock the unauthorized error.\<close>

theorem fetch_chunk_end_to_end:
  assumes "http_serves net host S partial B db srv sem f now'" and "plain_host host"
    and "ha_secret (sv_verifier srv) = ha_secret (cl_signer c)" and "clock_ok now" and "clock_ok now'"
    and "no_faults f" and "cas_inv (sv_cas srv) f"
  shows "(now - 30000000000 \<le> now' \<and> now' \<le> now + 29000000000 \<longrightarrow>
      FetchChunk net c now host h =
        (if fst (sem_TryAcquire S sem)
         then case stored (sv_cas srv) f h of None \<Rightarrow> Inl ErrChunkNotFound | Some d \<Rightarrow> Inr d
         else Inl ErrRateLimited)) \<and>
    (now' < now - 31000000000 \<or> now + 30000000000 < now' \<longrightarrow>
      FetchChunk net c now host h = Inl ErrUnauthorized) \<and>
    (FetchChunk net c now host h = Inr d \<longrightarrow> sha256 d = h)"
proof -
  have "sha256 d = h" if "FetchChunk net c now host h = Inr d"
    using that assms(7) cas.content_hash [of "sv_cas srv" f h d]
    by (auto simp: FetchChunk_served [OF assms(1-4,6,7)] split: if_splits option.splits)
  then show ?thesis
    using not_skewed_window [OF assms(4,5)] skewed_outside [OF assms(4,5)]
    by (simp add: FetchChunk_served [OF assms(1-4,6,7)])
qed

theorem fetch_chunk_end_to_end_witness:
  "FetchChunk (demo_net 1 []) demo_dclient 4000000000 ''10.0.0.2:9100'' zero32 = Inl ErrChunkNotFound \<and>
   FetchChunk (demo_net 0 []) demo_dclient 4000000000 ''10.0.0.2:9100'' zero32 = Inl ErrRateLimited \<and>
   FetchChunk (demo_net 1 []) demo_dclient 90000000000 ''10.0.0.2:9100'' zero32 = Inl ErrUnauthorized"
proof -
  have c: "clock_ok 4000000000" "clock_ok 5000000000" "clock_ok 90000000000" by (simp_all add: clock_ok_def)
  have i: "cas_inv (sv_cas demo_server) empty_cas_fs" by (simp add: demo_secrets)
  note e = fetch_chunk_end_to_end [OF demo_net_serves demo_host demo_secrets(1) _ c(2) empty_cas_fs_ok(1) i]
  show ?thesis
    using e [of 4000000000 1 "[]" zero32] e [of 4000000000 0 "[]" zero32] e [of 90000000000 1 "[]" zero32] c
    by (simp add: demo_secrets count_sem_def)
qed

text \<open>Fetching metadata and the catalog from a node that shares the secret, with clocks in step: for
  an identifier whose bytes are all safe in a query the metadata stored for it comes back unchanged,
  or status 404 if there is none; the catalog comes back as the server lists it.\<close>

theorem fetch_meta_end_to_end:
  assumes "http_serves net host S partial B db srv sem f now'" and "plain_host host"
    and "ha_secret (sv_verifier srv) = ha_secret (cl_signer c)" and "clock_ok now" and "clock_ok now'"
    and "now - 30000000000 \<le> now'" and "now' \<le> now + 29000000000"
    and "\<forall>c \<in> set i. query_safe c"
  shows "(\<forall>m. GetFileMeta B db i = Inr m \<and> valid_utf8 (fm_FileID m) \<longrightarrow> FetchMeta net c now host i = Inr m) \<and>
    (\<forall>e. GetFileMeta B db i = Inl e \<longrightarrow> FetchMeta net c now host i = Inl (ErrStatus 404)) \<and>
    (\<forall>es. ListCatalog B db = Inr es \<and> (\<forall>e \<in> set es. valid_utf8 (ce_FileID e)) \<longrightarrow>
      FetchCatalog net c now host = Inr es)"
proof -
  have ns: "\<not> skewed now' (now_Unix now)" using assms(4-7) by (rule not_skewed_window)
  have safe: "\<forall>c \<in> set i. \<not> ctl_byte c \<and> c \<noteq> CHR ''#'' \<and> c \<noteq> CHR '' ''"
    using assms(8) by (auto simp: query_safe_def)
  have "FetchMeta net c now host i = (case GetFileMeta B db i of Inl _ \<Rightarrow> Inl (ErrStatus 404) | Inr m \<Rightarrow> Inr m)"
    if "\<And>m. GetFileMeta B db i = Inr m \<Longrightarrow> valid_utf8 (fm_FileID m)"
    using FetchMeta_served [OF assms(1-4) safe] that ns by (simp add: sent_id_safe [OF assms(8)])
  then show ?thesis using FetchCatalog_served [OF assms(1-4) ns] by auto
qed

theorem fetch_meta_end_to_end_witness:
  "FetchMeta (demo_net 1 []) demo_dclient 4000000000 ''10.0.0.2:9100'' ''dir/a=1.txt'' = Inl (ErrStatus 404) \<and>
   FetchCatalog (demo_net 1 []) demo_dclient 4000000000 ''10.0.0.2:9100'' = Inr []"
proof -
  have c: "clock_ok 4000000000" "clock_ok 5000000000" by (simp_all add: clock_ok_def)
  have "\<forall>c \<in> set ''dir/a=1.txt''. query_safe c" by (simp add: query_safe_def ctl_byte_def)
  from fetch_meta_end_to_end [OF demo_net_serves [of 1 "[]"] demo_host demo_secrets(1) c _ _ this]
  show ?thesis by (simp add: GetFileMeta_def ListCatalog_def list_bolt_def)
qed



text \<open>Whatever the network and the peer answer, fetching a chunk into the store keeps the store's
  invariant and everything in it, and reports success only when the chunk is there.\<close>

lemma fetch_single_safe:
  assumes "cas_inv (cl_cas c) f"
  shows "cas_inv (cl_cas c) (fst (FetchSingle net c f now peer h)) \<and>
    (stored (cl_cas c) f h' \<noteq> None \<longrightarrow> stored (cl_cas c) (fst (FetchSingle net c f now peer h)) h' \<noteq> None) \<and>
    (snd (FetchSingle net c f now peer h) = Inr () \<longrightarrow>
      stored (cl_cas c) (fst (FetchSingle net c f now peer h)) h \<noteq> None)"
proof -
  have *: "(\<exists>e. FetchSingle net c f now peer h = (f, Inl e)) \<or>
    (\<exists>d. FetchSingle net c f now peer h = (case Put (cl_cas c) f h d of
       (f1, Inl e) \<Rightarrow> (f1, Inl (ErrCas e)) | (f1, Inr _) \<Rightarrow> (f1, Inr ())))"
    unfolding FetchSingle_def Let_def by (auto split: option.split sum.split)
  have put: "fst X = fst P \<and> (snd X = Inr () \<longrightarrow> snd P = Inr ())"
    if "X = (case P of (f1, Inl e) \<Rightarrow> (f1, Inl (ErrCas e)) | (f1, Inr _) \<Rightarrow> (f1, Inr ()))"
    for X :: "fs \<times> (client_error, unit) result" and P
    using that by (auto split: prod.splits sum.splits)
  from * consider e where "FetchSingle net c f now peer h = (f, Inl e)"
    | d where "fst (FetchSingle net c f now peer h) = fst (Put (cl_cas c) f h d)"
        "snd (FetchSingle net c f now peer h) = Inr () \<longrightarrow> snd (Put (cl_cas c) f h d) = Inr ()"
    using put by blast
  then show ?thesis
  proof cases
    case 1
    with assms show ?thesis by simp
  next
    case (2 d)
    then show ?thesis
      using cas.put_inv [OF assms, of h d] cas.put_mono [OF assms, of h' h d] cas.put_stores [OF assms, of h d]
      by metis
  qed
qed

end
