(* ===== verification/GoFloat.thy ===== *)
theory GoFloat
  imports Prelude Complex_Main "HOL-Library.Log_Nat"
begin

text \<open>
  Go's \<^verbatim>\<open>float64\<close> arithmetic where the program uses it: every operation is the exact rational
  result rounded by \<open>fl64\<close>, to nearest with ties to even and 53 significant bits.  The values
  involved are far from the overflow and underflow ranges, so exponents are unbounded here.
  \<open>fl64_err\<close> is the relative error bound the other theories rest on.
\<close>

definition round_even :: "rat \<Rightarrow> int" where
  "round_even y = (let f = floor y; r = y - of_int f in
     if r < 1 / 2 then f else if 1 / 2 < r then f + 1 else if even f then f else f + 1)"

definition rat_exponent :: "rat \<Rightarrow> int" where
  "rat_exponent x = (let (p, q) = quotient_of \<bar>x\<bar>; k = bitlen p - bitlen q in
     if 2 powi k \<le> \<bar>x\<bar> then k else k - 1)"

definition fl64 :: "rat \<Rightarrow> rat" where
  "fl64 x = (if x = 0 then 0 else
     let u = 2 powi (rat_exponent x - 52) in of_int (round_even (x / u)) * u)"

text \<open>Conversion to an integer type truncates towards zero.\<close>

definition rat_trunc :: "rat \<Rightarrow> int" where
  "rat_trunc x = (if 0 \<le> x then floor x else - floor (- x))"

lemma round_even_err: "\<bar>of_int (round_even y) - y\<bar> \<le> 1 / 2"
proof -
  have "of_int (floor y) \<le> y" "y < of_int (floor y) + 1" using floor_correct [of y] by simp_all
  then show ?thesis unfolding round_even_def Let_def by (simp add: abs_if split: if_splits) linarith
qed

lemma rat_exponent_le:
  assumes "x \<noteq> 0"
  shows "2 powi (rat_exponent x) \<le> \<bar>x\<bar>"
proof -
  obtain p q where pq: "quotient_of \<bar>x\<bar> = (p, q)" by (rule prod.exhaust)
  have q: "0 < q" using quotient_of_denom_pos [OF pq] .
  have x: "\<bar>x\<bar> = of_int p / of_int q" by (rule quotient_of_div [OF pq])
  have p: "0 < p"
  proof (rule ccontr)
    assume "\<not> 0 < p"
    then have "of_int p / of_int q \<le> (0 :: rat)" using q by (simp add: divide_nonpos_pos)
    with x assms show False by simp
  qed
  let ?k = "bitlen p - bitlen q"
  have bp: "(2 :: rat) ^ nat (bitlen p - 1) \<le> of_int p"
    using bitlen_bounds [OF p] of_int_le_iff [of "2 ^ nat (bitlen p - 1)" p, where ?'a = rat] by simp
  have bq: "of_int q \<le> (2 :: rat) ^ nat (bitlen q)"
    using bitlen_bounds [OF q] of_int_le_iff [of q "2 ^ nat (bitlen q)", where ?'a = rat] by simp
  have bitlen_pos: "0 < bitlen m" if "0 < m" for m :: int
    using bitlen_bounds [OF that] that by (cases "bitlen m \<le> 0") simp_all
  then have pos: "0 < bitlen p" "0 < bitlen q" using p q by simp_all
  have "(2 :: rat) powi (?k - 1) = 2 ^ nat (bitlen p - 1) / 2 ^ nat (bitlen q)"
  proof -
    have "(2 :: rat) powi (?k - 1) = 2 powi (bitlen p - 1) / 2 powi bitlen q"
      by (simp add: power_int_diff [symmetric] algebra_simps)
    then show ?thesis using pos by (simp add: power_int_def)
  qed
  also have "\<dots> \<le> of_int p / 2 ^ nat (bitlen q)"
    by (rule divide_right_mono [OF bp]) simp
  also have "\<dots> \<le> of_int p / of_int q"
    by (rule divide_left_mono [OF bq]) (use p q in simp_all)
  finally have "2 powi (?k - 1) \<le> \<bar>x\<bar>" using x by simp
  then show ?thesis by (simp add: rat_exponent_def pq Let_def)
qed

lemma fl64_err: "\<bar>fl64 x - x\<bar> \<le> \<bar>x\<bar> / 2 ^ 53"
proof (cases "x = 0")
  case False
  let ?u = "2 powi (rat_exponent x - 52) :: rat"
  have u: "0 < ?u" by simp
  have "fl64 x - x = (of_int (round_even (x / ?u)) - x / ?u) * ?u"
    using False by (simp add: fl64_def Let_def left_diff_distrib)
  then have "\<bar>fl64 x - x\<bar> = \<bar>of_int (round_even (x / ?u)) - x / ?u\<bar> * ?u"
    using u by (simp add: abs_mult)
  also have "\<dots> \<le> 1 / 2 * ?u" using u by (intro mult_right_mono round_even_err) simp
  also have "\<dots> = 2 powi rat_exponent x / 2 ^ 53"
    by (simp add: power_int_diff)
  also have "\<dots> \<le> \<bar>x\<bar> / 2 ^ 53" using rat_exponent_le [OF False] by (intro divide_right_mono) simp_all
  finally show ?thesis .
qed (simp add: fl64_def)

lemma fl64_zero [simp]: "fl64 0 = 0"
  by (simp add: fl64_def)

lemma rat_trunc_err: "\<bar>of_int (rat_trunc x) - x\<bar> < 1"
  unfolding rat_trunc_def by (cases "0 \<le> x") (simp_all, linarith+)

end
