(* ===== verification/Control.thy ===== *)
theory Control
  imports MetaStore Cas Auth GoFloat
begin

text \<open>
  \<^verbatim>\<open>internal/control\<close>: the gRPC control service.  The messages are the fields of
  \<^verbatim>\<open>proto/control.proto\<close>; \<open>control_dispatch\<close> is the generated server glue of
  \<^verbatim>\<open>proto/control_grpc.pb.go\<close> (method table, decoding, interceptor, handler).  The gRPC library
  itself is a parameter: \<open>invoke\<close> carries a method, its metadata and the request to a peer and
  brings the answer or an error back.
\<close>

section \<open>Messages\<close>

record DiffRequest =
  dq_FileId :: gostring
  dq_LocalMerkleRoot :: bytes
  dq_KnownChunkHashes :: "bytes list"

record DiffResponse =
  dp_FileId :: gostring
  dp_RemoteMerkleRoot :: bytes
  dp_IsSynced :: bool
  dp_MissingChunkHashes :: "bytes list"

record PingResponse =
  pg_NodeId :: gostring
  pg_UptimeSecs :: uint64

datatype control_request = DiffReq DiffRequest | AvailReq "bytes list" | PingReq gostring

datatype control_response = DiffResp DiffResponse | AvailResp "bytes list" | PingResp PingResponse

section \<open>The server\<close>

record ControlServer =
  cs_nodeID :: gostring
  cs_casStore :: CASBlobStore
  cs_startTime :: int

definition NewControlServer :: "gostring \<Rightarrow> CASBlobStore \<Rightarrow> int \<Rightarrow> ControlServer" where
  "NewControlServer nodeID cas now = \<lparr>cs_nodeID = nodeID, cs_casStore = cas, cs_startTime = now\<rparr>"

text \<open>The raw hashes of the right length, as keys of the set of known chunks.\<close>

definition known_set :: "bytes list \<Rightarrow> hash32 set" where
  "known_set raw = set (map copy32 (filter (\<lambda>r. length r = 32) raw))"

definition DiffMerkleTree :: "'db bolt \<Rightarrow> 'db \<Rightarrow> DiffRequest \<Rightarrow> DiffResponse" where
  "DiffMerkleTree B db req =
     (case GetFileMeta B db (dq_FileId req) of
        Inl _ \<Rightarrow> \<lparr>dp_FileId = dq_FileId req, dp_RemoteMerkleRoot = [], dp_IsSynced = False,
                  dp_MissingChunkHashes = []\<rparr>
      | Inr meta \<Rightarrow>
          if length (dq_LocalMerkleRoot req) = 32 \<and> bytes32 (fm_MerkleRoot meta) = dq_LocalMerkleRoot req
          then \<lparr>dp_FileId = dq_FileId req, dp_RemoteMerkleRoot = bytes32 (fm_MerkleRoot meta),
                dp_IsSynced = True, dp_MissingChunkHashes = []\<rparr>
          else let known = known_set (dq_KnownChunkHashes req) in
            \<lparr>dp_FileId = dq_FileId req, dp_RemoteMerkleRoot = bytes32 (fm_MerkleRoot meta),
             dp_IsSynced = False,
             dp_MissingChunkHashes = map bytes32 (filter (\<lambda>h. h \<notin> known) (fm_ChunkHashes meta))\<rparr>)"

definition GetChunkAvailability :: "CASBlobStore \<Rightarrow> fs \<Rightarrow> bytes list \<Rightarrow> bytes list" where
  "GetChunkAvailability cas f hashes =
     filter (\<lambda>raw. length raw = 32 \<and> is_ok (GetFile cas f (copy32 raw))) hashes"

text \<open>\<^verbatim>\<open>uint64(time.Since(start).Seconds())\<close>: whole seconds plus a fraction, as floats.\<close>

definition dur_Seconds :: "int \<Rightarrow> rat" where
  "dur_Seconds d = fl64 (fl64 (of_int (d sdiv 1000000000)) +
     fl64 (fl64 (of_int (d smod 1000000000)) / 1000000000))"

definition Ping :: "ControlServer \<Rightarrow> int \<Rightarrow> PingResponse" where
  "Ping s now = \<lparr>pg_NodeId = cs_nodeID s,
     pg_UptimeSecs = word_of_int (rat_trunc (dur_Seconds (time_Sub now (cs_startTime s))))\<rparr>"

definition m_Diff :: gostring where "m_Diff = ''/control.ControlService/DiffMerkleTree''"
definition m_Avail :: gostring where "m_Avail = ''/control.ControlService/GetChunkAvailability''"
definition m_Ping :: gostring where "m_Ping = ''/control.ControlService/Ping''"

text \<open>The generated handlers: find the method, decode the request, run the interceptor around the
  implementation.  A request of another type does not decode.\<close>

definition control_dispatch ::
  "bytes \<Rightarrow> ControlServer \<Rightarrow> 'db bolt \<Rightarrow> 'db \<Rightarrow> fs \<Rightarrow> int \<Rightarrow> gostring \<Rightarrow> metadata option \<Rightarrow> control_request
   \<Rightarrow> (grpc_code, control_response) result" where
  "control_dispatch secret srv B db f now meth md req =
     (if meth = m_Diff then (case req of
          DiffReq r \<Rightarrow> UnaryServerInterceptor secret now m_Diff md (\<lambda>_. DiffResp (DiffMerkleTree B db r))
        | _ \<Rightarrow> Inl Internal)
      else if meth = m_Avail then (case req of
          AvailReq hs \<Rightarrow> UnaryServerInterceptor secret now m_Avail md
            (\<lambda>_. AvailResp (GetChunkAvailability (cs_casStore srv) f hs))
        | _ \<Rightarrow> Inl Internal)
      else if meth = m_Ping then (case req of
          PingReq n \<Rightarrow> UnaryServerInterceptor secret now m_Ping md (\<lambda>_. PingResp (Ping srv now))
        | _ \<Rightarrow> Inl Internal)
      else Inl Unimplemented)"

section \<open>The client\<close>

type_synonym invoker =
  "gostring \<Rightarrow> metadata \<Rightarrow> control_request \<Rightarrow> (grpc_code, control_response) result"

record ControlClient =
  cc_conn :: invoker
  cc_secret :: bytes
  cc_nodeID :: gostring

text \<open>\<open>dial\<close> is \<^verbatim>\<open>grpc.DialContext\<close> with its five-second limit: a connection or an error.\<close>

definition NewControlClient ::
  "(gostring \<Rightarrow> (gostring, invoker) result) \<Rightarrow> gostring \<Rightarrow> bytes \<Rightarrow> gostring \<Rightarrow> (gostring, ControlClient) result" where
  "NewControlClient dial targetAddr secret nodeID =
     (case dial targetAddr of
        Inl e \<Rightarrow> Inl e
      | Inr conn \<Rightarrow> Inr \<lparr>cc_conn = conn, cc_secret = secret, cc_nodeID = nodeID\<rparr>)"

definition client_call ::
  "ControlClient \<Rightarrow> int \<Rightarrow> gostring \<Rightarrow> control_request \<Rightarrow> (grpc_code, control_response) result" where
  "client_call c now meth req =
     UnaryClientInterceptor (cc_secret c) (cc_nodeID c) now meth (\<lambda>md. cc_conn c meth md req) []"

definition Diff ::
  "ControlClient \<Rightarrow> int \<Rightarrow> gostring \<Rightarrow> bytes \<Rightarrow> bytes list \<Rightarrow> (grpc_code, DiffResponse) result" where
  "Diff c now fileID localRoot knownChunks =
     (case client_call c now m_Diff (DiffReq \<lparr>dq_FileId = fileID, dq_LocalMerkleRoot = localRoot,
         dq_KnownChunkHashes = knownChunks\<rparr>) of
        Inl e \<Rightarrow> Inl e
      | Inr (DiffResp r) \<Rightarrow> Inr r
      | Inr _ \<Rightarrow> Inl Internal)"

definition CheckAvailability ::
  "ControlClient \<Rightarrow> int \<Rightarrow> bytes list \<Rightarrow> (grpc_code, bytes list) result" where
  "CheckAvailability c now chunks =
     (case client_call c now m_Avail (AvailReq chunks) of
        Inl e \<Rightarrow> Inl e
      | Inr (AvailResp hs) \<Rightarrow> Inr hs
      | Inr _ \<Rightarrow> Inl Internal)"

section \<open>What the server answers\<close>

lemma known_set_bytes32 [simp]: "known_set (map bytes32 hs) = set hs"
  by (induction hs) (auto simp: known_set_def copy32_bytes32)

lemma Diff_unknown_file:
  "GetFileMeta B db i = Inl e \<Longrightarrow>
   DiffMerkleTree B db \<lparr>dq_FileId = i, dq_LocalMerkleRoot = r, dq_KnownChunkHashes = k\<rparr> =
     \<lparr>dp_FileId = i, dp_RemoteMerkleRoot = [], dp_IsSynced = False, dp_MissingChunkHashes = []\<rparr>"
  by (simp add: DiffMerkleTree_def)

text \<open>A connection to a server of this model: the library delivers method, metadata and request
  unchanged and returns the server's answer.\<close>

definition serves :: "invoker \<Rightarrow> bytes \<Rightarrow> ControlServer \<Rightarrow> 'db bolt \<Rightarrow> 'db \<Rightarrow> fs \<Rightarrow> int \<Rightarrow> bool" where
  "serves invoke secret srv B db f now \<longleftrightarrow>
     (\<forall>meth md req. invoke meth md req = control_dispatch secret srv B db f now meth (Some md) req)"

lemma methods_distinct [simp]: "m_Avail \<noteq> m_Diff" "m_Ping \<noteq> m_Diff" "m_Ping \<noteq> m_Avail"
  by (simp_all add: m_Diff_def m_Avail_def m_Ping_def)

lemma client_call_md:
  "client_call c now meth req =
   cc_conn c meth (UnaryClientInterceptor (cc_secret c) (cc_nodeID c) now meth (\<lambda>m. m) []) req"
  by (simp add: client_call_def UnaryClientInterceptor_def Let_def)

lemma client_call_served:
  assumes "serves (cc_conn c) (cc_secret c) srv B db f now'" and "clock_ok now"
  shows "client_call c now m_Diff (DiffReq q) = (if skewed now' (now_Unix now) then Inl Unauthenticated
      else Inr (DiffResp (DiffMerkleTree B db q)))"
    and "client_call c now m_Avail (AvailReq hs) = (if skewed now' (now_Unix now) then Inl Unauthenticated
      else Inr (AvailResp (GetChunkAvailability (cs_casStore srv) f hs)))"
    and "client_call c now m_Ping (PingReq n) = (if skewed now' (now_Unix now) then Inl Unauthenticated
      else Inr (PingResp (Ping srv now')))"
  using assms by (simp_all add: client_call_md serves_def control_dispatch_def Server_Client md_Get_def)

lemma Diff_served:
  assumes "serves (cc_conn c) (cc_secret c) srv B db f now'" and "clock_ok now"
  shows "Diff c now i r k = (if skewed now' (now_Unix now) then Inl Unauthenticated
    else Inr (DiffMerkleTree B db \<lparr>dq_FileId = i, dq_LocalMerkleRoot = r, dq_KnownChunkHashes = k\<rparr>))"
  by (simp add: Diff_def client_call_served [OF assms])

lemma CheckAvailability_served:
  assumes "serves (cc_conn c) (cc_secret c) srv B db f now'" and "clock_ok now"
  shows "CheckAvailability c now hs = (if skewed now' (now_Unix now) then Inl Unauthenticated
    else Inr (GetChunkAvailability (cs_casStore srv) f hs))"
  by (simp add: CheckAvailability_def client_call_served [OF assms])

section \<open>Properties\<close>


definition demo_meta :: FileMeta where
  "demo_meta = \<lparr>fm_FileID = ''a'', fm_MerkleRoot = zero32, fm_LamportTS = 1,
     fm_ChunkHashes = [zero32, sha256 ''x''], fm_SizeBytes = 2\<rparr>"

definition demo_db :: "(bytes \<times> bytes) list" where
  "demo_db = [(''a'', json_print (FileMeta_json demo_meta))]"

lemma valid_a [simp]: "valid_utf8 ''a''"
  by (rule ascii_valid_utf8) simp

lemma demo_db_get: "GetFileMeta list_bolt demo_db ''a'' = Inr demo_meta"
proof -
  have "FileMeta_Unmarshal (json_print (FileMeta_json demo_meta)) = Some demo_meta"
    by (rule metac.dec_enc) (simp add: demo_meta_def)
  then show ?thesis by (simp add: GetFileMeta_def list_bolt_def demo_db_def)
qed


text \<open>C21. A control call between two nodes with the same secret and clocks within the window passes
  both interceptors and returns what the handler computes; with clocks further apart the handler is
  not reached and the caller gets \<^verbatim>\<open>Unauthenticated\<close>.\<close>

theorem control_call_end_to_end:
  assumes "serves (cc_conn c) (cc_secret c) srv B db f now'" and "clock_ok now" and "clock_ok now'"
  shows "(now - 30000000000 \<le> now' \<and> now' \<le> now + 29000000000 \<longrightarrow>
      Diff c now i r k = Inr (DiffMerkleTree B db
        \<lparr>dq_FileId = i, dq_LocalMerkleRoot = r, dq_KnownChunkHashes = k\<rparr>) \<and>
      CheckAvailability c now hs = Inr (GetChunkAvailability (cs_casStore srv) f hs)) \<and>
    (now' < now - 31000000000 \<or> now + 30000000000 < now' \<longrightarrow>
      Diff c now i r k = Inl Unauthenticated \<and> CheckAvailability c now hs = Inl Unauthenticated)"
  using not_skewed_window [OF assms(2,3)] skewed_outside [OF assms(2,3)]
  by (simp add: Diff_served [OF assms(1,2)] CheckAvailability_served [OF assms(1,2)])

definition demo_client :: ControlClient where
  "demo_client = \<lparr>cc_conn = (\<lambda>meth md req. control_dispatch ''k'' (NewControlServer ''n'' demo_store 0)
      list_bolt demo_db empty_cas_fs 5000000000 meth (Some md) req), cc_secret = ''k'', cc_nodeID = ''c''\<rparr>"

theorem control_call_end_to_end_witness:
  "Diff demo_client 4000000000 ''a'' (bytes32 zero32) [] =
     Inr \<lparr>dp_FileId = ''a'', dp_RemoteMerkleRoot = bytes32 zero32, dp_IsSynced = True,
          dp_MissingChunkHashes = []\<rparr> \<and>
   Diff demo_client 40000000000 ''a'' (bytes32 zero32) [] = Inl Unauthenticated"
proof -
  have s: "serves (cc_conn demo_client) (cc_secret demo_client) (NewControlServer ''n'' demo_store 0)
      list_bolt demo_db empty_cas_fs 5000000000"
    by (simp add: serves_def demo_client_def)
  have c: "clock_ok 4000000000" "clock_ok 5000000000" "clock_ok 40000000000" by (simp_all add: clock_ok_def)
  have "DiffMerkleTree list_bolt demo_db \<lparr>dq_FileId = ''a'', dq_LocalMerkleRoot = bytes32 zero32,
      dq_KnownChunkHashes = []\<rparr> = \<lparr>dp_FileId = ''a'', dp_RemoteMerkleRoot = bytes32 zero32,
      dp_IsSynced = True, dp_MissingChunkHashes = []\<rparr>"
    by (simp add: DiffMerkleTree_def demo_db_get) (simp add: demo_meta_def)
  then show ?thesis
    using control_call_end_to_end [OF s c(1,2)] control_call_end_to_end [OF s c(3,2)] by simp
qed

end
