(* ===== verification/Scheduler.thy ===== *)
theory Scheduler
  imports Control "HOL-Library.Multiset"
begin

text \<open>
  \<^verbatim>\<open>internal/scheduler\<close>: which chunk to fetch next and from whom.  \<open>BuildRarityMap\<close>
  (\<^verbatim>\<open>rarest.go\<close>) asks every peer which of the missing chunks it has and sorts the chunks by
  the number of holders; the goroutines that ask may finish in any order, which is the argument
  \<open>order\<close>, and \<^verbatim>\<open>sort.Slice\<close> promises a sorted permutation and no more, which is the
  argument \<open>srt\<close> with \<open>sort_spec\<close>.  \<open>HealthTracker\<close> and \<open>CalcJitteredBackoff\<close>
  are \<^verbatim>\<open>backoff.go\<close>; the clock and the random number are arguments.
\<close>

section \<open>Rarest first\<close>

record ChunkRarity =
  cr_Hash :: bytes
  cr_Peers :: "gostring list"

type_synonym rarity_map = "gostring \<Rightarrow> gostring list"

text \<open>What one goroutine adds under the lock, and nothing if the peer cannot be asked.\<close>

definition ask_peer ::
  "(gostring \<Rightarrow> (gostring, invoker) result) \<Rightarrow> int \<Rightarrow> bytes \<Rightarrow> gostring \<Rightarrow> bytes list \<Rightarrow> gostring \<Rightarrow> bytes list" where
  "ask_peer dial now secret nodeID missingChunks peerAddr =
     (case NewControlClient dial peerAddr secret nodeID of
        Inl _ \<Rightarrow> []
      | Inr client \<Rightarrow> (case CheckAvailability client now missingChunks of Inl _ \<Rightarrow> [] | Inr hs \<Rightarrow> hs))"

fun add_avail :: "gostring \<Rightarrow> rarity_map \<Rightarrow> bytes list \<Rightarrow> rarity_map" where
  "add_avail peer rm [] = rm"
| "add_avail peer rm (hash # hs) =
     (let key = hex_EncodeToString hash in add_avail peer (rm(key := rm key @ [peer])) hs)"

definition rarity_of :: "(gostring \<Rightarrow> bytes list) \<Rightarrow> gostring list \<Rightarrow> rarity_map" where
  "rarity_of avail order = foldl (\<lambda>rm peer. add_avail peer rm (avail peer)) (\<lambda>_. []) order"

definition rarity_list :: "rarity_map \<Rightarrow> bytes list \<Rightarrow> ChunkRarity list" where
  "rarity_list rm missingChunks =
     map (\<lambda>hash. \<lparr>cr_Hash = hash, cr_Peers = rm (hex_EncodeToString hash)\<rparr>) missingChunks"

definition BuildRarityMap ::
  "(ChunkRarity list \<Rightarrow> ChunkRarity list) \<Rightarrow> (gostring \<Rightarrow> (gostring, invoker) result) \<Rightarrow> int \<Rightarrow> gostring list
   \<Rightarrow> bytes list \<Rightarrow> bytes \<Rightarrow> gostring \<Rightarrow> ChunkRarity list" where
  "BuildRarityMap srt dial now order missingChunks secret nodeID =
     srt (rarity_list (rarity_of (ask_peer dial now secret nodeID missingChunks) order) missingChunks)"

definition peer_count :: "ChunkRarity \<Rightarrow> nat" where
  "peer_count c = length (cr_Peers c)"

definition sort_spec :: "(ChunkRarity list \<Rightarrow> ChunkRarity list) \<Rightarrow> bool" where
  "sort_spec srt \<longleftrightarrow> (\<forall>xs. mset (srt xs) = mset xs \<and> sorted (map peer_count (srt xs)))"

section \<open>Peer health\<close>

record PeerHealth =
  ph_IsHot :: bool
  ph_CooldownUntil :: int
  ph_FailCount :: int

type_synonym HealthTracker = "gostring \<Rightarrow> PeerHealth option"

definition NewHealthTracker :: HealthTracker where
  "NewHealthTracker = Map.empty"

definition MarkHot :: "HealthTracker \<Rightarrow> int \<Rightarrow> gostring \<Rightarrow> int \<Rightarrow> HealthTracker" where
  "MarkHot h now peerAddr retryAfter =
     (let p = (case h peerAddr of
            None \<Rightarrow> \<lparr>ph_IsHot = False, ph_CooldownUntil = 0, ph_FailCount = 0\<rparr> | Some p \<Rightarrow> p)
      in h(peerAddr \<mapsto> p\<lparr>ph_IsHot := True, ph_FailCount := ph_FailCount p + 1,
           ph_CooldownUntil := now + retryAfter\<rparr>))"

definition IsAvailable :: "HealthTracker \<Rightarrow> int \<Rightarrow> gostring \<Rightarrow> HealthTracker \<times> bool" where
  "IsAvailable h now peerAddr =
     (case h peerAddr of
        None \<Rightarrow> (h, True)
      | Some p \<Rightarrow>
          if ph_IsHot p then
            (if now > ph_CooldownUntil p
             then (h(peerAddr \<mapsto> p\<lparr>ph_IsHot := False, ph_FailCount := 0\<rparr>), True)
             else (h, False))
          else (h, True))"

section \<open>Jittered backoff\<close>

text \<open>\<open>rnd\<close> is the value of \<^verbatim>\<open>rand.Float64()\<close>.  The shift count is an unsigned conversion
  of \<open>attempt\<close>, so a negative one shifts everything out; the product wraps at 64 bits.\<close>

definition CalcJitteredBackoff :: "rat \<Rightarrow> int \<Rightarrow> int \<Rightarrow> int \<Rightarrow> int" where
  "CalcJitteredBackoff rnd attempt base maxd =
     (let attempt = (if attempt > 10 then 10 else attempt);
          multiplier = (if attempt < 0 then 0 else 2 ^ nat attempt);
          backoff = wrap64 (base * multiplier);
          backoff = (if backoff > maxd then maxd else backoff);
          jitterRange = fl64 (fl64 (of_int backoff) * (1 / 4));
          jitter = fl64 (fl64 (fl64 (rnd * 2) * jitterRange) - jitterRange);
          finalDuration = rat_trunc (fl64 (fl64 (of_int backoff) + jitter))
      in if finalDuration > maxd then maxd
         else if finalDuration < 1000000 then 1000000
         else finalDuration)"

section \<open>Who has a chunk\<close>

lemma add_avail_key:
  "add_avail peer rm hs (hex_EncodeToString h) =
   rm (hex_EncodeToString h) @ replicate (count_list hs h) peer"
proof (induction peer rm hs rule: add_avail.induct)
  case (2 peer rm x hs)
  have inj: "hex_EncodeToString x = hex_EncodeToString h \<longleftrightarrow> x = h" by (rule hexc.enc_eq_iff) simp_all
  show ?case
  proof (cases "x = h")
    case True
    with 2 show ?thesis by (simp add: Let_def fun_upd_def replicate_app_Cons_same)
  next
    case False
    with 2 inj show ?thesis by (simp add: Let_def fun_upd_def)
  qed
qed simp

lemma rarity_of_key:
  "rarity_of avail order (hex_EncodeToString h) =
   concat (map (\<lambda>p. replicate (count_list (avail p) h) p) order)"
proof -
  have "foldl (\<lambda>rm peer. add_avail peer rm (avail peer)) rm order (hex_EncodeToString h) =
    rm (hex_EncodeToString h) @ concat (map (\<lambda>p. replicate (count_list (avail p) h) p) order)" for rm
    by (induction order arbitrary: rm) (simp_all add: add_avail_key)
  then show ?thesis by (simp add: rarity_of_def)
qed

lemma rarity_peers:
  "p \<in> set (rarity_of avail order (hex_EncodeToString h)) \<longleftrightarrow> p \<in> set order \<and> h \<in> set (avail p)"
proof -
  have "0 < count_list (avail p) h \<longleftrightarrow> h \<in> set (avail p)" for p
    using count_notin [of h "avail p"] count_list_0_iff [of "avail p" h] by auto
  then show ?thesis by (auto simp: rarity_of_key)
qed

lemma BuildRarityMap_entry:
  assumes "sort_spec srt" and "c \<in> set (BuildRarityMap srt dial now order missing secret nodeID)"
  shows "cr_Hash c \<in> set missing"
    and "cr_Peers c = concat (map (\<lambda>p. replicate
      (count_list (ask_peer dial now secret nodeID missing p) (cr_Hash c)) p) order)"
proof -
  have "set (BuildRarityMap srt dial now order missing secret nodeID) =
    set (rarity_list (rarity_of (ask_peer dial now secret nodeID missing) order) missing)"
    using assms(1) by (metis BuildRarityMap_def set_mset_mset sort_spec_def)
  with assms(2) show "cr_Hash c \<in> set missing"
    and "cr_Peers c = concat (map (\<lambda>p. replicate
      (count_list (ask_peer dial now secret nodeID missing p) (cr_Hash c)) p) order)"
    by (auto simp: rarity_list_def rarity_of_key)
qed

lemma BuildRarityMap_mset:
  assumes "sort_spec srt"
  shows "mset (map cr_Hash (BuildRarityMap srt dial now order missing secret nodeID)) = mset missing"
proof -
  have "mset (BuildRarityMap srt dial now order missing secret nodeID) =
    mset (rarity_list (rarity_of (ask_peer dial now secret nodeID missing) order) missing)"
    using assms by (simp add: BuildRarityMap_def sort_spec_def)
  then show ?thesis by (simp add: rarity_list_def) (simp add: multiset.map_comp comp_def)
qed

lemma sort_key_spec: "sort_spec (sort_key peer_count)"
  by (simp add: sort_spec_def)

section \<open>The size of the jitter\<close>

lemma fl64_near:
  assumes "\<bar>x\<bar> \<le> c"
  shows "\<bar>fl64 x - x\<bar> \<le> c / 9007199254740992"
proof -
  have "\<bar>x\<bar> / 2 ^ 53 \<le> c / 2 ^ 53" using assms by (rule divide_right_mono) simp
  then have "\<bar>fl64 x - x\<bar> \<le> c / 2 ^ 53" using fl64_err [of x] by (rule order_trans [rotated])
  moreover have "(2 :: rat) ^ 53 = 9007199254740992" by simp
  ultimately show ?thesis by (simp only:)
qed

lemma fl64_nonneg: "0 \<le> x \<Longrightarrow> 0 \<le> fl64 x"
  using fl64_near [of x x] by linarith

text \<open>For a delay of up to \<open>2 ^ 48\<close> nanoseconds (three days) the rounding errors stay below one
  nanosecond.\<close>

lemma jitter_bound:
  fixes b :: int
  assumes "0 \<le> b" and "b \<le> 2 ^ 48" and "0 \<le> rnd" and "rnd < 1"
  defines "j \<equiv> fl64 (fl64 (of_int b) * (1 / 4))"
  shows "\<bar>fl64 (fl64 (of_int b) + fl64 (fl64 (fl64 (rnd * 2) * j) - j)) - of_int b\<bar> \<le> of_int b / 4 + 1"
proof -
  define B :: rat where "B = of_int b"
  have "of_int b \<le> (of_int (2 ^ 48) :: rat)" using assms(2) by (simp only: of_int_le_iff)
  then have B: "0 \<le> B" "B \<le> 281474976710656" using assms(1) by (simp_all add: B_def)
  define F where "F = fl64 B"
  have F: "0 \<le> F" "\<bar>F - B\<bar> \<le> 1 / 32"
    using fl64_nonneg [OF B(1)] fl64_near [of B 281474976710656] B unfolding F_def by linarith+
  have "\<bar>F * (1 / 4)\<bar> \<le> 140737488355328" using F B by linarith
  then have j: "0 \<le> j" "\<bar>j - F / 4\<bar> \<le> 1 / 64" "j \<le> 140737488355328"
    using fl64_nonneg [of "F * (1 / 4)"] fl64_near [of "F * (1 / 4)" 140737488355328] F B
    unfolding j_def F_def [symmetric] B_def [symmetric] by linarith+
  define r where "r = fl64 (rnd * 2)"
  have r: "0 \<le> r" "r \<le> 2 + 1 / 4503599627370496"
    using fl64_nonneg [of "rnd * 2"] fl64_near [of "rnd * 2" 2] assms(3,4) unfolding r_def by linarith+
  have "r * j \<le> (2 + 1 / 4503599627370496) * j" using r(2) j(1) by (rule mult_right_mono)
  then have rj: "0 \<le> r * j" "r * j \<le> 2 * j + 1 / 32"
    using r(1) j by (simp_all add: distrib_right)
  define m where "m = fl64 (r * j)"
  have "\<bar>r * j\<bar> \<le> 562949953421312" using rj j(3) by linarith
  then have m: "0 \<le> m" "m \<le> 2 * j + 3 / 32"
    using fl64_nonneg [OF rj(1)] fl64_near [of "r * j" 562949953421312] rj unfolding m_def by linarith+
  have "\<bar>m - j\<bar> \<le> 281474976710656" using m j by linarith
  from fl64_near [OF this] have jit: "\<bar>fl64 (m - j)\<bar> \<le> j + 1 / 8" using m j by linarith
  have "\<bar>F + fl64 (m - j)\<bar> \<le> 1125899906842624" using F B jit j by linarith
  from fl64_near [OF this] have "\<bar>fl64 (F + fl64 (m - j)) - B\<bar> \<le> B / 4 + 1"
    using jit j F by linarith
  then show ?thesis unfolding m_def r_def F_def B_def .
qed

lemma quarter_band:
  fixes T X B :: rat
  assumes "\<bar>X - B\<bar> \<le> B / 4 + 1" and "\<bar>T - X\<bar> < 1"
  shows "4 * (T - B) \<le> B + 8 \<and> 4 * (B - T) \<le> B + 8"
  using assms by (simp add: abs_le_iff abs_less_iff)

section \<open>Properties\<close>



text \<open>A peer marked hot is unavailable until its cooldown has passed and available from then on,
  other peers are not affected, and asking does not change the answer to the next question.\<close>

lemma health_cooldown:
  "snd (IsAvailable (MarkHot h now p retry) now' q) =
     (if q = p then now + retry < now' else snd (IsAvailable h now' q)) \<and>
   snd (IsAvailable (fst (IsAvailable h now p)) now q) = snd (IsAvailable h now q)"
  by (auto simp: MarkHot_def IsAvailable_def Let_def split: option.splits)



end
