(* ===== verification/Discovery.thy ===== *)
theory Discovery
  imports JsonStruct
begin

text \<open>
  \<^verbatim>\<open>internal/discovery/gossip.go\<close>: cluster membership and file announcements over
  \<^verbatim>\<open>hashicorp/memberlist\<close>.  The library is a parameter: what \<^verbatim>\<open>Create\<close> and
  \<^verbatim>\<open>Join\<close> return and the member list it reports are arguments; the broadcasts queued with it
  are the list \<open>gn_queue\<close>.  Everything the program itself does with announcements, node metadata
  and addresses is defined here.
\<close>

record FileAnnouncement =
  an_FileID :: gostring
  an_MerkleRoot :: hash32
  an_LamportTS :: uint64
  an_SourceNode :: gostring

record PeerInfo =
  pi_Name :: gostring
  pi_Addr :: gostring
  pi_HTTPPort :: int
  pi_GRPCPort :: int

definition HTTPAddr :: "PeerInfo \<Rightarrow> gostring" where
  "HTTPAddr p = pi_Addr p @ CHR '':'' # FormatInt (pi_HTTPPort p)"

definition GRPCAddr :: "PeerInfo \<Rightarrow> gostring" where
  "GRPCAddr p = pi_Addr p @ CHR '':'' # FormatInt (pi_GRPCPort p)"

section \<open>Announcements\<close>

definition FileAnnouncement_json :: "FileAnnouncement \<Rightarrow> json" where
  "FileAnnouncement_json a = JObj
     [(''FileID'', JStr (an_FileID a)),
      (''MerkleRoot'', hash_json (an_MerkleRoot a)),
      (''LamportTS'', u64_json (an_LamportTS a)),
      (''SourceNode'', JStr (an_SourceNode a))]"

definition FileAnnouncement_zero :: FileAnnouncement where
  "FileAnnouncement_zero = \<lparr>an_FileID = [], an_MerkleRoot = zero32, an_LamportTS = 0, an_SourceNode = []\<rparr>"

definition FileAnnouncement_fields :: "FileAnnouncement field list" where
  "FileAnnouncement_fields =
     [(''FileID'', \<lambda>j m. map_option (\<lambda>x. m\<lparr>an_FileID := x\<rparr>) (dec_string j (an_FileID m))),
      (''MerkleRoot'', \<lambda>j m. map_option (\<lambda>x. m\<lparr>an_MerkleRoot := x\<rparr>) (dec_hash j (an_MerkleRoot m))),
      (''LamportTS'', \<lambda>j m. map_option (\<lambda>x. m\<lparr>an_LamportTS := x\<rparr>) (dec_u64 j (an_LamportTS m))),
      (''SourceNode'', \<lambda>j m. map_option (\<lambda>x. m\<lparr>an_SourceNode := x\<rparr>) (dec_string j (an_SourceNode m)))]"

definition FileAnnouncement_Unmarshal :: "bytes \<Rightarrow> FileAnnouncement option" where
  "FileAnnouncement_Unmarshal msg =
     Option.bind (json_Unmarshal msg) (\<lambda>j. dec_struct FileAnnouncement_fields j FileAnnouncement_zero)"

section \<open>The node\<close>

record member =
  mb_Name :: gostring
  mb_Addr :: gostring
  mb_Meta :: bytes

text \<open>\<open>gn_list\<close>: the member list is there (between \<open>Start\<close> and \<open>Stop\<close>); \<open>gn_queue\<close>: the
  broadcast queue and what was queued; \<open>gn_onAnnounce\<close>: a callback is registered.\<close>

record GossipNode =
  gn_list :: bool
  gn_port :: int
  gn_name :: gostring
  gn_httpPort :: int
  gn_grpcPort :: int
  gn_queue :: "bytes list option"
  gn_onAnnounce :: bool

definition NewGossipNode :: "gostring \<Rightarrow> int \<Rightarrow> int \<Rightarrow> int \<Rightarrow> GossipNode" where
  "NewGossipNode name bindPort httpPort grpcPort =
     \<lparr>gn_list = False, gn_port = bindPort, gn_name = name, gn_httpPort = httpPort,
      gn_grpcPort = grpcPort, gn_queue = None, gn_onAnnounce = False\<rparr>"

definition OnAnnouncement :: "GossipNode \<Rightarrow> GossipNode" where
  "OnAnnouncement g = g\<lparr>gn_onAnnounce := True\<rparr>"

text \<open>\<open>create\<close> and \<open>join\<close> are the outcomes of the two library calls; the queue and the list stay
  set when joining fails.\<close>

definition gossip_Start ::
  "(gostring, unit) result \<Rightarrow> (gostring list \<Rightarrow> (gostring, unit) result) \<Rightarrow> GossipNode \<Rightarrow> gostring list
   \<Rightarrow> GossipNode \<times> (gostring, unit) result" where
  "gossip_Start create join g seedPeers =
     (let g1 = g\<lparr>gn_queue := Some []\<rparr> in
      case create of
        Inl e \<Rightarrow> (g1, Inl e)
      | Inr _ \<Rightarrow>
          (let g2 = g1\<lparr>gn_list := True\<rparr> in
           if seedPeers \<noteq> [] then
             (case join seedPeers of Inl e \<Rightarrow> (g2, Inl e) | Inr _ \<Rightarrow> (g2, Inr ()))
           else (g2, Inr ())))"

text \<open>The announcement handed to the callback, if any.\<close>

definition handleMsg :: "GossipNode \<Rightarrow> bytes \<Rightarrow> FileAnnouncement option" where
  "handleMsg g msg = (if \<not> gn_onAnnounce g then None else FileAnnouncement_Unmarshal msg)"

definition NotifyMsg :: "GossipNode \<Rightarrow> bytes \<Rightarrow> FileAnnouncement option" where
  "NotifyMsg g msg = (if msg = [] then None else handleMsg g msg)"

text \<open>\<^verbatim>\<open>QueueBroadcast\<close> removes the queued messages the new one says it invalidates.  A \<^verbatim>\<open>fileBroadcast\<close> is its
  message and invalidates nothing, so an announcement never displaces an earlier one.\<close>

definition Invalidates :: "bytes \<Rightarrow> bytes \<Rightarrow> bool" where
  "Invalidates b other = False"

definition Broadcast :: "GossipNode \<Rightarrow> FileAnnouncement \<Rightarrow> GossipNode" where
  "Broadcast g ann =
     (case gn_queue g of
        None \<Rightarrow> g
      | Some q \<Rightarrow>
          (let b = json_print (FileAnnouncement_json ann)
           in g\<lparr>gn_queue := Some (filter (\<lambda>other. \<not> Invalidates b other) q @ [b])\<rparr>))"

lemma Broadcast_queue:
  "Broadcast g ann = (case gn_queue g of None \<Rightarrow> g | Some q \<Rightarrow> g\<lparr>gn_queue := Some (q @ [json_print (FileAnnouncement_json ann)])\<rparr>)"
  by (simp add: Broadcast_def Invalidates_def split: option.split)

text \<open>What the library asks for when it has room in a packet; \<open>qget\<close> is its queue's own choice.\<close>

definition GetBroadcasts :: "(bytes list \<Rightarrow> int \<Rightarrow> int \<Rightarrow> bytes list) \<Rightarrow> GossipNode \<Rightarrow> int \<Rightarrow> int \<Rightarrow> bytes list" where
  "GetBroadcasts qget g overhead limit = (case gn_queue g of None \<Rightarrow> [] | Some q \<Rightarrow> qget q overhead limit)"

definition be16 :: "uint16 \<Rightarrow> bytes" where
  "be16 w = [byte_of (unat w div 256), byte_of (unat w mod 256)]"

definition be16_val :: "bytes \<Rightarrow> uint16" where
  "be16_val bs = word_of_nat (byte_val (bs ! 0) * 256 + byte_val (bs ! 1))"

definition NodeMeta :: "GossipNode \<Rightarrow> bytes" where
  "NodeMeta g = be16 (word_of_int (gn_httpPort g)) @ be16 (word_of_int (gn_grpcPort g))"

fun active_peers :: "gostring \<Rightarrow> member list \<Rightarrow> PeerInfo list" where
  "active_peers name [] = []"
| "active_peers name (m # ms) =
     (if mb_Name m = name then active_peers name ms
      else if length (mb_Meta m) \<noteq> 4 then active_peers name ms
      else \<lparr>pi_Name = mb_Name m, pi_Addr = mb_Addr m,
            pi_HTTPPort = uint (be16_val (take 2 (mb_Meta m))),
            pi_GRPCPort = uint (be16_val (drop 2 (mb_Meta m)))\<rparr> # active_peers name ms)"

text \<open>\<open>None\<close>: the list is nil and the call panics.\<close>

definition GetActivePeers :: "GossipNode \<Rightarrow> member list \<Rightarrow> PeerInfo list option" where
  "GetActivePeers g members = (if gn_list g then Some (active_peers (gn_name g) members) else None)"

definition gossip_Stop :: "GossipNode \<Rightarrow> GossipNode" where
  "gossip_Stop g = g\<lparr>gn_list := False\<rparr>"

section \<open>Round trips\<close>

lemma valid_key_SourceNode [simp]:
  "valid_utf8 ''FileID''" "valid_utf8 ''MerkleRoot''" "valid_utf8 ''LamportTS''" "valid_utf8 ''SourceNode''"
  by (rule ascii_valid_utf8, simp)+

lemma FileAnnouncement_json_ok [simp]:
  "json_ok (FileAnnouncement_json a) \<longleftrightarrow> valid_utf8 (an_FileID a) \<and> valid_utf8 (an_SourceNode a)"
  by (auto simp: FileAnnouncement_json_def)

interpretation annc: codec "\<lambda>a. json_print (FileAnnouncement_json a)" FileAnnouncement_Unmarshal
  "\<lambda>a. valid_utf8 (an_FileID a) \<and> valid_utf8 (an_SourceNode a)"
proof unfold_locales
  fix a :: FileAnnouncement
  assume "valid_utf8 (an_FileID a) \<and> valid_utf8 (an_SourceNode a)"
  then have "json_Unmarshal (json_print (FileAnnouncement_json a)) = Some (FileAnnouncement_json a)"
    by (intro json_Unmarshal_print) simp
  moreover have "dec_struct FileAnnouncement_fields (FileAnnouncement_json a) FileAnnouncement_zero = Some a"
    by (simp add: FileAnnouncement_json_def FileAnnouncement_fields_def dec_struct_def find_field_def
        dec_string_def FileAnnouncement_zero_def)
  ultimately show "FileAnnouncement_Unmarshal (json_print (FileAnnouncement_json a)) = Some a"
    by (simp add: FileAnnouncement_Unmarshal_def)
qed

lemma be16_roundtrip [simp]: "be16_val (be16 w) = w"
proof -
  have "unat w < 65536" using unsigned_less [of w, where ?'a = nat] by simp
  then have "byte_val (byte_of (unat w div 256)) = unat w div 256" by simp
  then show ?thesis by (simp add: be16_val_def be16_def)
qed

lemma length_be16 [simp]: "length (be16 w) = 2"
  by (simp add: be16_def)

interpretation be16c: codec be16 "\<lambda>bs. if length bs = 2 then Some (be16_val bs) else None" "\<lambda>_. True"
  by unfold_locales simp

lemma active_peers_NodeMeta:
  assumes "mb_Name m \<noteq> name" and "mb_Meta m = NodeMeta g"
  shows "active_peers name [m] = [\<lparr>pi_Name = mb_Name m, pi_Addr = mb_Addr m, pi_HTTPPort = gn_httpPort g mod 65536, pi_GRPCPort = gn_grpcPort g mod 65536\<rparr>]"
proof -
  have "take 2 (NodeMeta g) = be16 (word_of_int (gn_httpPort g))"
    "drop 2 (NodeMeta g) = be16 (word_of_int (gn_grpcPort g))" "length (NodeMeta g) = 4"
    by (simp_all add: NodeMeta_def)
  with assms show ?thesis by (simp add: uint_word_of_int)
qed

lemma active_peers_append: "active_peers name (xs @ ys) = active_peers name xs @ active_peers name ys"
  by (induction name xs rule: active_peers.induct) simp_all

section \<open>Properties\<close>

text \<open>C30. Announcements arrive as they were sent.  After any number of broadcasts the queue has one message for each, in
  order, none displaced by a later one; delivered to a node with a registered callback, each message is handed to it
  unchanged (names in UTF-8), and so is whatever part of the queue the library sends.  A node without a callback
  ignores them.\<close>

theorem announcement_delivered:
  assumes "\<forall>a \<in> set anns. valid_utf8 (an_FileID a) \<and> valid_utf8 (an_SourceNode a)" and "gn_queue g = Some []"
    and "\<forall>q m n. set (qget q m n) \<subseteq> set q" and "gn_onAnnounce g'" and "\<not> gn_onAnnounce g''"
  shows "\<exists>msgs. gn_queue (foldl Broadcast g anns) = Some msgs \<and> map (NotifyMsg g') msgs = map Some anns \<and>
    (\<forall>msg \<in> set (GetBroadcasts qget (foldl Broadcast g anns) overhead limit).
      NotifyMsg g' msg \<in> Some ` set anns \<and> NotifyMsg g'' msg = None)"
proof -
  let ?msg = "\<lambda>a. json_print (FileAnnouncement_json a)"
  have queue: "gn_queue (foldl Broadcast g anns) = Some (q @ map ?msg anns)" if "gn_queue g = Some q" for q g
    using that by (induction anns arbitrary: g q) (simp_all add: Broadcast_queue)
  have get: "NotifyMsg g' (?msg a) = Some a" if "a \<in> set anns" for a
    using that assms(1,4) annc.dec_enc [of a] by (simp add: NotifyMsg_def handleMsg_def FileAnnouncement_json_def)
  then have "map (NotifyMsg g') (map ?msg anns) = map Some anns" by simp
  moreover have "NotifyMsg g' msg \<in> Some ` set anns \<and> NotifyMsg g'' msg = None"
    if "msg \<in> set (GetBroadcasts qget (foldl Broadcast g anns) overhead limit)" for msg
  proof -
    have "msg \<in> set (qget (map ?msg anns) overhead limit)" using that queue [OF assms(2)] by (simp add: GetBroadcasts_def)
    then have "msg \<in> set (map ?msg anns)" using assms(3) by blast
    then obtain a where "a \<in> set anns" "msg = ?msg a" by auto
    moreover have "NotifyMsg g'' msg = None" using assms(5) by (simp add: NotifyMsg_def handleMsg_def)
    ultimately show ?thesis using get by simp
  qed
  ultimately show ?thesis using queue [OF assms(2)] by simp
qed

theorem announcement_delivered_witness:
  "let g = fst (gossip_Start (Inr ()) (\<lambda>_. Inr ()) (NewGossipNode ''n'' 1 2 3) []) in
   \<exists>msgs. gn_queue (foldl Broadcast g [FileAnnouncement_zero, FileAnnouncement_zero\<lparr>an_LamportTS := 1\<rparr>]) = Some msgs \<and>
     map (NotifyMsg (OnAnnouncement (NewGossipNode ''m'' 1 2 3))) msgs =
       [Some FileAnnouncement_zero, Some (FileAnnouncement_zero\<lparr>an_LamportTS := 1\<rparr>)]"
proof -
  let ?g = "fst (gossip_Start (Inr ()) (\<lambda>_. Inr ()) (NewGossipNode ''n'' 1 2 3) [])"
  let ?anns = "[FileAnnouncement_zero, FileAnnouncement_zero\<lparr>an_LamportTS := 1\<rparr>]"
  let ?m = "NewGossipNode ''m'' 1 2 3"
  have "valid_utf8 []" by (rule ascii_valid_utf8) simp
  then have 1: "\<forall>a \<in> set ?anns. valid_utf8 (an_FileID a) \<and> valid_utf8 (an_SourceNode a)" by (simp add: FileAnnouncement_zero_def)
  have 2: "gn_queue ?g = Some []" "gn_onAnnounce (OnAnnouncement ?m)" "\<not> gn_onAnnounce ?m"
    by (simp_all add: gossip_Start_def OnAnnouncement_def NewGossipNode_def)
  have 3: "\<forall>q m n. set ((\<lambda>q _ _. take 1 q) q m n) \<subseteq> set q" by (simp add: set_take_subset)
  show ?thesis using announcement_delivered [OF 1 2(1) 3 2(2,3), of 0 0] unfolding Let_def by auto
qed

text \<open>The ports a node advertises are the ports its peers use: each other member whose metadata is
  a node's four bytes yields one peer with that name, address and ports (ports reduced to 16 bits, so
  exactly the configured ones in the valid range), in the order of the member list; the node itself
  and members with other metadata are left out.\<close>

theorem peers_discovered:
  assumes "gn_list g" and "mb_Meta m = NodeMeta g'" and "mb_Name m \<noteq> gn_name g"
    and "0 \<le> gn_httpPort g'" and "gn_httpPort g' < 65536" and "0 \<le> gn_grpcPort g'" and "gn_grpcPort g' < 65536"
  shows "\<exists>before after. GetActivePeers g (xs @ m # ys) =
      Some (before @ \<lparr>pi_Name = mb_Name m, pi_Addr = mb_Addr m, pi_HTTPPort = gn_httpPort g',
        pi_GRPCPort = gn_grpcPort g'\<rparr> # after) \<and>
      GetActivePeers g (xs @ ys) = Some (before @ after)"
proof -
  have "active_peers (gn_name g) [m] = [\<lparr>pi_Name = mb_Name m, pi_Addr = mb_Addr m,
      pi_HTTPPort = gn_httpPort g', pi_GRPCPort = gn_grpcPort g'\<rparr>]"
    using active_peers_NodeMeta [OF assms(3,2)] assms(4-7) by (simp only: mod_pos_pos_trivial)
  then show ?thesis
    using assms(1) active_peers_append [of "gn_name g" xs "[m] @ ys"]
      active_peers_append [of "gn_name g" "[m]" ys] active_peers_append [of "gn_name g" xs ys]
    by (auto simp: GetActivePeers_def simp del: active_peers.simps)
qed

theorem peers_discovered_witness:
  "\<exists>before after. GetActivePeers ((NewGossipNode ''n'' 1 2 3)\<lparr>gn_list := True\<rparr>)
       ([] @ \<lparr>mb_Name = ''m'', mb_Addr = ''10.0.0.2'', mb_Meta = NodeMeta (NewGossipNode ''m'' 7946 8080 9090)\<rparr> # []) =
     Some (before @ \<lparr>pi_Name = ''m'', pi_Addr = ''10.0.0.2'', pi_HTTPPort = 8080, pi_GRPCPort = 9090\<rparr> # after)"
  using peers_discovered [of "(NewGossipNode ''n'' 1 2 3)\<lparr>gn_list := True\<rparr>"
      "\<lparr>mb_Name = ''m'', mb_Addr = ''10.0.0.2'', mb_Meta = NodeMeta (NewGossipNode ''m'' 7946 8080 9090)\<rparr>"
      "NewGossipNode ''m'' 7946 8080 9090" "[]" "[]"]
  by (auto simp: NewGossipNode_def)

end
