(* ===== verification/Assembler.thy ===== *)
theory Assembler
  imports Cas
begin

text \<open>
  \<^verbatim>\<open>internal/assembler\<close>: putting a file together from its chunks.  \<open>Assemble\<close>
  (\<^verbatim>\<open>assembler.go\<close>) appends the blobs of a chunk list to a fresh destination file;
  \<open>SparseFile\<close> (\<^verbatim>\<open>sparse.go\<close>) writes chunks at their offsets in any order and counts
  them.  Offsets and indices are Go ints; every error return is a value of \<open>asm_error\<close>, and a
  panic (a bitmap of negative length) is one too.
\<close>

datatype asm_error = AsmCreate os_error | AsmMissing nat hash32 os_error | AsmWrite nat os_error
  | AsmOs os_error | AsmBounds | AsmPanic

section \<open>Assemble\<close>

text \<open>\<^verbatim>\<open>io.Copy(out, chunkFile)\<close>: \<open>pos\<close> is the write offset of \<open>out\<close>.  Reading
  ends at an error or the end of the source; an empty source causes no write.\<close>

definition io_Copy :: "fs \<Rightarrow> path \<Rightarrow> nat \<Rightarrow> path \<Rightarrow> fs \<times> nat \<times> (os_error, unit) result" where
  "io_Copy f out pos src =
     (case io_ReadAll f src of
        Inl e \<Rightarrow> (f, pos, Inl e)
      | Inr d \<Rightarrow>
          if d = [] then (f, pos, Inr ())
          else (case file_WriteAt f out d (int pos) of
              (f1, Inl e) \<Rightarrow> (f1, pos, Inl e)
            | (f1, Inr _) \<Rightarrow> (f1, pos + length d, Inr ())))"

fun Assemble_loop ::
  "CASBlobStore \<Rightarrow> fs \<Rightarrow> path \<Rightarrow> nat \<Rightarrow> nat \<Rightarrow> hash32 list \<Rightarrow> fs \<times> (asm_error, unit) result" where
  "Assemble_loop cas f out pos i [] = (f, Inr ())"
| "Assemble_loop cas f out pos i (hash # hs) =
     (case GetFile cas f hash of
        Inl e \<Rightarrow> (f, Inl (AsmMissing i hash e))
      | Inr chunkFile \<Rightarrow>
          (case io_Copy f out pos chunkFile of
             (f1, _, Inl e) \<Rightarrow> (f1, Inl (AsmWrite i e))
           | (f1, pos', Inr _) \<Rightarrow> Assemble_loop cas f1 out pos' (i + 1) hs))"

definition Assemble ::
  "CASBlobStore \<Rightarrow> fs \<Rightarrow> hash32 list \<Rightarrow> gostring \<Rightarrow> fs \<times> (asm_error, unit) result" where
  "Assemble cas f chunkHashes destPath =
     (case os_Create f destPath of
        (f1, Inl e) \<Rightarrow> (f1, Inl (AsmCreate e))
      | (f1, Inr out) \<Rightarrow> Assemble_loop cas f1 out 0 0 chunkHashes)"

section \<open>SparseFile\<close>

record SparseFile =
  sf_file :: path
  sf_bitmap :: "bool list"
  sf_chunksDone :: int
  sf_total :: int

definition NewSparseFile ::
  "fs \<Rightarrow> gostring \<Rightarrow> int \<Rightarrow> int \<Rightarrow> fs \<times> (asm_error, SparseFile) result" where
  "NewSparseFile f path totalSize totalChunks =
     (case os_Create f path of
        (f1, Inl e) \<Rightarrow> (f1, Inl (AsmOs e))
      | (f1, Inr file) \<Rightarrow>
          (case file_Truncate f1 file totalSize of
             (f2, Inl e) \<Rightarrow> (f2, Inl (AsmOs e))
           | (f2, Inr _) \<Rightarrow>
               if totalChunks < 0 then (f2, Inl AsmPanic)
               else (f2, Inr \<lparr>sf_file = file, sf_bitmap = replicate (nat totalChunks) False,
                       sf_chunksDone = 0, sf_total = totalChunks\<rparr>)))"

definition WriteChunk ::
  "SparseFile \<Rightarrow> fs \<Rightarrow> int \<Rightarrow> int \<Rightarrow> bytes \<Rightarrow> SparseFile \<times> fs \<times> (asm_error, unit) result" where
  "WriteChunk s f chunkIndex offset data =
     (if chunkIndex < 0 \<or> chunkIndex \<ge> sf_total s then (s, f, Inl AsmBounds)
      else if sf_bitmap s ! nat chunkIndex then (s, f, Inr ())
      else (case file_WriteAt f (sf_file s) data offset of
          (f1, Inl e) \<Rightarrow> (s, f1, Inl (AsmOs e))
        | (f1, Inr _) \<Rightarrow>
            (s\<lparr>sf_bitmap := (sf_bitmap s)[nat chunkIndex := True],
               sf_chunksDone := sf_chunksDone s + 1\<rparr>, f1, Inr ())))"

definition IsComplete :: "SparseFile \<Rightarrow> bool" where
  "IsComplete s \<longleftrightarrow> sf_chunksDone s = sf_total s"

definition sparse_Close :: "SparseFile \<Rightarrow> fs \<Rightarrow> (asm_error, unit) result" where
  "sparse_Close s f = (case file_Close f (sf_file s) of Inl e \<Rightarrow> Inl (AsmOs e) | Inr _ \<Rightarrow> Inr ())"

section \<open>Assemble writes the concatenation\<close>

lemma io_Copy_ok:
  assumes "no_faults f" and "ents f src = Some (FFile d)" and "ents f out = Some (FFile c)"
    and "pos = length c"
  shows "io_Copy f out pos src =
    (fs_set f out (Some (FFile (c @ d))), length (c @ d), Inr ())"
proof -
  have "fs_set f out (Some (FFile c)) = f" using assms(3) by (simp add: fs_set_def fun_upd_idem)
  then show ?thesis
    using assms by (auto simp: io_Copy_def io_ReadAll_def file_WriteAt_def no_faults_def write_at_append)
qed

lemma no_faults_fs_set [simp]: "no_faults (fs_set f p n) \<longleftrightarrow> no_faults f"
  by (simp add: no_faults_def)

lemma stored_fs_set:
  "\<forall>h. out \<noteq> obj_path s f h \<Longrightarrow> stored s (fs_set f out n) = stored s f"
  by (auto simp: stored_def fun_eq_iff)

lemma Assemble_loop_ok:
  assumes "no_faults f" and "ents f out = Some (FFile c)" and "pos = length c"
    and "\<forall>h. out \<noteq> obj_path s f h" and "\<forall>h \<in> set hs. stored s f h \<noteq> None"
  shows "Assemble_loop s f out pos i hs =
    (fs_set f out (Some (FFile (c @ concat (map (\<lambda>h. the (stored s f h)) hs)))), Inr ())"
  using assms
proof (induction hs arbitrary: f c pos i)
  case Nil
  then show ?case by (simp add: fs_set_def fun_upd_idem)
next
  case (Cons h hs)
  then obtain d where d: "stored s f h = Some d" by auto
  then have "ents f (obj_path s f h) = Some (FFile d)"
    by (simp add: stored_def split: option.splits fnode.splits)
  with Cons.prems have copy: "io_Copy f out pos (obj_path s f h) =
    (fs_set f out (Some (FFile (c @ d))), length (c @ d), Inr ())" by (intro io_Copy_ok)
  let ?f = "fs_set f out (Some (FFile (c @ d)))"
  have st: "stored s ?f = stored s f" using Cons.prems(4) by (rule stored_fs_set)
  have "Assemble_loop s ?f out (length (c @ d)) (i + 1) hs =
    (fs_set ?f out (Some (FFile ((c @ d) @ concat (map (\<lambda>h. the (stored s ?f h)) hs)))), Inr ())"
    using Cons.prems by (intro Cons.IH) (simp_all add: st)
  then show ?case
    using copy d GetFile_stored [OF Cons.prems(1) d] by (simp add: st)
qed

text \<open>The destination can be created: its directory exists and it is no directory itself.\<close>

definition creatable :: "fs \<Rightarrow> path \<Rightarrow> bool" where
  "creatable f p \<longleftrightarrow> p \<noteq> [] \<and> ents f (butlast p) = Some FDir \<and> ents f p \<noteq> Some FDir"

lemma os_Create_ok:
  "no_faults f \<Longrightarrow> creatable f (resolve f s) \<Longrightarrow>
   os_Create f s = (fs_set f (resolve f s) (Some (FFile [])), Inr (resolve f s))"
  by (simp add: os_Create_def create_at_def creatable_def)

lemma Assemble_ok:
  assumes "no_faults f" and "creatable f (resolve f dest)"
    and "\<forall>h. resolve f dest \<noteq> obj_path s f h" and "\<forall>h \<in> set hs. stored s f h \<noteq> None"
  shows "Assemble s f hs dest =
    (fs_set f (resolve f dest) (Some (FFile (concat (map (\<lambda>h. the (stored s f h)) hs)))), Inr ())"
proof -
  let ?f = "fs_set f (resolve f dest) (Some (FFile []))"
  have st: "stored s ?f = stored s f" using assms(3) by (rule stored_fs_set)
  have "Assemble_loop s ?f (resolve f dest) 0 0 hs =
    (fs_set ?f (resolve f dest) (Some (FFile ([] @ concat (map (\<lambda>h. the (stored s ?f h)) hs)))), Inr ())"
    using assms by (intro Assemble_loop_ok) (simp_all add: st)
  then show ?thesis
    using assms(1,2) by (simp add: Assemble_def os_Create_ok st)
qed

text \<open>A chunk that is missing stops the loop after the chunks before it were written.\<close>

lemma Assemble_loop_append:
  assumes "Assemble_loop s f out pos i hs = (f', Inr ())"
  obtains pos' where
    "Assemble_loop s f out pos i (hs @ hs') = Assemble_loop s f' out pos' (i + length hs) hs'"
  using assms
proof (induction hs arbitrary: f pos i thesis)
  case (Cons h hs)
  from Cons.prems(2) obtain p f1 pos1 where
    1: "GetFile s f h = Inr p" "io_Copy f out pos p = (f1, pos1, Inr ())"
       "Assemble_loop s f1 out pos1 (i + 1) hs = (f', Inr ())"
    by (auto split: sum.splits prod.splits)
  obtain pos' where "Assemble_loop s f1 out pos1 (i + 1) (hs @ hs') =
      Assemble_loop s f' out pos' (i + 1 + length hs) hs'"
    using Cons.IH [OF _ 1(3)] by blast
  with 1 Cons.prems(1) show ?case by simp
qed auto

lemma cas_inv_fs_set: "cas_inv s f \<Longrightarrow> \<forall>h. out \<noteq> obj_path s f h \<Longrightarrow> cas_inv s (fs_set f out n)"
  by (auto simp: cas_inv_def)

lemma Assemble_missing:
  assumes "no_faults f" and "cas_inv s f" and "creatable f (resolve f dest)"
    and "\<forall>h. resolve f dest \<noteq> obj_path s f h" and "\<forall>h \<in> set pre. stored s f h \<noteq> None"
    and "stored s f h = None"
  shows "Assemble s f (pre @ h # post) dest =
    (fs_set f (resolve f dest) (Some (FFile (concat (map (\<lambda>h. the (stored s f h)) pre)))),
     Inl (AsmMissing (length pre) h ENOENT))"
proof -
  let ?f = "fs_set f (resolve f dest) (Some (FFile []))"
  let ?f' = "fs_set f (resolve f dest) (Some (FFile (concat (map (\<lambda>h. the (stored s f h)) pre))))"
  have "Assemble s f pre dest = (?f', Inr ())" using assms by (intro Assemble_ok)
  then have "Assemble_loop s ?f (resolve f dest) 0 0 pre = (?f', Inr ())"
    using assms(1,3) by (simp add: Assemble_def os_Create_ok)
  then obtain pos' where "Assemble_loop s ?f (resolve f dest) 0 0 (pre @ h # post) =
    Assemble_loop s ?f' (resolve f dest) pos' (length pre) (h # post)"
    using Assemble_loop_append [of s ?f "resolve f dest" 0 0 pre ?f' "h # post"] by auto
  moreover have "GetFile s ?f' h = Inl ENOENT"
    using assms stored_fs_set [OF assms(4)]
    by (intro GetFile_missing) (simp_all add: cas_inv_fs_set)
  ultimately show ?thesis using assms(1,3) by (simp add: Assemble_def os_Create_ok)
qed

section \<open>Sparse files\<close>

text \<open>The counter counts the bits that are set.\<close>

definition sparse_inv :: "SparseFile \<Rightarrow> bool" where
  "sparse_inv s \<longleftrightarrow> sf_total s = int (length (sf_bitmap s)) \<and>
     sf_chunksDone s = int (count_list (sf_bitmap s) True)"

lemma count_list_update:
  "i < length bs \<Longrightarrow> \<not> bs ! i \<Longrightarrow> count_list (bs[i := True]) True = Suc (count_list bs True)"
  by (induction bs arbitrary: i) (auto split: nat.splits)

lemma sparse_inv_New: "NewSparseFile f path sz n = (f', Inr s) \<Longrightarrow> sparse_inv s"
proof -
  have "count_list (replicate k False) True = 0" for k by (induction k) auto
  then show "NewSparseFile f path sz n = (f', Inr s) \<Longrightarrow> sparse_inv s"
    by (auto simp: NewSparseFile_def sparse_inv_def split: prod.splits sum.splits if_splits)
qed

lemma sparse_inv_Write: "sparse_inv s \<Longrightarrow> sparse_inv (fst (WriteChunk s f i off d))"
  by (auto simp: WriteChunk_def sparse_inv_def count_list_update split: prod.splits sum.splits)

lemma count_list_all: "count_list bs True = length bs \<longleftrightarrow> (\<forall>b \<in> set bs. b)"
proof (induction bs)
  case (Cons b bs)
  have "count_list bs True \<le> length bs" by (rule count_le_length)
  with Cons show ?case by auto
qed simp

lemma IsComplete_iff: "sparse_inv s \<Longrightarrow> IsComplete s \<longleftrightarrow> (\<forall>b \<in> set (sf_bitmap s). b)"
  using count_list_all [of "sf_bitmap s"] by (simp add: sparse_inv_def IsComplete_def)

text \<open>Chunk \<open>i\<close> of the pieces \<open>ds\<close> belongs at the sum of the lengths before it.\<close>

definition chunk_off :: "bytes list \<Rightarrow> nat \<Rightarrow> nat" where
  "chunk_off ds i = length (concat (take i ds))"

definition bslice :: "nat \<Rightarrow> nat \<Rightarrow> bytes \<Rightarrow> bytes" where
  "bslice off n d = take n (drop off d)"

lemma chunk_off_Suc: "i < length ds \<Longrightarrow> chunk_off ds (Suc i) = chunk_off ds i + length (ds ! i)"
  by (simp add: chunk_off_def take_Suc_conv_app_nth)

lemma chunk_off_mono: "i \<le> j \<Longrightarrow> chunk_off ds i \<le> chunk_off ds j"
  unfolding chunk_off_def by (metis concat_append le_add1 length_append take_add le_Suc_ex)

lemma chunk_off_end: "i < length ds \<Longrightarrow> chunk_off ds i + length (ds ! i) \<le> length (concat ds)"
  using chunk_off_mono [of "Suc i" "length ds" ds] chunk_off_Suc [of i ds]
  by (simp add: chunk_off_def [of ds "length ds"])

lemma slices_concat:
  assumes "length d = length (concat ds)"
    and "\<And>i. i < length ds \<Longrightarrow> bslice (chunk_off ds i) (length (ds ! i)) d = ds ! i"
  shows "d = concat ds"
  using assms
proof (induction ds arbitrary: d)
  case (Cons x xs)
  have x: "take (length x) d = x" using Cons.prems(2) [of 0] by (simp add: bslice_def chunk_off_def)
  have "drop (length x) d = concat xs"
  proof (rule Cons.IH)
    show "length (drop (length x) d) = length (concat xs)" using Cons.prems(1) by simp
  next
    fix i assume "i < length xs"
    then show "bslice (chunk_off xs i) (length (xs ! i)) (drop (length x) d) = xs ! i"
      using Cons.prems(2) [of "Suc i"] by (simp add: bslice_def chunk_off_def add.commute)
  qed
  with x show ?case by (metis append_take_drop_id concat.simps(2))
qed simp

lemma bslice_write_same:
  "off + length x \<le> length d \<Longrightarrow> bslice off (length x) (write_at d off x) = x"
  by (simp add: write_at_within bslice_def)

lemma bslice_write_other:
  assumes "off + length x \<le> length d" and "off' + n \<le> off \<or> off + length x \<le> off'"
  shows "bslice off' n (write_at d off x) = bslice off' n d"
  using assms(2)
proof
  assume "off' + n \<le> off"
  then have "bslice off' n (take off d @ r) = take n (drop off' (take off d))" for r
    using assms(1) by (simp add: bslice_def)
  moreover have "take n (drop off' (take off d)) = bslice off' n d"
    using \<open>off' + n \<le> off\<close> by (simp add: bslice_def drop_take min_def)
  ultimately show ?thesis using assms(1) by (simp add: write_at_within)
next
  assume "off + length x \<le> off'"
  then obtain k where "off' = off + length x + k" using le_Suc_ex by blast
  with assms(1) show ?thesis by (simp add: write_at_within bslice_def add.commute add.left_commute)
qed

lemma length_write_within: "off + length x \<le> length d \<Longrightarrow> length (write_at d off x) = length d"
  by (simp add: write_at_within)

text \<open>What holds while chunks arrive: the file has its final size, and every chunk whose bit is set is
  in place.\<close>

definition sparse_at :: "SparseFile \<Rightarrow> fs \<Rightarrow> bytes list \<Rightarrow> bool" where
  "sparse_at s f ds \<longleftrightarrow> sparse_inv s \<and> length (sf_bitmap s) = length ds \<and>
     (\<exists>d. ents f (sf_file s) = Some (FFile d) \<and> length d = length (concat ds) \<and>
        (\<forall>i < length ds. sf_bitmap s ! i \<longrightarrow> bslice (chunk_off ds i) (length (ds ! i)) d = ds ! i))"

lemma chunks_apart:
  assumes "i < length ds" and "j < length ds" and "i \<noteq> j"
  shows "chunk_off ds j + length (ds ! j) \<le> chunk_off ds i \<or> chunk_off ds i + length (ds ! i) \<le> chunk_off ds j"
proof (cases "j < i")
  case True
  then have "chunk_off ds (Suc j) \<le> chunk_off ds i" by (intro chunk_off_mono) simp
  with assms(2) show ?thesis by (simp add: chunk_off_Suc)
next
  case False
  then have "chunk_off ds (Suc i) \<le> chunk_off ds j" using assms(3) by (intro chunk_off_mono) simp
  with assms(1) show ?thesis by (simp add: chunk_off_Suc)
qed

lemma write_prefix_keeps:
  assumes "i < length ds" and "length d = length (concat ds)" and "j < length ds" and "i \<noteq> j"
  shows "bslice (chunk_off ds j) (length (ds ! j)) (write_at d (chunk_off ds i) (take n (ds ! i))) =
    bslice (chunk_off ds j) (length (ds ! j)) d"
  using chunks_apart [OF assms(1,3,4)] chunk_off_end [OF assms(1)] assms(2)
  by (intro bslice_write_other) auto

lemma sparse_at_step:
  assumes "sparse_at s f ds" and "i < length ds"
    and "WriteChunk s (f\<lparr>faults := flt\<rparr>) (int i) (int (chunk_off ds i)) (ds ! i) = (s', f', r)"
  shows "sparse_at s' f' ds"
proof -
  obtain d where d: "ents f (sf_file s) = Some (FFile d)" "length d = length (concat ds)"
    and sl: "\<And>j. j < length ds \<Longrightarrow> sf_bitmap s ! j \<Longrightarrow> bslice (chunk_off ds j) (length (ds ! j)) d = ds ! j"
    using assms(1) unfolding sparse_at_def by blast
  have inv: "sparse_inv s" "length (sf_bitmap s) = length ds" "sf_total s = int (length ds)"
    using assms(1) by (auto simp: sparse_at_def sparse_inv_def)
  have inv': "sparse_inv s'" using sparse_inv_Write [OF inv(1)] assms(3) by (metis fst_conv)
  have len: "length (write_at d (chunk_off ds i) (take n (ds ! i))) = length d" for n
    using chunk_off_end [OF assms(2)] d(2) by (intro length_write_within) simp
  consider (old) "sf_bitmap s ! i" "s' = s" "f' = f\<lparr>faults := flt\<rparr>"
    | (fault) n where "\<not> sf_bitmap s ! i" "s' = s" "f' = fs_set (f\<lparr>faults := flt\<rparr>) (sf_file s)
        (Some (FFile (write_at d (chunk_off ds i) (take n (ds ! i)))))"
    | (new) "s' = s\<lparr>sf_bitmap := (sf_bitmap s)[i := True], sf_chunksDone := sf_chunksDone s + 1\<rparr>"
        "f' = fs_set (f\<lparr>faults := flt\<rparr>) (sf_file s)
        (Some (FFile (write_at d (chunk_off ds i) (take (length (ds ! i)) (ds ! i)))))"
    using assms(2,3) inv d(1)
    by (auto simp: WriteChunk_def file_WriteAt_def split: if_splits option.splits)
  then show ?thesis
  proof cases
    case old
    then show ?thesis using assms(1) by (simp add: sparse_at_def)
  next
    case fault
    have "bslice (chunk_off ds j) (length (ds ! j)) (write_at d (chunk_off ds i) (take n (ds ! i))) = ds ! j"
      if "j < length ds" "sf_bitmap s ! j" for j
      using write_prefix_keeps [OF assms(2) d(2) that(1)] sl [OF that] fault(1) that(2) by metis
    with fault inv len d(2) show ?thesis by (simp add: sparse_at_def)
  next
    case new
    let ?d = "write_at d (chunk_off ds i) (take (length (ds ! i)) (ds ! i))"
    have same: "bslice (chunk_off ds i) (length (ds ! i)) ?d = ds ! i"
      using chunk_off_end [OF assms(2)] d(2) bslice_write_same [of "chunk_off ds i" "ds ! i" d] by simp
    have "bslice (chunk_off ds j) (length (ds ! j)) ?d = ds ! j"
      if "j < length ds" "(sf_bitmap s)[i := True] ! j" for j
      using write_prefix_keeps [OF assms(2) d(2) that(1)] sl [OF that(1)] same that(2)
      by (cases "j = i") (auto simp del: take_all take_all_iff)
    with new inv inv' len d(2) show ?thesis by (simp add: sparse_at_def del: take_all take_all_iff)
  qed
qed

lemma sparse_at_complete:
  assumes "sparse_at s f ds" and "IsComplete s"
  shows "ents f (sf_file s) = Some (FFile (concat ds))"
proof -
  obtain d where d: "ents f (sf_file s) = Some (FFile d)" "length d = length (concat ds)"
    and sl: "\<And>j. j < length ds \<Longrightarrow> sf_bitmap s ! j \<Longrightarrow> bslice (chunk_off ds j) (length (ds ! j)) d = ds ! j"
    using assms(1) unfolding sparse_at_def by blast
  have "sparse_inv s" "length (sf_bitmap s) = length ds" using assms(1) by (auto simp: sparse_at_def)
  then have "sf_bitmap s ! j" if "j < length ds" for j
    using assms(2) IsComplete_iff that by (metis nth_mem)
  then have "d = concat ds" using sl d(2) by (intro slices_concat) auto
  with d(1) show ?thesis by simp
qed

text \<open>A history of chunk writes: indices in any order, repeated as often as the caller likes, with I/O
  faults chosen anew for every write; a failed write is simply tried again later.\<close>

fun sparse_run ::
  "bytes list \<Rightarrow> SparseFile \<times> fs \<Rightarrow> ((fsop \<Rightarrow> path \<Rightarrow> nat option) \<times> nat) list \<Rightarrow> SparseFile \<times> fs" where
  "sparse_run ds (s, f) [] = (s, f)"
| "sparse_run ds (s, f) ((flt, i) # r) =
     (case WriteChunk s (f\<lparr>faults := flt\<rparr>) (int i) (int (chunk_off ds i)) (ds ! i) of
        (s', f', _) \<Rightarrow> sparse_run ds (s', f') r)"

lemma sparse_at_run:
  "sparse_at s f ds \<Longrightarrow> \<forall>x \<in> set ws. snd x < length ds \<Longrightarrow> sparse_run ds (s, f) ws = (s', f') \<Longrightarrow>
   sparse_at s' f' ds"
proof (induction ds "(s, f)" ws arbitrary: s f rule: sparse_run.induct)
  case (2 ds s f flt i r)
  obtain s1 f1 x where w: "WriteChunk s (f\<lparr>faults := flt\<rparr>) (int i) (int (chunk_off ds i)) (ds ! i) = (s1, f1, x)"
    by (metis prod.exhaust)
  then have "sparse_at s1 f1 ds" using "2.prems" by (intro sparse_at_step [OF _ _ w]) auto
  with 2 w show ?case by simp
qed simp

lemma NewSparseFile_at:
  assumes "NewSparseFile f path (int (length (concat ds))) (int (length ds)) = (f', Inr s)"
  shows "sparse_at s f' ds"
proof -
  have "sparse_inv s" using assms by (rule sparse_inv_New)
  moreover have "sf_bitmap s = replicate (length ds) False"
    "\<exists>d. ents f' (sf_file s) = Some (FFile d) \<and> length d = length (concat ds)"
    using assms
    by (auto simp: NewSparseFile_def os_Create_def create_at_def file_Truncate_def
        split: prod.splits sum.splits if_splits option.splits)
  ultimately show ?thesis by (auto simp: sparse_at_def)
qed

lemma sparse_run_bits:
  assumes "sparse_at s f ds" and "\<forall>x \<in> set ws. snd x < length ds \<and> fst x = (\<lambda>_ _. None)"
    and "sparse_run ds (s, f) ws = (s', f')"
  shows "\<forall>j < length ds. sf_bitmap s ! j \<or> j \<in> snd ` set ws \<longrightarrow> sf_bitmap s' ! j"
  using assms
proof (induction ds "(s, f)" ws arbitrary: s f rule: sparse_run.induct)
  case (2 ds s f flt i r)
  obtain s1 f1 x where w: "WriteChunk s (f\<lparr>faults := flt\<rparr>) (int i) (int (chunk_off ds i)) (ds ! i) = (s1, f1, x)"
    by (metis prod.exhaust)
  have i: "i < length ds" and flt: "flt = (\<lambda>_ _. None)" using "2.prems"(2) by auto
  have at: "sparse_at s1 f1 ds" using "2.prems"(1) i w by (rule sparse_at_step)
  have tot: "sf_total s = int (length ds)" "length (sf_bitmap s) = length ds"
    "\<exists>d. ents f (sf_file s) = Some (FFile d)"
    using "2.prems"(1) by (auto simp: sparse_at_def sparse_inv_def)
  moreover have "(sf_bitmap s)[i := True] = sf_bitmap s" if "sf_bitmap s ! i"
    using list_update_id [of "sf_bitmap s" i] that by simp
  ultimately have "sf_bitmap s1 = (sf_bitmap s)[i := True]"
    using w i flt by (auto simp: WriteChunk_def file_WriteAt_def split: if_splits)
  then have step: "sf_bitmap s1 ! j" if "j < length ds" "sf_bitmap s ! j \<or> j = i" for j
    using that tot(2) by (cases "j = i") auto
  have "\<forall>j < length ds. sf_bitmap s1 ! j \<or> j \<in> snd ` set r \<longrightarrow> sf_bitmap s' ! j"
    using "2.hyps" [OF w [symmetric] refl at] "2.prems"(2,3) w by simp
  with step show ?case by auto
qed simp

section \<open>Properties\<close>

text \<open>Assembling a file whose chunks are all in the store succeeds and leaves exactly their
  concatenation, in order, in the destination; if one is missing, the index and hash of the first
  missing one are reported and the destination, truncated first, holds only the chunks before it.  No
  other file changes.\<close>

lemma assemble_behaviour:
  assumes "no_faults f" and "cas_inv s f" and "creatable f (resolve f dest)"
    and "\<forall>h. resolve f dest \<noteq> obj_path s f h" and "\<forall>h \<in> set pre. stored s f h \<noteq> None"
  shows "Assemble s f pre dest =
      (fs_set f (resolve f dest) (Some (FFile (concat (map (\<lambda>h. the (stored s f h)) pre)))), Inr ()) \<and>
    (stored s f h = None \<longrightarrow> Assemble s f (pre @ h # post) dest =
      (fs_set f (resolve f dest) (Some (FFile (concat (map (\<lambda>h. the (stored s f h)) pre)))),
       Inl (AsmMissing (length pre) h ENOENT)))"
  using assms Assemble_ok Assemble_missing by blast

text \<open>C19. A sparse file that reports completion holds exactly the chunks' concatenation, whatever the
  order, repetition and I/O faults of the writes; and writing every chunk once without a fault, in
  any order, completes it.\<close>

theorem sparse_file_correct:
  assumes "NewSparseFile f path (int (length (concat ds))) (int (length ds)) = (f1, Inr s1)"
    and "\<forall>x \<in> set ws. snd x < length ds" and "sparse_run ds (s1, f1) ws = (s2, f2)"
  shows "(IsComplete s2 \<longrightarrow> ents f2 (sf_file s2) = Some (FFile (concat ds))) \<and>
    ((\<forall>x \<in> set ws. fst x = (\<lambda>_ _. None)) \<and> {..<length ds} \<subseteq> snd ` set ws \<longrightarrow> IsComplete s2)"
proof -
  have at: "sparse_at s1 f1 ds" using assms(1) by (rule NewSparseFile_at)
  then have at2: "sparse_at s2 f2 ds" using assms(2,3) by (rule sparse_at_run)
  have "IsComplete s2" if "\<forall>x \<in> set ws. fst x = (\<lambda>_ _. None)" "{..<length ds} \<subseteq> snd ` set ws"
  proof -
    have "\<forall>j < length ds. sf_bitmap s2 ! j"
      using sparse_run_bits [OF at _ assms(3)] assms(2) that by auto
    then show ?thesis
      using at2 IsComplete_iff [of s2] by (auto simp: sparse_at_def in_set_conv_nth)
  qed
  with sparse_at_complete [OF at2] show ?thesis by blast
qed

theorem sparse_file_correct_witness:
  "\<exists>f1 s1 s2 f2.
     NewSparseFile empty_cas_fs ''/d/x'' (int (length (concat [''ab'', ''c'']))) (int (length [''ab'', ''c''])) = (f1, Inr s1) \<and>
     sparse_run [''ab'', ''c''] (s1, f1) [(\<lambda>_ _. None, 1), (\<lambda>_ _. None, 0)] = (s2, f2) \<and>
     IsComplete s2 \<and> ents f2 (sf_file s2) = Some (FFile ''abc'')"
proof -
  have r: "resolve empty_cas_fs ''/d/x'' = [''d'', ''x'']"
    by (simp add: resolve_def rooted_def clean_comps_def clean_step_def)
  obtain f1 s1 where n: "NewSparseFile empty_cas_fs ''/d/x'' (int (length (concat [''ab'', ''c''])))
      (int (length [''ab'', ''c''])) = (f1, Inr s1)"
    using r by (auto simp: NewSparseFile_def os_Create_def create_at_def file_Truncate_def faulty_def
        empty_cas_fs_def)
  obtain s2 f2 where r2: "sparse_run [''ab'', ''c''] (s1, f1) [(\<lambda>_ _. None, 1), (\<lambda>_ _. None, 0)] = (s2, f2)"
    by (rule prod.exhaust)
  have "{..<length [''ab'', ''c'']} \<subseteq> snd ` set [(\<lambda>(_::fsop) (_::path). None :: nat option, 1), (\<lambda>_ _. None, 0)]"
    by auto
  with sparse_file_correct [OF n _ r2] have "IsComplete s2 \<and> ents f2 (sf_file s2) = Some (FFile ''abc'')"
    by simp
  with n r2 show ?thesis by blast
qed

end
