(* ===== verification/Orchestrator.thy ===== *)
theory Orchestrator
  imports Dataplane Scheduler Discovery Assembler
begin

text \<open>
  \<^verbatim>\<open>internal/orchestrator/sync.go\<close>: pulling one file.  \<open>Pull\<close> asks the peers in turn for
  the difference, schedules the missing chunks rarest first, fetches them with one goroutine per
  chunk, assembles the file, records its metadata and announces it.  The goroutines are
  \<open>worker\<close>s, each a small state machine; \<open>run_workers\<close> runs them under an explicit schedule,
  a list of events that say which worker moves next, at what time and with what random number.  A
  schedule that leaves a worker unfinished gives \<open>None\<close>: \<open>Pull\<close> has not returned yet.  The
  control plane (\<open>dial\<close>), the data plane (\<open>net\<close>, which may answer differently at different
  times) and the sort are the parameters of the components used.
\<close>

section \<open>The engine\<close>

record Engine =
  en_NodeID :: gostring
  en_Secret :: bytes
  en_CAS :: CASBlobStore
  en_Client :: Client
  en_BaseDir :: gostring

definition NewEngine :: "gostring \<Rightarrow> bytes \<Rightarrow> gostring \<Rightarrow> CASBlobStore \<Rightarrow> Client \<Rightarrow> Engine" where
  "NewEngine nodeID secret dir cas client =
     \<lparr>en_NodeID = nodeID, en_Secret = secret, en_CAS = cas, en_Client = client, en_BaseDir = dir\<rparr>"

text \<open>What \<open>Pull\<close> works on: the disk, the metadata index and the health tracker; and what it calls
  back: the paths it marks quiet and the announcements it makes.\<close>

record 'db pull_state =
  pl_fs :: fs
  pl_db :: 'db
  pl_tracker :: HealthTracker
  pl_quiet :: "gostring list"
  pl_announced :: "(gostring \<times> hash32 \<times> uint64) list"

datatype select_error = ConnFailed gostring | DiffFailed gostring | MetaFailed gostring

datatype pull_error = NoPeers | NoPeerHadFile "select_error option" | Unavailable bytes | Exhausted hash32
  | MkdirFailed os_error | AssemblerFailed asm_error | MissingAfter hash32 os_error
  | WriteFailed nat asm_error | FinalizeFailed asm_error | SaveFailed meta_error

datatype pull_ok = InSync | Assembled

section \<open>Choosing the source\<close>

definition grpc_map :: "PeerInfo list \<Rightarrow> gostring \<rightharpoonup> gostring" where
  "grpc_map peers = foldl (\<lambda>m p. m(GRPCAddr p \<mapsto> HTTPAddr p)) Map.empty peers"

fun select_source ::
  "(gostring \<Rightarrow> (gostring, invoker) result) \<Rightarrow> net \<Rightarrow> Engine \<Rightarrow> int \<Rightarrow> (gostring \<rightharpoonup> gostring) \<Rightarrow> gostring
   \<Rightarrow> bytes \<Rightarrow> bytes list \<Rightarrow> gostring list \<Rightarrow> select_error option
   \<Rightarrow> (select_error option, DiffResponse \<times> FileMeta) result" where
  "select_source dial net e now toHTTP fileID localRoot known [] lastErr = Inl lastErr"
| "select_source dial net e now toHTTP fileID localRoot known (grpcAddr # addrs) lastErr =
     (case NewControlClient dial grpcAddr (en_Secret e) (en_NodeID e) of
        Inl _ \<Rightarrow> select_source dial net e now toHTTP fileID localRoot known addrs (Some (ConnFailed grpcAddr))
      | Inr ctrl \<Rightarrow>
          (case Diff ctrl now fileID localRoot known of
             Inl _ \<Rightarrow> select_source dial net e now toHTTP fileID localRoot known addrs (Some (DiffFailed grpcAddr))
           | Inr d \<Rightarrow>
               if dp_RemoteMerkleRoot d = [] then
                 select_source dial net e now toHTTP fileID localRoot known addrs lastErr
               else
                 (let httpPeer = (case toHTTP grpcAddr of None \<Rightarrow> [] | Some h \<Rightarrow> h) in
                  case FetchMeta net (en_Client e) now httpPeer fileID of
                    Inl _ \<Rightarrow> select_source dial net e now toHTTP fileID localRoot known addrs
                              (Some (MetaFailed httpPeer))
                  | Inr rm \<Rightarrow> Inr (d, rm))))"

section \<open>Fetching\<close>

text \<open>The loop that starts the goroutines returns at the first chunk nobody has; the goroutines
  started before it keep running.\<close>

fun spawn :: "ChunkRarity list \<Rightarrow> ChunkRarity list \<Rightarrow> ChunkRarity list \<times> (bytes, unit) result" where
  "spawn started [] = (started, Inr ())"
| "spawn started (c # cs) =
     (if cr_Peers c = [] then (started, Inl (cr_Hash c)) else spawn (started @ [c]) cs)"

datatype wmode = WNext | WTry gostring nat | WDone | WFail

record worker =
  wk_hash :: hash32
  wk_peers :: "gostring list"
  wk_mode :: wmode

definition new_worker :: "ChunkRarity \<Rightarrow> worker" where
  "new_worker c = \<lparr>wk_hash = copy32 (cr_Hash c), wk_peers = cr_Peers c, wk_mode = WNext\<rparr>"

definition finished :: "worker \<Rightarrow> bool" where
  "finished w \<longleftrightarrow> wk_mode w = WDone \<or> wk_mode w = WFail"

text \<open>One move of a worker: look at the next peer, or one fetch attempt.  The result of storing the
  fetched data is ignored.\<close>

definition worker_step ::
  "(int \<Rightarrow> net) \<Rightarrow> Engine \<Rightarrow> (gostring \<rightharpoonup> gostring) \<Rightarrow> int \<Rightarrow> rat \<Rightarrow> HealthTracker \<Rightarrow> fs \<Rightarrow> worker
   \<Rightarrow> HealthTracker \<times> fs \<times> worker" where
  "worker_step net e toHTTP now rnd tr f w =
     (case wk_mode w of
        WNext \<Rightarrow>
          (case wk_peers w of
             [] \<Rightarrow> (tr, f, w\<lparr>wk_mode := WFail\<rparr>)
           | p # ps \<Rightarrow>
               (case toHTTP p of
                  None \<Rightarrow> (tr, f, w\<lparr>wk_peers := ps\<rparr>)
                | Some http \<Rightarrow>
                    (case IsAvailable tr now http of (tr', ok) \<Rightarrow>
                       if ok then (tr', f, w\<lparr>wk_peers := ps, wk_mode := WTry http 1\<rparr>)
                       else (tr', f, w\<lparr>wk_peers := ps\<rparr>))))
      | WTry http attempt \<Rightarrow>
          (case FetchChunk (net now) (en_Client e) now http (wk_hash w) of
             Inl _ \<Rightarrow>
               if attempt = 3 then (tr, f, w\<lparr>wk_mode := WNext\<rparr>)
               else (MarkHot tr now http (CalcJitteredBackoff rnd (int attempt) 500000000 5000000000), f,
                     w\<lparr>wk_mode := WTry http (attempt + 1)\<rparr>)
           | Inr data \<Rightarrow> (tr, fst (Put (en_CAS e) f (wk_hash w) data), w\<lparr>wk_mode := WDone\<rparr>))
      | _ \<Rightarrow> (tr, f, w))"

record event =
  ev_worker :: nat
  ev_now :: int
  ev_rnd :: rat

text \<open>\<open>errs\<close>: the hashes sent on the error channel, in order.\<close>

fun run_workers ::
  "(int \<Rightarrow> net) \<Rightarrow> Engine \<Rightarrow> (gostring \<rightharpoonup> gostring) \<Rightarrow> HealthTracker \<times> fs \<times> worker list \<times> hash32 list
   \<Rightarrow> event list \<Rightarrow> HealthTracker \<times> fs \<times> worker list \<times> hash32 list" where
  "run_workers net e toHTTP st [] = st"
| "run_workers net e toHTTP (tr, f, ws, errs) (ev # evs) =
     (if ev_worker ev < length ws then
        (case worker_step net e toHTTP (ev_now ev) (ev_rnd ev) tr f (ws ! ev_worker ev) of
           (tr', f', w') \<Rightarrow>
             run_workers net e toHTTP
               (tr', f', ws[ev_worker ev := w'],
                errs @ (if wk_mode w' = WFail \<and> wk_mode (ws ! ev_worker ev) \<noteq> WFail then [wk_hash w'] else [])) evs)
      else run_workers net e toHTTP (tr, f, ws, errs) evs)"

section \<open>Assembling\<close>

fun write_loop ::
  "CASBlobStore \<Rightarrow> fs \<Rightarrow> SparseFile \<Rightarrow> nat \<Rightarrow> int \<Rightarrow> hash32 list \<Rightarrow> fs \<times> (pull_error, SparseFile) result" where
  "write_loop cas f sparse i off [] = (f, Inr sparse)"
| "write_loop cas f sparse i off (h # hs) =
     (case Get cas f h of
        Inl e \<Rightarrow> (f, Inl (MissingAfter h e))
      | Inr data \<Rightarrow>
          (case WriteChunk sparse f (int i) off data of
             (_, f1, Inl e) \<Rightarrow> (f1, Inl (WriteFailed i e))
           | (sparse1, f1, Inr _) \<Rightarrow> write_loop cas f1 sparse1 (i + 1) (wrap64 (off + int (length data))) hs))"

definition out_path :: "Engine \<Rightarrow> gostring \<Rightarrow> gostring" where
  "out_path e fileID = Join (en_BaseDir e) fileID"

definition finish_pull ::
  "'db bolt \<Rightarrow> Engine \<Rightarrow> gostring \<Rightarrow> FileMeta \<Rightarrow> 'db pull_state \<Rightarrow> 'db pull_state \<times> (pull_error, pull_ok) result" where
  "finish_pull B e fileID rm s =
     (let outPath = out_path e fileID in
      case os_MkdirAll (pl_fs s) (Dir outPath) of
        (f1, Inl err) \<Rightarrow> (s\<lparr>pl_fs := f1\<rparr>, Inl (MkdirFailed err))
      | (f1, Inr _) \<Rightarrow>
          (let s1 = s\<lparr>pl_fs := f1, pl_quiet := pl_quiet s @ [outPath]\<rparr> in
           case NewSparseFile f1 outPath (sint (fm_SizeBytes rm)) (int (length (fm_ChunkHashes rm))) of
             (f2, Inl err) \<Rightarrow> (s1\<lparr>pl_fs := f2\<rparr>, Inl (AssemblerFailed err))
           | (f2, Inr sparse) \<Rightarrow>
               (case write_loop (en_CAS e) f2 sparse 0 0 (fm_ChunkHashes rm) of
                  (f3, Inl err) \<Rightarrow> (s1\<lparr>pl_fs := f3\<rparr>, Inl err)
                | (f3, Inr sparse1) \<Rightarrow>
                    (case sparse_Close sparse1 f3 of
                       Inl err \<Rightarrow> (s1\<lparr>pl_fs := f3\<rparr>, Inl (FinalizeFailed err))
                     | Inr _ \<Rightarrow>
                         (case PutFileMeta B (pl_db s) rm of
                            (db1, Inl err) \<Rightarrow> (s1\<lparr>pl_fs := f3, pl_db := db1\<rparr>, Inl (SaveFailed err))
                          | (db1, Inr _) \<Rightarrow>
                              (s1\<lparr>pl_fs := f3, pl_db := db1, pl_announced := pl_announced s @
                                   [(fm_FileID rm, fm_MerkleRoot rm, fm_LamportTS rm)]\<rparr>,
                               Inr Assembled))))))"

section \<open>Pull\<close>

definition local_state :: "'db bolt \<Rightarrow> 'db \<Rightarrow> gostring \<Rightarrow> bytes \<times> bytes list" where
  "local_state B db fileID =
     (case GetFileMeta B db fileID of
        Inl _ \<Rightarrow> ([], [])
      | Inr m \<Rightarrow> (bytes32 (fm_MerkleRoot m), map bytes32 (fm_ChunkHashes m)))"

definition Pull ::
  "'db bolt \<Rightarrow> (gostring \<Rightarrow> (gostring, invoker) result) \<Rightarrow> (int \<Rightarrow> net) \<Rightarrow> (ChunkRarity list \<Rightarrow> ChunkRarity list)
   \<Rightarrow> Engine \<Rightarrow> int \<Rightarrow> gostring list \<Rightarrow> event list \<Rightarrow> gostring \<Rightarrow> PeerInfo list \<Rightarrow> 'db pull_state
   \<Rightarrow> ('db pull_state \<times> (pull_error, pull_ok) result) option" where
  "Pull B dial net srt e now order evs fileID peers s =
     (if peers = [] then Some (s, Inl NoPeers)
      else
        let toHTTP = grpc_map peers; grpcAddrs = map GRPCAddr peers;
            (localRoot, known) = local_state B (pl_db s) fileID
        in case select_source dial (net now) e now toHTTP fileID localRoot known grpcAddrs None of
             Inl lastErr \<Rightarrow> Some (s, Inl (NoPeerHadFile lastErr))
           | Inr (d, rm) \<Rightarrow>
               if dp_IsSynced d then Some (s, Inr InSync)
               else
                 (case spawn [] (BuildRarityMap srt dial now order (dp_MissingChunkHashes d) (en_Secret e) (en_NodeID e)) of
                    (started, Inl hash) \<Rightarrow>
                      (case run_workers net e toHTTP (pl_tracker s, pl_fs s, map new_worker started, []) evs of
                         (tr, f, _, _) \<Rightarrow> Some (s\<lparr>pl_tracker := tr, pl_fs := f\<rparr>, Inl (Unavailable hash)))
                  | (started, Inr _) \<Rightarrow>
                      (case run_workers net e toHTTP (pl_tracker s, pl_fs s, map new_worker started, []) evs of
                         (tr, f, ws, errs) \<Rightarrow>
                           if \<not> list_all finished ws then None
                           else (case errs of
                               h # _ \<Rightarrow> Some (s\<lparr>pl_tracker := tr, pl_fs := f\<rparr>, Inl (Exhausted h))
                             | [] \<Rightarrow> Some (finish_pull B e fileID rm (s\<lparr>pl_tracker := tr, pl_fs := f\<rparr>))))))"

section \<open>What the workers keep\<close>

text \<open>A move touches the disk only through \<open>Put\<close>.\<close>

lemma worker_step_fs:
  assumes "worker_step net e toHTTP now rnd tr f w = (tr', f', w')"
  shows "f' = f \<or> (\<exists>http d. FetchChunk (net now) (en_Client e) now http (wk_hash w) = Inr d \<and>
    f' = fst (Put (en_CAS e) f (wk_hash w) d))"
  using assms
  by (auto simp: worker_step_def split: wmode.splits list.splits option.splits prod.splits sum.splits if_splits)

lemma worker_step_hash:
  "worker_step net e toHTTP now rnd tr f w = (tr', f', w') \<Longrightarrow> wk_hash w' = wk_hash w"
  by (auto simp: worker_step_def split: wmode.splits list.splits option.splits prod.splits sum.splits if_splits)

lemma run_workers_invariant:
  assumes "run_workers net e toHTTP (tr, f, ws, errs) evs = (tr', f', ws', errs')"
    and "I f" and "\<And>f now http h d. I f \<Longrightarrow> FetchChunk (net now) (en_Client e) now http h = Inr d \<Longrightarrow>
      I (fst (Put (en_CAS e) f h d))"
  shows "I f'"
  using assms(1,2)
proof (induction evs arbitrary: tr f ws errs)
  case (Cons ev evs)
  show ?case
  proof (cases "ev_worker ev < length ws")
    case True
    obtain t1 f1 w1 where w: "worker_step net e toHTTP (ev_now ev) (ev_rnd ev) tr f (ws ! ev_worker ev) = (t1, f1, w1)"
      by (metis prod.exhaust)
    have "I f1" using worker_step_fs [OF w] Cons.prems(2) assms(3) by blast
    with Cons True w show ?thesis by simp
  next
    case False
    with Cons show ?thesis by simp
  qed
qed simp

text \<open>Every own move of an unfinished worker brings it nearer to its end.\<close>

definition work_left :: "worker \<Rightarrow> nat" where
  "work_left w = (case wk_mode w of
     WNext \<Rightarrow> 4 * length (wk_peers w) + 1
   | WTry _ k \<Rightarrow> 4 * length (wk_peers w) + 1 + (4 - k)
   | _ \<Rightarrow> 0)"

definition attempt_ok :: "worker \<Rightarrow> bool" where
  "attempt_ok w \<longleftrightarrow> (\<forall>http k. wk_mode w = WTry http k \<longrightarrow> 1 \<le> k \<and> k \<le> 3)"

lemma work_left_0: "work_left w = 0 \<longleftrightarrow> finished w"
  by (auto simp: work_left_def finished_def split: wmode.splits)

lemma worker_step_progress:
  assumes "worker_step net e toHTTP now rnd tr f w = (tr', f', w')" and "attempt_ok w"
  shows "attempt_ok w'" and "finished w \<Longrightarrow> w' = w" and "\<not> finished w \<Longrightarrow> work_left w' < work_left w"
  using assms
  by (auto simp: worker_step_def attempt_ok_def finished_def work_left_def
      split: wmode.splits list.splits option.splits prod.splits sum.splits if_splits)

definition moves :: "nat \<Rightarrow> event list \<Rightarrow> nat" where
  "moves i evs = length (filter (\<lambda>ev. ev_worker ev = i) evs)"

lemma run_workers_work:
  assumes "run_workers net e toHTTP (tr, f, ws, errs) evs = (tr', f', ws', errs')"
    and "\<forall>w \<in> set ws. attempt_ok w"
  shows "length ws' = length ws \<and> (\<forall>i < length ws. work_left (ws' ! i) \<le> work_left (ws ! i) - moves i evs)"
  using assms
proof (induction evs arbitrary: tr f ws errs)
  case (Cons ev evs)
  let ?i = "ev_worker ev"
  show ?case
  proof (cases "?i < length ws")
    case True
    obtain t1 f1 w1 where w: "worker_step net e toHTTP (ev_now ev) (ev_rnd ev) tr f (ws ! ?i) = (t1, f1, w1)"
      by (metis prod.exhaust)
    have ok: "attempt_ok (ws ! ?i)" using Cons.prems(2) True by simp
    have step: "work_left w1 \<le> work_left (ws ! ?i) - 1"
      using worker_step_progress [OF w ok] work_left_0 [of "ws ! ?i"] by (cases "finished (ws ! ?i)") auto
    have "\<forall>w \<in> set (ws[?i := w1]). attempt_ok w"
      using Cons.prems(2) worker_step_progress(1) [OF w ok] set_update_subset_insert [of ws ?i w1] by auto
    with Cons.IH [of t1 f1 "ws[?i := w1]"] Cons.prems(1) True w
    have IH: "length ws' = length ws"
      "\<And>j. j < length ws \<Longrightarrow> work_left (ws' ! j) \<le> work_left (ws[?i := w1] ! j) - moves j evs"
      by simp_all
    have "work_left (ws' ! j) \<le> work_left (ws ! j) - moves j (ev # evs)" if "j < length ws" for j
      using IH(2) [OF that] step that True by (cases "j = ?i") (auto simp: moves_def)
    with IH(1) show ?thesis by simp
  next
    case False
    then have "moves i (ev # evs) = moves i evs" if "i < length ws" for i
      using that by (auto simp: moves_def)
    with Cons False show ?thesis by simp
  qed
qed (simp add: moves_def)

lemma workers_finish:
  assumes "run_workers net e toHTTP (tr, f, map new_worker started, errs) evs = (tr', f', ws', errs')"
    and "\<And>i. i < length started \<Longrightarrow> 4 * length (cr_Peers (started ! i)) + 1 \<le> moves i evs"
  shows "list_all finished ws'"
proof -
  have "\<forall>w \<in> set (map new_worker started). attempt_ok w" by (auto simp: attempt_ok_def new_worker_def)
  from run_workers_work [OF assms(1) this]
  have "length ws' = length started" "\<And>i. i < length started \<Longrightarrow> work_left (ws' ! i) = 0"
    using assms(2) by (auto simp: work_left_def new_worker_def)
  then show ?thesis by (auto simp: list_all_length work_left_0)
qed

section \<open>What assembling keeps\<close>

text \<open>A blob is a Go slice, so it is shorter than \<open>2 ^ 63\<close> bytes; the running offset then leaves
  its range at most by turning negative, and a write at a negative offset fails.\<close>

definition blobs_fit :: "CASBlobStore \<Rightarrow> fs \<Rightarrow> bool" where
  "blobs_fit cas f \<longleftrightarrow> (\<forall>h d. stored cas f h = Some d \<longrightarrow> length d < 2 ^ 63)"

abbreviation (input) zeros :: "nat \<Rightarrow> bytes" where
  "zeros n \<equiv> replicate n (CHR 0x00)"

lemma write_at_zeros:
  "write_at (P @ zeros (n - length P)) (length P) d = (P @ d) @ zeros (n - length (P @ d))"
  by (simp add: write_at_def resize_def)

lemma next_offset:
  assumes "length P < 2 ^ 63" and "length d < 2 ^ 63"
  shows "wrap64 (int (length P) + int (length d)) = int (length (P @ d)) \<and> length (P @ d) < 2 ^ 63 \<or>
    wrap64 (int (length P) + int (length d)) < 0"
proof (cases "length P + length d < 2 ^ 63")
  case True
  then have "int (length P) + int (length d) < 2 ^ 63" by simp
  with True show ?thesis by (simp add: wrap64_id)
next
  case False
  then have "2 ^ 63 \<le> int (length P) + int (length d)" "int (length P) + int (length d) < 2 ^ 64"
    using assms by simp_all
  then show ?thesis using wrap64_over by simp
qed

lemma WriteChunk_fresh:
  assumes "WriteChunk sp f (int i) off d = (sp', f', Inr ())" and "sparse_inv sp"
    and "i < length (sf_bitmap sp)" and "\<not> sf_bitmap sp ! i" and "ents f (sf_file sp) = Some (FFile c)"
  shows "0 \<le> off" and "f' = fs_set f (sf_file sp) (Some (FFile (write_at c (nat off) d)))"
    and "sp' = sp\<lparr>sf_bitmap := (sf_bitmap sp)[i := True], sf_chunksDone := sf_chunksDone sp + 1\<rparr>"
  using assms
  by (auto simp: WriteChunk_def file_WriteAt_def sparse_inv_def split: if_splits option.splits)

lemma write_loop_ok:
  assumes "write_loop cas f sp i off hs = (f', Inr sp')" and "cas_inv cas f" and "blobs_fit cas f"
    and "\<forall>h. sf_file sp \<noteq> obj_path cas f h"
    and "ents f (sf_file sp) = Some (FFile (P @ zeros (n - length P)))"
    and "off = int (length P) \<and> length P < 2 ^ 63 \<or> off < 0"
    and "\<forall>j < length (sf_bitmap sp). sf_bitmap sp ! j \<longleftrightarrow> j < i"
    and "sparse_inv sp" and "length (sf_bitmap sp) = i + length hs"
  shows "\<exists>ds. map sha256 ds = hs \<and> sf_file sp' = sf_file sp \<and>
    f' = fs_set f (sf_file sp) (Some (FFile ((P @ concat ds) @ zeros (n - length (P @ concat ds)))))"
  using assms
proof (induction hs arbitrary: f sp i off P)
  case Nil
  then show ?case by (intro exI [of _ "[]"]) (simp add: fs_set_def fun_upd_idem)
next
  case (Cons h hs)
  from Cons.prems(1) obtain d sp1 f1 where g: "Get cas f h = Inr d"
    and w: "WriteChunk sp f (int i) off d = (sp1, f1, Inr ())"
    and l: "write_loop cas f1 sp1 (i + 1) (wrap64 (off + int (length d))) hs = (f', Inr sp')"
    by (auto split: sum.splits prod.splits)
  have i: "i < length (sf_bitmap sp)" "\<not> sf_bitmap sp ! i" using Cons.prems(7,9) by auto
  note fresh = WriteChunk_fresh [OF w Cons.prems(8) i Cons.prems(5)]
  have off: "off = int (length P)" "length P < 2 ^ 63" using fresh(1) Cons.prems(6) by auto
  let ?c = "(P @ d) @ zeros (n - length (P @ d))"
  have f1: "f1 = fs_set f (sf_file sp) (Some (FFile ?c))" using fresh(2) off(1) using write_at_zeros [of P n d] by simp
  have d: "stored cas f h = Some d" using g by (rule cas.get_content)
  have fit: "length d < 2 ^ 63" using Cons.prems(3) d unfolding blobs_fit_def by blast
  have st: "stored cas f1 = stored cas f" unfolding f1 using Cons.prems(4) by (rule stored_fs_set)
  have sp1: "sf_file sp1 = sf_file sp" "sf_bitmap sp1 = (sf_bitmap sp)[i := True]" using fresh(3) by simp_all
  have "\<exists>ds. map sha256 ds = hs \<and> sf_file sp' = sf_file sp1 \<and>
    f' = fs_set f1 (sf_file sp1) (Some (FFile (((P @ d) @ concat ds) @ zeros (n - length ((P @ d) @ concat ds)))))"
  proof (rule Cons.IH [OF l])
    show "cas_inv cas f1" unfolding f1 using Cons.prems(2,4) by (rule cas_inv_fs_set)
    show "blobs_fit cas f1" using Cons.prems(3) by (simp add: blobs_fit_def st)
    show "\<forall>h. sf_file sp1 \<noteq> obj_path cas f1 h" using Cons.prems(4) by (simp add: f1 sp1)
    show "ents f1 (sf_file sp1) = Some (FFile ?c)" by (simp add: f1 sp1)
    show "wrap64 (off + int (length d)) = int (length (P @ d)) \<and> length (P @ d) < 2 ^ 63 \<or> wrap64 (off + int (length d)) < 0"
      unfolding off(1) using off(2) fit by (rule next_offset)
    show "\<forall>j < length (sf_bitmap sp1). sf_bitmap sp1 ! j \<longleftrightarrow> j < i + 1"
      using Cons.prems(7) i by (auto simp: sp1 nth_list_update)
    show "sparse_inv sp1" using sparse_inv_Write [OF Cons.prems(8)] w by (metis fst_conv)
    show "length (sf_bitmap sp1) = i + 1 + length hs" using Cons.prems(9) by (simp add: sp1)
  qed
  then obtain ds where "map sha256 ds = hs" "sf_file sp' = sf_file sp"
    "f' = fs_set f (sf_file sp) (Some (FFile ((P @ concat (d # ds)) @ zeros (n - length (P @ concat (d # ds))))))"
    by (auto simp: sp1 f1)
  moreover have "sha256 d = h" using Cons.prems(2) g by (rule cas.get_hash)
  ultimately show ?case by (intro exI [of _ "d # ds"]) simp
qed

text \<open>Nothing on the way to \<open>p\<close>, nor \<open>p\<close> itself, is an object of the store.\<close>

definition outside :: "CASBlobStore \<Rightarrow> fs \<Rightarrow> path \<Rightarrow> bool" where
  "outside cas f p \<longleftrightarrow> (\<forall>h n. take n p \<noteq> obj_path cas f h)"

lemma outside_range: "outside cas f p \<Longrightarrow> obj_path cas f h \<notin> range (\<lambda>n. take n p)"
proof
  assume "outside cas f p" and "obj_path cas f h \<in> range (\<lambda>n. take n p)"
  then show False unfolding outside_def by (elim rangeE) metis
qed

lemma outside_neq: "outside cas f p \<Longrightarrow> \<forall>h. p \<noteq> obj_path cas f h"
  unfolding outside_def by (metis take_all order_refl)

lemma mkdirs_effect:
  "mkdirs f ps = (f', r) \<Longrightarrow>
   wd f' = wd f \<and> faults f' = faults f \<and> (\<forall>p. p \<notin> set ps \<longrightarrow> ents f' p = ents f p)"
  by (induction f ps rule: mkdirs.induct) (auto split: option.splits fnode.splits if_splits)

lemma cas_frame:
  assumes "wd f' = wd f" and "\<forall>h. ents f' (obj_path cas f h) = ents f (obj_path cas f h)"
  shows "resolve f' = resolve f" and "obj_path cas f' = obj_path cas f"
    and "stored cas f' = stored cas f" and "cas_inv cas f' \<longleftrightarrow> cas_inv cas f"
proof -
  show r: "resolve f' = resolve f" using assms(1) by (rule resolve_cong)
  then show o: "obj_path cas f' = obj_path cas f" by (simp add: obj_path_def fun_eq_iff)
  show "stored cas f' = stored cas f" using assms(2) by (simp add: stored_def o fun_eq_iff)
  show "cas_inv cas f' \<longleftrightarrow> cas_inv cas f" using assms(2) by (simp add: cas_inv_def o)
qed

text \<open>Nothing changes outside \<open>P\<close>.\<close>

definition only_at :: "path set \<Rightarrow> fs \<Rightarrow> fs \<Rightarrow> bool" where
  "only_at P f f' \<longleftrightarrow> wd f' = wd f \<and> faults f' = faults f \<and> (\<forall>q. q \<notin> P \<longrightarrow> ents f' q = ents f q)"

lemma only_at_simps [simp]: "only_at P f f" "p \<in> P \<Longrightarrow> only_at P f (fs_set f p n)"
  by (auto simp: only_at_def fs_set_def)

lemma only_at_trans [trans]: "only_at P f g \<Longrightarrow> only_at P g h \<Longrightarrow> only_at P f h"
  by (simp add: only_at_def)

lemma only_at_cas:
  assumes "only_at P f f'" and "\<forall>h. obj_path cas f h \<notin> P"
  shows "stored cas f' = stored cas f" and "cas_inv cas f' \<longleftrightarrow> cas_inv cas f"
  using assms by (auto simp: only_at_def intro!: cas_frame)

lemma os_MkdirAll_only:
  assumes "os_MkdirAll f s = (f', r)" and "\<And>n. take n (resolve f s) \<in> P"
  shows "only_at P f f'"
proof (cases "ents f (resolve f s) = Some FDir")
  case True
  with assms(1) show ?thesis by (simp add: os_MkdirAll_def Let_def)
next
  case False
  then have m: "mkdirs f (map (\<lambda>n. take n (resolve f s)) [0..<Suc (length (resolve f s))]) = (f', r)"
    using assms(1) by (simp add: os_MkdirAll_def Let_def)
  have "q \<notin> set (map (\<lambda>n. take n (resolve f s)) [0..<Suc (length (resolve f s))])" if "q \<notin> P" for q
    using assms(2) that by (simp only: set_map) blast
  with mkdirs_effect [OF m] show ?thesis unfolding only_at_def by blast
qed

lemma NewSparseFile_ok:
  assumes "NewSparseFile f path sz (int k) = (f', Inr sp)"
  shows "0 \<le> sz" and "sf_file sp = resolve f path" and "sf_bitmap sp = replicate k False"
    and "f' = fs_set f (resolve f path) (Some (FFile (zeros (nat sz))))"
  using assms
  by (auto simp: NewSparseFile_def os_Create_def create_at_def file_Truncate_def resize_def
      split: prod.splits sum.splits if_splits option.splits)

text \<open>A finished pull leaves a file whose pieces hash to the chunk list of the metadata, padded with
  zero bytes up to the recorded size; only that file and missing directories above it are new.\<close>

text \<open>The calls of a \<open>finish_pull\<close> that succeeds.\<close>

lemma finish_pull_parts:
  assumes "finish_pull B e fileID rm s = (s', Inr r)"
  obtains f1 f2 sp f3 sp1 db1 where "os_MkdirAll (pl_fs s) (Dir (out_path e fileID)) = (f1, Inr ())"
    and "NewSparseFile f1 (out_path e fileID) (sint (fm_SizeBytes rm)) (int (length (fm_ChunkHashes rm))) = (f2, Inr sp)"
    and "write_loop (en_CAS e) f2 sp 0 0 (fm_ChunkHashes rm) = (f3, Inr sp1)" and "PutFileMeta B (pl_db s) rm = (db1, Inr ())"
    and "s' = s\<lparr>pl_fs := f3, pl_quiet := pl_quiet s @ [out_path e fileID], pl_db := db1, pl_announced := pl_announced s @
      [(fm_FileID rm, fm_MerkleRoot rm, fm_LamportTS rm)]\<rparr>" and "r = Assembled"
proof -
  let ?out = "out_path e fileID"
  obtain f1 where m: "os_MkdirAll (pl_fs s) (Dir ?out) = (f1, Inr ())"
    using assms by (auto simp: finish_pull_def Let_def split: prod.split_asm sum.split_asm)
  obtain f2 sp where n: "NewSparseFile f1 ?out (sint (fm_SizeBytes rm)) (int (length (fm_ChunkHashes rm))) = (f2, Inr sp)"
    using assms m by (auto simp: finish_pull_def Let_def split: prod.splits sum.splits)
  obtain f3 sp1 where l: "write_loop (en_CAS e) f2 sp 0 0 (fm_ChunkHashes rm) = (f3, Inr sp1)"
    using assms m n by (auto simp: finish_pull_def Let_def split: prod.splits sum.splits)
  obtain db1 where p: "PutFileMeta B (pl_db s) rm = (db1, Inr ())"
    using assms m n l by (auto simp: finish_pull_def Let_def split: prod.splits sum.splits)
  show thesis
    using assms m n l p by (intro that [OF m n l p]) (auto simp: finish_pull_def Let_def split: prod.splits sum.splits)
qed

lemma finish_pull_ok:
  assumes "finish_pull B e fileID rm s = (s', Inr r)"
    and "cas_inv (en_CAS e) (pl_fs s)" and "blobs_fit (en_CAS e) (pl_fs s)"
    and "outside (en_CAS e) (pl_fs s) (resolve (pl_fs s) (out_path e fileID))"
    and "outside (en_CAS e) (pl_fs s) (resolve (pl_fs s) (Dir (out_path e fileID)))"
  shows "r = Assembled"
    and "\<exists>ds. map sha256 ds = fm_ChunkHashes rm \<and> ents (pl_fs s') (resolve (pl_fs s) (out_path e fileID)) =
      Some (FFile (concat ds @ zeros (nat (sint (fm_SizeBytes rm)) - length (concat ds))))"
    and "PutFileMeta B (pl_db s) rm = (pl_db s', Inr ())"
    and "pl_announced s' = pl_announced s @ [(fm_FileID rm, fm_MerkleRoot rm, fm_LamportTS rm)]"
    and "pl_quiet s' = pl_quiet s @ [out_path e fileID]"
    and "stored (en_CAS e) (pl_fs s') = stored (en_CAS e) (pl_fs s)"
    and "cas_inv (en_CAS e) (pl_fs s')"
proof -
  let ?cas = "en_CAS e" and ?f = "pl_fs s" and ?out = "out_path e fileID"
  obtain f1 f2 sp f3 sp1 db1 where m: "os_MkdirAll ?f (Dir ?out) = (f1, Inr ())"
    and n: "NewSparseFile f1 ?out (sint (fm_SizeBytes rm)) (int (length (fm_ChunkHashes rm))) = (f2, Inr sp)"
    and l: "write_loop ?cas f2 sp 0 0 (fm_ChunkHashes rm) = (f3, Inr sp1)" and p: "PutFileMeta B (pl_db s) rm = (db1, Inr ())"
    and s': "s' = s\<lparr>pl_fs := f3, pl_quiet := pl_quiet s @ [?out], pl_db := db1, pl_announced := pl_announced s @
      [(fm_FileID rm, fm_MerkleRoot rm, fm_LamportTS rm)]\<rparr>" "r = Assembled"
    using assms(1) by (rule finish_pull_parts)
  then show "r = Assembled" "PutFileMeta B (pl_db s) rm = (pl_db s', Inr ())"
    "pl_announced s' = pl_announced s @ [(fm_FileID rm, fm_MerkleRoot rm, fm_LamportTS rm)]"
    "pl_quiet s' = pl_quiet s @ [?out]"
    using p by simp_all
  have "only_at (range (\<lambda>n. take n (resolve ?f (Dir ?out)))) ?f f1" using m by (rule os_MkdirAll_only) simp
  moreover note outside_range [OF assms(5)]
  ultimately have fr1: "wd f1 = wd ?f" "\<forall>h. ents f1 (obj_path ?cas ?f h) = ents ?f (obj_path ?cas ?f h)"
    unfolding only_at_def by simp_all
  note c1 = cas_frame [OF fr1]
  have out: "\<forall>h. resolve ?f ?out \<noteq> obj_path ?cas f1 h"
    using outside_neq [OF assms(4)] by (simp add: c1)
  note n' = NewSparseFile_ok [OF n, unfolded c1(1)]
  have st2: "stored ?cas f2 = stored ?cas ?f"
    unfolding n'(4) using stored_fs_set [OF out] c1(3) by simp
  have inv2: "cas_inv ?cas f2" unfolding n'(4) using assms(2) c1(4) out by (intro cas_inv_fs_set) auto
  have obj2: "obj_path ?cas f2 = obj_path ?cas f1" by (simp add: n'(4))
  have "\<exists>ds. map sha256 ds = fm_ChunkHashes rm \<and> sf_file sp1 = sf_file sp \<and>
    f3 = fs_set f2 (sf_file sp) (Some (FFile (([] @ concat ds) @ zeros (nat (sint (fm_SizeBytes rm)) - length ([] @ concat ds)))))"
  proof (rule write_loop_ok [OF l inv2])
    show "blobs_fit ?cas f2" using assms(3) by (simp add: blobs_fit_def st2)
    show "\<forall>h. sf_file sp \<noteq> obj_path ?cas f2 h" using out by (simp add: n'(2) obj2)
    show "sparse_inv sp" using n by (rule sparse_inv_New)
  qed (simp_all add: n'(2,3,4))
  then obtain ds where ds: "map sha256 ds = fm_ChunkHashes rm"
    "f3 = fs_set f2 (resolve ?f ?out) (Some (FFile (concat ds @ zeros (nat (sint (fm_SizeBytes rm)) - length (concat ds)))))"
    by (auto simp: n'(2))
  then show "\<exists>ds. map sha256 ds = fm_ChunkHashes rm \<and> ents (pl_fs s') (resolve ?f ?out) =
      Some (FFile (concat ds @ zeros (nat (sint (fm_SizeBytes rm)) - length (concat ds))))"
    using s'(1) by (intro exI [of _ ds]) simp
  have out2: "\<forall>h. resolve ?f ?out \<noteq> obj_path ?cas f2 h" using out by (simp add: obj2)
  show "stored ?cas (pl_fs s') = stored ?cas ?f" using stored_fs_set [OF out2] st2 s'(1) ds(2) by simp
  show "cas_inv ?cas (pl_fs s')" using cas_inv_fs_set [OF inv2 out2] s'(1) ds(2) by simp
qed

text \<open>Whether it succeeds or not, assembling touches nothing but the output file and the directories
  above it.\<close>

lemma NewSparseFile_only:
  assumes "NewSparseFile f path sz k = (f', r)" and "resolve f path \<in> P"
  shows "only_at P f f'" and "r = Inr sp \<Longrightarrow> sf_file sp = resolve f path"
  using assms
  by (auto simp: NewSparseFile_def os_Create_def create_at_def file_Truncate_def
      split: prod.splits sum.splits if_splits option.splits)

lemma WriteChunk_only:
  assumes "WriteChunk sp f i off d = (sp', f', r)" and "sf_file sp \<in> P"
  shows "only_at P f f'" and "sf_file sp' = sf_file sp"
  using assms
  by (auto simp: WriteChunk_def file_WriteAt_def split: prod.splits sum.splits if_splits option.splits fnode.splits)

lemma write_loop_only:
  "write_loop cas f sp i off hs = (f', r) \<Longrightarrow> sf_file sp \<in> P \<Longrightarrow> only_at P f f'"
proof (induction hs arbitrary: f sp i off)
  case (Cons h hs)
  show ?case
  proof (cases "Get cas f h")
    case (Inl err)
    with Cons.prems show ?thesis by simp
  next
    case g: (Inr d)
    obtain sp1 f1 r1 where w: "WriteChunk sp f (int i) off d = (sp1, f1, r1)" by (metis prod.exhaust)
    note o = WriteChunk_only [OF w Cons.prems(2)]
    show ?thesis
    proof (cases r1)
      case (Inl err)
      with Cons.prems(1) g w o show ?thesis by simp
    next
      case (Inr u)
      with Cons.prems(1) g w
      have "write_loop cas f1 sp1 (i + 1) (wrap64 (off + int (length d))) hs = (f', r)" by simp
      moreover have "sf_file sp1 \<in> P" using Cons.prems(2) o(2) by simp
      ultimately have "only_at P f1 f'" by (rule Cons.IH)
      with o(1) show ?thesis by (rule only_at_trans)
    qed
  qed
qed simp

definition out_places :: "Engine \<Rightarrow> gostring \<Rightarrow> fs \<Rightarrow> path set" where
  "out_places e fileID f = insert (resolve f (out_path e fileID))
     (range (\<lambda>n. take n (resolve f (Dir (out_path e fileID)))))"

lemma finish_pull_only:
  "only_at (out_places e fileID (pl_fs s)) (pl_fs s) (pl_fs (fst (finish_pull B e fileID rm s)))"
proof -
  let ?P = "out_places e fileID (pl_fs s)" and ?out = "out_path e fileID"
  obtain f1 x1 where m: "os_MkdirAll (pl_fs s) (Dir ?out) = (f1, x1)" by (rule prod.exhaust)
  obtain f2 x2 where n: "NewSparseFile f1 ?out (sint (fm_SizeBytes rm)) (int (length (fm_ChunkHashes rm))) = (f2, x2)"
    by (rule prod.exhaust)
  have 1: "only_at ?P (pl_fs s) f1" using m by (rule os_MkdirAll_only) (simp add: out_places_def)
  then have "resolve f1 = resolve (pl_fs s)" by (auto simp: only_at_def intro: resolve_cong)
  then have in1: "resolve f1 ?out \<in> ?P" by (simp add: out_places_def)
  note 2 = only_at_trans [OF 1 NewSparseFile_only(1) [OF n in1]]
  have 3: "only_at ?P (pl_fs s) f3"
    if "x2 = Inr sp" "write_loop (en_CAS e) f2 sp 0 0 (fm_ChunkHashes rm) = (f3, x3)" for sp f3 x3
    using 2 write_loop_only [OF that(2), of ?P] NewSparseFile_only(2) [OF n in1 that(1)] in1
    by (auto intro: only_at_trans)
  show ?thesis
    using m n 1 2 3 by (auto simp: finish_pull_def Let_def split: prod.split sum.split)
qed

lemma write_loop_stored:
  "write_loop cas f sp i off hs = (f', Inr sp') \<Longrightarrow> \<forall>h. sf_file sp \<noteq> obj_path cas f h \<Longrightarrow>
   \<forall>h \<in> set hs. stored cas f h \<noteq> None"
proof (induction hs arbitrary: f sp i off)
  case (Cons h hs)
  from Cons.prems(1) obtain d sp1 f1 where g: "Get cas f h = Inr d"
    and w: "WriteChunk sp f (int i) off d = (sp1, f1, Inr ())"
    and l: "write_loop cas f1 sp1 (i + 1) (wrap64 (off + int (length d))) hs = (f', Inr sp')"
    by (auto split: sum.splits prod.splits)
  note o = WriteChunk_only [OF w, of "{sf_file sp}"]
  have out: "\<forall>h. obj_path cas f h \<notin> {sf_file sp}" using Cons.prems(2) by (metis singletonD)
  then have st: "stored cas f1 = stored cas f" using o(1) by (intro only_at_cas(1)) auto
  have "obj_path cas f1 = obj_path cas f"
    using o(1) out by (intro cas_frame(2)) (auto simp: only_at_def)
  then have "\<forall>h. sf_file sp1 \<noteq> obj_path cas f1 h" using o(2) Cons.prems(2) by simp
  with Cons.IH [OF l] st cas.get_content [OF g] show ?case by simp
qed simp

lemma finish_pull_stored:
  assumes "finish_pull B e fileID rm s = (s', Inr r)"
    and "\<forall>h. obj_path (en_CAS e) (pl_fs s) h \<notin> out_places e fileID (pl_fs s)"
  shows "\<forall>h \<in> set (fm_ChunkHashes rm). stored (en_CAS e) (pl_fs s) h \<noteq> None"
    and "PutFileMeta B (pl_db s) rm = (pl_db s', Inr ())"
proof -
  let ?P = "out_places e fileID (pl_fs s)" and ?out = "out_path e fileID"
  obtain f1 f2 sp f3 sp1 db1 where m: "os_MkdirAll (pl_fs s) (Dir ?out) = (f1, Inr ())"
    and n: "NewSparseFile f1 ?out (sint (fm_SizeBytes rm)) (int (length (fm_ChunkHashes rm))) = (f2, Inr sp)"
    and l: "write_loop (en_CAS e) f2 sp 0 0 (fm_ChunkHashes rm) = (f3, Inr sp1)"
    and p: "PutFileMeta B (pl_db s) rm = (db1, Inr ())" "pl_db s' = db1"
    using assms(1) by (rule finish_pull_parts) simp
  have 1: "only_at ?P (pl_fs s) f1" using m by (rule os_MkdirAll_only) (simp add: out_places_def)
  then have "resolve f1 = resolve (pl_fs s)" by (auto simp: only_at_def intro: resolve_cong)
  then have in1: "resolve f1 ?out \<in> ?P" by (simp add: out_places_def)
  note 2 = only_at_trans [OF 1 NewSparseFile_only(1) [OF n in1]]
  have o2: "obj_path (en_CAS e) f2 = obj_path (en_CAS e) (pl_fs s)"
    using 2 assms(2) by (intro cas_frame(2)) (auto simp: only_at_def)
  have "sf_file sp \<in> ?P" using NewSparseFile_only(2) [OF n in1 refl] in1 by simp
  then have "\<forall>h. sf_file sp \<noteq> obj_path (en_CAS e) f2 h" using assms(2) o2 by metis
  with write_loop_stored [OF l] only_at_cas(1) [OF 2 assms(2)]
  show "\<forall>h \<in> set (fm_ChunkHashes rm). stored (en_CAS e) (pl_fs s) h \<noteq> None" by simp
  show "PutFileMeta B (pl_db s) rm = (pl_db s', Inr ())" using p by simp
qed

text \<open>What a pull needs of its surroundings to keep the store sound: fetched data are Go slices, and the
  output path does not lead through the objects of the store.\<close>

definition fetches_fit :: "(int \<Rightarrow> net) \<Rightarrow> Engine \<Rightarrow> bool" where
  "fetches_fit net e \<longleftrightarrow>
     (\<forall>now http h d. FetchChunk (net now) (en_Client e) now http h = Inr d \<longrightarrow> length d < 2 ^ 63)"

definition store_sound :: "Engine \<Rightarrow> gostring \<Rightarrow> fs \<Rightarrow> bool" where
  "store_sound e fileID f \<longleftrightarrow> cas_inv (en_CAS e) f \<and> blobs_fit (en_CAS e) f \<and>
     outside (en_CAS e) f (resolve f (out_path e fileID)) \<and>
     outside (en_CAS e) f (resolve f (Dir (out_path e fileID)))"

lemma outside_cong: "wd f' = wd f \<Longrightarrow> outside cas f' = outside cas f"
  using resolve_cong [of f' f] by (simp add: outside_def obj_path_def fun_eq_iff)

lemma stored_Put_cases:
  assumes "stored cas (fst (Put cas f h d)) h' = Some d'"
  shows "stored cas f h' = Some d' \<or> d' = d"
proof (cases "h' = h")
  case True
  with assms Put_effect [of cas f h d] show ?thesis
    by (auto simp: stored_def put_effect_def split: option.splits fnode.splits)
next
  case False
  with assms show ?thesis by (simp add: stored_Put_other)
qed

lemma store_sound_Put:
  assumes "store_sound e fileID f" and "length d < 2 ^ 63"
  shows "store_sound e fileID (fst (Put (en_CAS e) f h d))"
proof -
  let ?f = "fst (Put (en_CAS e) f h d)"
  have wd: "wd ?f = wd f" by simp
  have "blobs_fit (en_CAS e) ?f" unfolding blobs_fit_def
  proof (intro allI impI)
    fix h' d' assume "stored (en_CAS e) ?f h' = Some d'"
    then show "length d' < 2 ^ 63"
      using assms stored_Put_cases [of "en_CAS e" f h d h' d'] by (auto simp: store_sound_def blobs_fit_def)
  qed
  with assms(1) show ?thesis
    by (simp add: store_sound_def cas.put_inv outside_cong [OF wd] resolve_cong [OF wd])
qed

lemma store_sound_run:
  assumes "run_workers net e toHTTP (tr, f, ws, errs) evs = (tr', f', ws', errs')"
    and "store_sound e fileID f" and "fetches_fit net e"
  shows "store_sound e fileID f'" and "stored (en_CAS e) f h \<noteq> None \<Longrightarrow> stored (en_CAS e) f' h \<noteq> None"
    and "resolve f' = resolve f"
proof -
  let ?I = "\<lambda>g. store_sound e fileID g \<and> wd g = wd f \<and> (stored (en_CAS e) f h \<noteq> None \<longrightarrow> stored (en_CAS e) g h \<noteq> None)"
  have "?I f'"
  proof (rule run_workers_invariant [OF assms(1), where I = ?I])
    fix g now http h' d
    assume "?I g" and "FetchChunk (net now) (en_Client e) now http h' = Inr d"
    then show "?I (fst (Put (en_CAS e) g h' d))"
      using assms(3) store_sound_Put [of e fileID g d h'] cas.put_mono [of "en_CAS e" g h h' d]
      by (simp add: fetches_fit_def store_sound_def)
  qed (use assms(2) in simp)
  then show "store_sound e fileID f'" "stored (en_CAS e) f h \<noteq> None \<Longrightarrow> stored (en_CAS e) f' h \<noteq> None"
    "resolve f' = resolve f" using resolve_cong [of f' f] by simp_all
qed

lemma store_sound_finish:
  assumes "store_sound e fileID (pl_fs s)"
  shows "cas_inv (en_CAS e) (pl_fs (fst (finish_pull B e fileID rm s)))"
    and "stored (en_CAS e) (pl_fs (fst (finish_pull B e fileID rm s))) = stored (en_CAS e) (pl_fs s)"
proof -
  have "\<forall>h. obj_path (en_CAS e) (pl_fs s) h \<notin> out_places e fileID (pl_fs s)"
    using assms outside_neq [of "en_CAS e" "pl_fs s"] outside_range [of "en_CAS e" "pl_fs s"]
    by (simp add: store_sound_def out_places_def) metis
  from only_at_cas [OF finish_pull_only this] assms
  show "cas_inv (en_CAS e) (pl_fs (fst (finish_pull B e fileID rm s)))"
    "stored (en_CAS e) (pl_fs (fst (finish_pull B e fileID rm s))) = stored (en_CAS e) (pl_fs s)"
    by (simp_all add: store_sound_def)
qed

lemma grpc_map_of: "grpc_map peers = map_of (rev (map (\<lambda>p. (GRPCAddr p, HTTPAddr p)) peers))"
proof -
  have "foldl (\<lambda>m p. m(GRPCAddr p \<mapsto> HTTPAddr p)) m peers = m ++ map_of (rev (map (\<lambda>p. (GRPCAddr p, HTTPAddr p)) peers))"
    for m by (induction peers arbitrary: m) (simp_all add: map_add_def fun_eq_iff split: option.split)
  then show ?thesis by (simp add: grpc_map_def)
qed

lemma grpc_map_range: "grpc_map peers g = Some h \<Longrightarrow> \<exists>p \<in> set peers. GRPCAddr p = g \<and> HTTPAddr p = h"
  unfolding grpc_map_of by (drule map_of_SomeD) auto

lemma grpc_map_dom: "p \<in> set peers \<Longrightarrow> grpc_map peers (GRPCAddr p) \<noteq> None"
  unfolding grpc_map_of map_of_eq_None_iff by force

lemma select_source_ok:
  assumes "select_source dial net e now toHTTP fileID localRoot known addrs lastErr = Inr (d, rm)"
    and "\<And>a. a \<in> set addrs \<Longrightarrow> toHTTP a \<noteq> None"
  shows "\<exists>a \<in> set addrs. \<exists>h. toHTTP a = Some h \<and> FetchMeta net (en_Client e) now h fileID = Inr rm \<and>
    dp_RemoteMerkleRoot d \<noteq> []"
  using assms
proof (induction addrs arbitrary: lastErr)
  case (Cons a addrs)
  obtain h where h: "toHTTP a = Some h" using Cons.prems(2) [of a] by auto
  let ?found = "FetchMeta net (en_Client e) now h fileID = Inr rm \<and> dp_RemoteMerkleRoot d \<noteq> []"
  have "?found \<or> (\<exists>le. select_source dial net e now toHTTP fileID localRoot known addrs le = Inr (d, rm))"
    using Cons.prems(1) h
    by (auto simp: Let_def split: sum.split_asm if_split_asm)
  then show ?case
  proof
    assume ?found
    with h show ?thesis by auto
  next
    assume "\<exists>le. select_source dial net e now toHTTP fileID localRoot known addrs le = Inr (d, rm)"
    then obtain le where "select_source dial net e now toHTTP fileID localRoot known addrs le = Inr (d, rm)" ..
    from Cons.IH [OF this] Cons.prems(2) show ?thesis by simp
  qed
qed simp

text \<open>The ways \<open>Pull\<close> ends: before any transfer, after the transfers, or in assembling.\<close>

lemma Pull_cases:
  assumes "Pull B dial net srt e now order evs fileID peers s = Some (s', r)"
  obtains (early) "s' = s" and "r \<noteq> Inr Assembled"
  | (failed) tr f ws errs started where
      "run_workers net e (grpc_map peers) (pl_tracker s, pl_fs s, map new_worker started, []) evs = (tr, f, ws, errs)"
      "s' = s\<lparr>pl_tracker := tr, pl_fs := f\<rparr>" and "r \<noteq> Inr Assembled"
  | (assembled) tr f ws started localRoot known d rm where
      "select_source dial (net now) e now (grpc_map peers) fileID localRoot known (map GRPCAddr peers) None = Inr (d, rm)"
      "run_workers net e (grpc_map peers) (pl_tracker s, pl_fs s, map new_worker started, []) evs = (tr, f, ws, [])"
      "finish_pull B e fileID rm (s\<lparr>pl_tracker := tr, pl_fs := f\<rparr>) = (s', r)"
proof -
  obtain lr kn where l: "local_state B (pl_db s) fileID = (lr, kn)" by (rule prod.exhaust)
  let ?sel = "select_source dial (net now) e now (grpc_map peers) fileID lr kn (map GRPCAddr peers) None"
  consider "peers = []" | err where "peers \<noteq> []" "?sel = Inl err"
    | d rm where "peers \<noteq> []" "?sel = Inr (d, rm)"
    by (cases ?sel) auto
  then show thesis
  proof cases
    case 1
    with assms show thesis by (intro early) (auto simp: Pull_def)
  next
    case 2
    with assms l show thesis by (intro early) (auto simp: Pull_def)
  next
    case (3 d rm)
    show thesis
    proof (cases "dp_IsSynced d")
      case True
      with 3 assms l show thesis by (intro early) (auto simp: Pull_def)
    next
      case False
      obtain started x where sp: "spawn [] (BuildRarityMap srt dial now order (dp_MissingChunkHashes d)
        (en_Secret e) (en_NodeID e)) = (started, x)" by (rule prod.exhaust)
      obtain tr f ws errs where run: "run_workers net e (grpc_map peers)
        (pl_tracker s, pl_fs s, map new_worker started, []) evs = (tr, f, ws, errs)" by (rule prod_cases4)
      have P: "(case x of Inl hash \<Rightarrow> Some (s\<lparr>pl_tracker := tr, pl_fs := f\<rparr>, Inl (Unavailable hash))
          | Inr _ \<Rightarrow> if \<not> list_all finished ws then None
              else (case errs of h # _ \<Rightarrow> Some (s\<lparr>pl_tracker := tr, pl_fs := f\<rparr>, Inl (Exhausted h))
                | [] \<Rightarrow> Some (finish_pull B e fileID rm (s\<lparr>pl_tracker := tr, pl_fs := f\<rparr>)))) = Some (s', r)"
        using assms by (cases x) (simp_all add: Pull_def 3 l False sp run)
      show thesis
      proof (cases x)
        case (Inl h)
        with P show thesis by (intro failed [OF run]) auto
      next
        case (Inr u)
        show thesis
        proof (cases errs)
          case Nil
          with P Inr 3(2) run show thesis by (intro assembled) (auto split: if_splits)
        next
          case (Cons h hs)
          with P Inr show thesis by (intro failed [OF run]) (auto split: if_splits)
        qed
      qed
    qed
  qed
qed

lemma finish_pull_failed:
  "finish_pull B e fileID rm s = (s', Inl err) \<Longrightarrow> pl_announced s' = pl_announced s"
  by (auto simp: finish_pull_def Let_def split: prod.split_asm sum.split_asm)

lemma finish_pull_result: "finish_pull B e fileID rm s = (s', r) \<Longrightarrow> r = Inr Assembled \<or> (\<exists>err. r = Inl err)"
  by (auto simp: finish_pull_def Let_def split: prod.split_asm sum.split_asm)

lemma spawn_prefix: "spawn acc cs = (started, x) \<Longrightarrow> \<exists>k. started = acc @ take k cs"
proof (induction acc cs rule: spawn.induct)
  case (2 acc c cs)
  show ?case
  proof (cases "cr_Peers c = []")
    case True
    with 2(2) show ?thesis by (intro exI [of _ 0]) simp
  next
    case False
    with 2 obtain k where "started = (acc @ [c]) @ take k cs" by auto
    then show ?thesis by (intro exI [of _ "Suc k"]) simp
  qed
qed simp

lemma run_workers_nobody: "run_workers net e toHTTP (tr, f, [], errs) evs = (tr, f, [], errs)"
  by (induction evs) simp_all

text \<open>A round-robin schedule.\<close>

definition rounds :: "nat \<Rightarrow> nat \<Rightarrow> event list" where
  "rounds m k = concat (replicate m (map (\<lambda>i. \<lparr>ev_worker = i, ev_now = 4, ev_rnd = 0\<rparr>) [0..<k]))"

lemma moves_rounds: "i < k \<Longrightarrow> moves i (rounds m k) = m"
proof -
  assume "i < k"
  moreover have "filter (\<lambda>j. j = i) [0..<k] = (if i < k then [i] else [])" by (induction k) auto
  ultimately have "filter (\<lambda>j. j = i) [0..<k] = [i]" by simp
  then show ?thesis unfolding rounds_def by (induction m) (simp_all add: moves_def filter_map comp_def)
qed

section \<open>Properties\<close>

text \<open>A peer that answers every request for data with the metadata of the empty file \<^verbatim>\<open>a\<close>, and
  whose control service reports the given missing chunks and nothing available.\<close>

definition demo_file :: FileMeta where
  "demo_file = \<lparr>fm_FileID = ''a'', fm_MerkleRoot = zero32, fm_LamportTS = 1, fm_ChunkHashes = [], fm_SizeBytes = 0\<rparr>"

definition demo_pnet :: "int \<Rightarrow> net" where
  "demo_pnet t host req = Inr \<lparr>rs_StatusCode = 200, rs_Header = no_header,
     rs_Body = Inr (json_Encode (FileMeta_json demo_file))\<rparr>"

definition demo_dial :: "bytes list \<Rightarrow> gostring \<Rightarrow> (gostring, invoker) result" where
  "demo_dial missing addr = Inr (\<lambda>meth md req. Inr (case req of
     DiffReq q \<Rightarrow> DiffResp \<lparr>dp_FileId = dq_FileId q, dp_RemoteMerkleRoot = bytes32 zero32, dp_IsSynced = False,
       dp_MissingChunkHashes = missing\<rparr>
   | AvailReq _ \<Rightarrow> AvailResp []
   | PingReq _ \<Rightarrow> PingResp \<lparr>pg_NodeId = ''b'', pg_UptimeSecs = 0\<rparr>))"

definition demo_engine :: Engine where
  "demo_engine = NewEngine ''n'' ''k'' ''/s'' demo_store demo_dclient"

definition demo_peer :: PeerInfo where
  "demo_peer = \<lparr>pi_Name = ''b'', pi_Addr = ''h'', pi_HTTPPort = 1, pi_GRPCPort = 2\<rparr>"

definition demo_pull :: "(bytes \<times> bytes) list pull_state" where
  "demo_pull = \<lparr>pl_fs = empty_cas_fs, pl_db = [], pl_tracker = NewHealthTracker, pl_quiet = [], pl_announced = []\<rparr>"

lemma demo_engine_sel [simp]:
  "en_Secret demo_engine = ''k''" "en_NodeID demo_engine = ''n''" "en_CAS demo_engine = demo_store"
  "en_Client demo_engine = demo_dclient"
  by (simp_all add: demo_engine_def NewEngine_def)

lemma demo_addrs [simp]: "HTTPAddr demo_peer = ''h:1''" "GRPCAddr demo_peer = ''h:2''"
  by code_simp+

lemma demo_FetchMeta: "FetchMeta (demo_pnet t) demo_dclient now ''h:1'' ''a'' = Inr demo_file"
proof -
  have "json_Decode (json_Encode (FileMeta_json demo_file)) = Some (FileMeta_json demo_file)"
    by (rule json_Decode_Encode) (simp add: demo_file_def)
  moreover have "plain_host ''h:1''"
    by (simp add: plain_host_def host_ok_def host_char_def valid_port_def ctl_byte_def digit_val_def)
  ultimately show ?thesis
    by (simp add: FetchMeta_def meta_request ctl_byte_def demo_pnet_def)
qed

lemma demo_select:
  "select_source (demo_dial missing) (demo_pnet t) demo_engine now (grpc_map [demo_peer]) ''a'' [] [] [''h:2''] None =
   Inr (\<lparr>dp_FileId = ''a'', dp_RemoteMerkleRoot = bytes32 zero32, dp_IsSynced = False,
     dp_MissingChunkHashes = missing\<rparr>, demo_file)"
proof -
  have "bytes32 zero32 \<noteq> []" using length_bytes32 [of zero32] by force
  then show ?thesis
    by (simp add: NewControlClient_def demo_dial_def demo_engine_def NewEngine_def grpc_map_def demo_FetchMeta
        Diff_def client_call_def UnaryClientInterceptor_def Let_def)
qed

lemma demo_local: "local_state list_bolt (pl_db demo_pull) ''a'' = ([], [])"
  by (simp add: local_state_def demo_pull_def GetFileMeta_def list_bolt_def)

lemma demo_out: "resolve f (out_path demo_engine ''a'') = [''s'', ''a'']" "resolve f (Dir (out_path demo_engine ''a'')) = [''s'']"
  by code_simp+

lemma demo_sound: "store_sound demo_engine ''a'' (pl_fs demo_pull)" "fetches_fit demo_pnet demo_engine"
proof -
  have "outside demo_store empty_cas_fs (''s'' # p)" for p
    by (auto simp: outside_def obj_path_def take_Cons split: nat.split)
  then show "store_sound demo_engine ''a'' (pl_fs demo_pull)"
    by (simp add: store_sound_def demo_out) (simp add: demo_engine_def demo_pull_def NewEngine_def blobs_fit_def)
  have "length (json_Encode (FileMeta_json demo_file)) < 400" by code_simp
  then show "fetches_fit demo_pnet demo_engine"
    by (auto simp: fetches_fit_def FetchChunk_def demo_pnet_def split: option.splits)
qed

lemma demo_finish:
  "snd (finish_pull list_bolt demo_engine ''a'' demo_file demo_pull) = Inr Assembled"
proof -
  have m: "os_MkdirAll (pl_fs demo_pull) (Dir (out_path demo_engine ''a'')) = (fs_set empty_cas_fs [''s''] (Some FDir), Inr ())"
    by (simp add: os_MkdirAll_def demo_out Let_def demo_pull_def empty_cas_fs_def faulty_def)
  have n: "no_faults (fs_set empty_cas_fs p x)" for p x by (simp add: no_faults_def empty_cas_fs_def)
  have "ents empty_cas_fs [''s'', ''a''] = None" by (simp add: empty_cas_fs_def)
  then show ?thesis using n
    by (simp add: finish_pull_def m Let_def demo_file_def NewSparseFile_def os_Create_def create_at_def demo_out
        file_Truncate_def sparse_Close_def file_Close_def PutFileMeta_def list_bolt_def)
qed

lemma demo_Pull:
  "Pull list_bolt (demo_dial missing) demo_pnet (sort_key peer_count) demo_engine now [''h:2''] evs ''a'' [demo_peer] demo_pull =
     (if missing = [] then Some (finish_pull list_bolt demo_engine ''a'' demo_file demo_pull)
      else Some (demo_pull, Inl (Unavailable (hd missing))))"
proof -
  let ?M = "BuildRarityMap (sort_key peer_count) (demo_dial missing) now [''h:2''] missing ''k'' ''n''"
  have "?M = map (\<lambda>h. \<lparr>cr_Hash = h, cr_Peers = []\<rparr>) missing"
    by (simp add: BuildRarityMap_def rarity_of_def ask_peer_def NewControlClient_def demo_dial_def CheckAvailability_def
        client_call_def UnaryClientInterceptor_def Let_def rarity_list_def)
       (simp add: sort_key_id_if_sorted peer_count_def comp_def sorted_replicate map_replicate_const)
  moreover have "demo_pull\<lparr>pl_tracker := pl_tracker demo_pull, pl_fs := pl_fs demo_pull\<rparr> = demo_pull" by simp
  ultimately show ?thesis
    by (cases missing) (simp_all add: Pull_def demo_local demo_select run_workers_nobody Let_def del: select_source.simps)
qed



text \<open>C13. A pull returns: for every network, disk and set of peers there is a number of moves after which
  it has come to a result, however the moves of the goroutines are interleaved.\<close>

theorem pull_returns:
  "\<exists>n. \<forall>evs. (\<forall>i < n. n \<le> moves i evs) \<longrightarrow> Pull B dial net srt e now order evs fileID peers s \<noteq> None"
proof -
  let ?sel = "select_source dial (net now) e now (grpc_map peers) fileID (fst (local_state B (pl_db s) fileID))
    (snd (local_state B (pl_db s) fileID)) (map GRPCAddr peers) None"
  show ?thesis
  proof (cases "peers = [] \<or> isl ?sel \<or> dp_IsSynced (fst (projr ?sel))")
    case True
    then show ?thesis
      by (intro exI [of _ 0]) (auto simp: Pull_def Let_def split: prod.splits sum.splits)
  next
    case False
    then obtain d rm where sel: "?sel = Inr (d, rm)" "\<not> dp_IsSynced d" "peers \<noteq> []" by (cases ?sel) auto
    let ?M = "BuildRarityMap srt dial now order (dp_MissingChunkHashes d) (en_Secret e) (en_NodeID e)"
    let ?n = "length ?M + (\<Sum>c \<leftarrow> ?M. 4 * length (cr_Peers c) + 1)"
    obtain started x where sp: "spawn [] ?M = (started, x)" by (rule prod.exhaust)
    obtain k where k: "started = take k ?M" using spawn_prefix [OF sp] by auto
    have "Pull B dial net srt e now order evs fileID peers s \<noteq> None" if fair: "\<forall>i < ?n. ?n \<le> moves i evs" for evs
    proof -
      obtain tr f ws errs where run: "run_workers net e (grpc_map peers)
        (pl_tracker s, pl_fs s, map new_worker started, []) evs = (tr, f, ws, errs)" by (rule prod_cases4)
      have "4 * length (cr_Peers (started ! i)) + 1 \<le> moves i evs" if "i < length started" for i
      proof -
        have "started ! i \<in> set ?M" using that k by (simp add: nth_mem)
        then have "4 * length (cr_Peers (started ! i)) + 1 \<le> (\<Sum>c \<leftarrow> ?M. 4 * length (cr_Peers c) + 1)"
          by (intro member_le_sum_list) (auto simp: image_iff)
        moreover have "?n \<le> moves i evs" using fair that k by simp
        ultimately show ?thesis by linarith
      qed
      with run have "list_all finished ws" by (rule workers_finish)
      then show ?thesis using sel sp run
        by (auto simp: Pull_def Let_def split_def split: sum.split list.split)
    qed
    then show ?thesis by blast
  qed
qed

theorem pull_returns_witness:
  "\<exists>evs. (\<forall>i < 2. 2 \<le> moves i evs) \<and> Pull list_bolt (demo_dial [''h'']) demo_pnet (sort_key peer_count) demo_engine 4
     [''h:2''] evs ''a'' [demo_peer] demo_pull \<noteq> None"
proof -
  from pull_returns [of list_bolt "demo_dial [''h'']" demo_pnet "sort_key peer_count" demo_engine 4 "[''h:2'']" "''a''"
      "[demo_peer]" demo_pull]
  obtain n where n: "\<forall>evs. (\<forall>i < n. n \<le> moves i evs) \<longrightarrow> Pull list_bolt (demo_dial [''h'']) demo_pnet
      (sort_key peer_count) demo_engine 4 [''h:2''] evs ''a'' [demo_peer] demo_pull \<noteq> None" ..
  have "\<forall>i < n. n \<le> moves i (rounds (n + 2) (n + 2))" "\<forall>i < 2. 2 \<le> moves i (rounds (n + 2) (n + 2))"
    using moves_rounds by force+
  with n show ?thesis by blast
qed

text \<open>A chunk that no peer has stops the pull before any transfer: disk, index, tracker and callbacks
  are untouched.\<close>

lemma pull_unavailable:
  assumes "peers \<noteq> []" and "local_state B (pl_db s) fileID = (localRoot, known)"
    and "select_source dial (net now) e now (grpc_map peers) fileID localRoot known (map GRPCAddr peers) None = Inr (d, rm)"
    and "\<not> dp_IsSynced d" and "sort_spec srt"
    and "c \<in> set (BuildRarityMap srt dial now order (dp_MissingChunkHashes d) (en_Secret e) (en_NodeID e))"
    and "cr_Peers c = []"
  shows "\<exists>hash \<in> set (dp_MissingChunkHashes d).
    Pull B dial net srt e now order evs fileID peers s = Some (s, Inl (Unavailable hash))"
proof -
  let ?M = "BuildRarityMap srt dial now order (dp_MissingChunkHashes d) (en_Secret e) (en_NodeID e)"
  obtain c0 cs where M: "?M = c0 # cs" using assms(6) by (cases ?M) auto
  have "sorted (map peer_count ?M)" using assms(5) by (simp add: BuildRarityMap_def sort_spec_def)
  then have "peer_count c0 \<le> peer_count c" using assms(6) M by auto
  then have none: "cr_Peers c0 = []" using assms(7) by (simp add: peer_count_def)
  have "c0 \<in> set ?M" by (simp add: M)
  with assms(5) have "cr_Hash c0 \<in> set (dp_MissingChunkHashes d)" by (rule BuildRarityMap_entry(1))
  moreover have "Pull B dial net srt e now order evs fileID peers s = Some (s, Inl (Unavailable (cr_Hash c0)))"
    using assms(1-4) M none by (simp add: Pull_def run_workers_nobody)
  ultimately show ?thesis by blast
qed

end
