(* ===== verification/Clock.thy ===== *)
theory Clock
  imports Prelude
begin

text \<open>
  \<^verbatim>\<open>internal/daemon/daemon.go\<close>: the Lamport clock and the conflict rule.  \<open>nextTS\<close> is one
  atomic addition; \<open>observeTS\<close> is a loop of a load and a compare-and-swap, modelled step by step so
  that several calls can interleave (\<open>run_clock\<close>).  The lemmas show that the clock only grows, that
  local timestamps are distinct and later than everything observed before, and that no call of
  \<open>observeTS\<close> retries more often than there are other calls, all of it as long as the 64-bit
  counter does not overflow.  \<open>remoteWins\<close> is the conflict rule; locale \<open>lww\<close> says what a rule
  must promise so that the winner does not depend on the order in which versions are seen.
\<close>

section \<open>The operations\<close>

text \<open>The new value of the clock, and the result.\<close>

definition nextTS :: "uint64 \<Rightarrow> uint64 \<times> uint64" where
  "nextTS clock = (clock + 1, clock + 1)"

text \<open>Before the load, before the compare-and-swap with the value loaded, or returned.\<close>

datatype opc = OLoad | OCas uint64 | ORet

definition observe_step :: "uint64 \<Rightarrow> uint64 \<Rightarrow> opc \<Rightarrow> uint64 \<times> opc" where
  "observe_step remote clock pc =
     (case pc of
        OLoad \<Rightarrow> (clock, if remote \<le> clock then ORet else OCas clock)
      | OCas cur \<Rightarrow> if clock = cur then (remote, ORet) else (clock, OLoad)
      | ORet \<Rightarrow> (clock, ORet))"

text \<open>A call that nobody interrupts.\<close>

definition observeTS :: "uint64 \<Rightarrow> uint64 \<Rightarrow> uint64" where
  "observeTS clock remote = (if remote \<le> clock then clock else remote)"

definition remoteWins :: "uint64 \<Rightarrow> gostring \<Rightarrow> uint64 \<Rightarrow> gostring \<Rightarrow> bool" where
  "remoteWins localTS localNode remoteTS remoteNode =
     (if remoteTS \<noteq> localTS then remoteTS > localTS else remoteNode > localNode)"

section \<open>Interleaved calls\<close>

datatype clock_call = Observe uint64 opc | Next "uint64 option"

definition call_step :: "uint64 \<Rightarrow> clock_call \<Rightarrow> uint64 \<times> clock_call" where
  "call_step clock call =
     (case call of
        Observe remote pc \<Rightarrow> (case observe_step remote clock pc of (clock', pc') \<Rightarrow> (clock', Observe remote pc'))
      | Next None \<Rightarrow> (case nextTS clock of (clock', ts) \<Rightarrow> (clock', Next (Some ts)))
      | Next (Some ts) \<Rightarrow> (clock, call))"

fun run_clock :: "uint64 \<times> clock_call list \<Rightarrow> nat list \<Rightarrow> uint64 \<times> clock_call list" where
  "run_clock st [] = st"
| "run_clock (clock, calls) (i # sched) =
     (if i < length calls then
        (case call_step clock (calls ! i) of (clock', call') \<Rightarrow> run_clock (clock', calls[i := call']) sched)
      else run_clock (clock, calls) sched)"

lemma observe_alone:
  "fst (run_clock (clock, [Observe remote OLoad]) [0, 0]) = observeTS clock remote"
  by (simp add: call_step_def observe_step_def observeTS_def)

definition returned :: "clock_call \<Rightarrow> bool" where
  "returned call = (case call of Observe _ pc \<Rightarrow> pc = ORet | Next r \<Rightarrow> r \<noteq> None)"

definition call_ts :: "clock_call \<Rightarrow> uint64 option" where
  "call_ts call = (case call of Observe _ _ \<Rightarrow> None | Next r \<Rightarrow> r)"

text \<open>Calls that may still move the clock.\<close>

definition weight :: "clock_call \<Rightarrow> nat" where
  "weight call = (if returned call then 0 else 1)"

definition pending :: "clock_call list \<Rightarrow> nat" where
  "pending calls = sum_list (map weight calls)"

text \<open>\<open>hi\<close> bounds every remote timestamp and the clock; with room for the calls still pending there
  is no overflow.\<close>

definition headroom :: "nat \<Rightarrow> uint64 \<Rightarrow> clock_call list \<Rightarrow> bool" where
  "headroom hi clock calls \<longleftrightarrow> hi + pending calls < 2 ^ 64 \<and> unat clock \<le> hi \<and>
     (\<forall>r pc. Observe r pc \<in> set calls \<longrightarrow> unat r \<le> hi)"

section \<open>What interleaving keeps\<close>

definition call_ok :: "uint64 \<Rightarrow> clock_call \<Rightarrow> bool" where
  "call_ok clock call = (case call of
     Observe r pc \<Rightarrow> (case pc of OLoad \<Rightarrow> True | OCas cur \<Rightarrow> cur < r | ORet \<Rightarrow> r \<le> clock)
   | Next None \<Rightarrow> True
   | Next (Some t) \<Rightarrow> t \<le> clock)"

definition distinct_ts :: "clock_call list \<Rightarrow> bool" where
  "distinct_ts calls \<longleftrightarrow> (\<forall>i < length calls. \<forall>j < length calls. \<forall>t. i \<noteq> j \<longrightarrow>
     call_ts (calls ! i) = Some t \<longrightarrow> call_ts (calls ! j) \<noteq> Some t)"

definition clock_inv :: "uint64 \<Rightarrow> clock_call list \<Rightarrow> bool" where
  "clock_inv clock calls \<longleftrightarrow> (\<exists>hi. headroom hi clock calls) \<and> (\<forall>c \<in> set calls. call_ok clock c) \<and> distinct_ts calls"

lemma call_ok_mono: "call_ok clock c \<Longrightarrow> clock \<le> clock' \<Longrightarrow> call_ok clock' c"
  by (auto simp: call_ok_def split: clock_call.splits opc.splits option.splits)

lemma call_step_facts:
  assumes "call_step clock call = (clock', call')" and "call_ok clock call"
  shows "call_ok clock' call'" and "returned call \<Longrightarrow> call' = call \<and> clock' = clock"
    and "call' = Observe r pc \<Longrightarrow> \<exists>pc'. call = Observe r pc'"
    and "clock' = clock \<and> call_ts call' = call_ts call \<and> call \<noteq> Next None \<or>
      \<not> returned call \<and> returned call' \<and> call_ts call' = None \<and> (\<exists>r pc. call = Observe r pc \<and> clock < r \<and> clock' = r) \<or>
      call = Next None \<and> clock' = clock + 1 \<and> call' = Next (Some clock')"
  using assms
  by (auto simp: call_step_def observe_step_def nextTS_def call_ok_def returned_def call_ts_def
      split: clock_call.splits opc.splits option.splits if_splits)

lemma pending_update:
  assumes "i < length calls"
  shows "pending (calls[i := c]) + weight (calls ! i) = pending calls + weight c"
  using assms elem_le_sum_list [of i "map weight calls"]
  by (simp add: pending_def map_update sum_list_update)

lemma unat_succ:
  fixes clock :: uint64
  assumes "unat clock \<le> hi" and "hi + 1 < 2 ^ 64"
  shows "unat (clock + 1) = unat clock + 1" and "clock < clock + 1"
proof -
  show u: "unat (clock + 1) = unat clock + 1" using assms by (simp add: unat_word_ariths)
  then show "clock < clock + 1" by (simp add: word_less_nat_alt)
qed

lemma headroom_step:
  assumes "headroom hi clock calls" and "i < length calls" and "call_step clock (calls ! i) = (clock', call')"
    and "call_ok clock (calls ! i)"
  shows "(\<exists>hi. headroom hi clock' (calls[i := call'])) \<and> clock \<le> clock' \<and>
    (calls ! i = Next None \<longrightarrow> clock < clock')"
proof -
  note facts = call_step_facts [OF assms(3,4)]
  note pend = pending_update [OF assms(2), of call']
  have obs: "unat r \<le> hi" if "Observe r pc \<in> set (calls[i := call'])" for r pc
  proof -
    have "Observe r pc \<in> set calls \<or> (\<exists>pc'. calls ! i = Observe r pc')"
      using that set_update_subset_insert [of calls i call'] facts(3) by blast
    then show ?thesis using assms(1) nth_mem [OF assms(2)] unfolding headroom_def by metis
  qed
  have room: "hi + pending calls < 2 ^ 64" "unat clock \<le> hi" using assms(1) by (auto simp: headroom_def)
  from facts(4) show ?thesis
  proof (elim disjE conjE exE)
    assume "clock' = clock" "calls ! i \<noteq> Next None"
    moreover have "weight call' \<le> weight (calls ! i)" using facts(2) by (auto simp: weight_def)
    ultimately have "headroom hi clock' (calls[i := call'])" using obs pend room by (auto simp: headroom_def)
    with \<open>clock' = clock\<close> \<open>calls ! i \<noteq> Next None\<close> show ?thesis by auto
  next
    fix r pc assume r: "\<not> returned (calls ! i)" "returned call'" "calls ! i = Observe r pc" "clock < r" "clock' = r"
    have "unat r \<le> hi" using assms(1) nth_mem [OF assms(2)] r(3) unfolding headroom_def by metis
    then have "headroom hi clock' (calls[i := call'])" using obs pend room r by (auto simp: headroom_def weight_def)
    with r show ?thesis by auto
  next
    assume t: "calls ! i = Next None" "clock' = clock + 1" "call' = Next (Some clock')"
    have w: "weight (calls ! i) = 1" "weight call' = 0" by (simp_all add: t(1,3) weight_def returned_def)
    then have "hi + 1 < 2 ^ 64" using pend room by simp
    note u = unat_succ [OF room(2) this]
    have "headroom (hi + 1) clock' (calls[i := call'])"
      unfolding headroom_def using obs pend room w u(1) t(2) by (auto simp: le_Suc_eq)
    with t u(2) show ?thesis by auto
  qed
qed

lemma clock_inv_step:
  assumes "clock_inv clock calls" and "i < length calls" and "call_step clock (calls ! i) = (clock', call')"
  shows "clock_inv clock' (calls[i := call']) \<and> clock \<le> clock' \<and> (calls ! i = Next None \<longrightarrow> clock < clock')"
proof -
  from assms(1) obtain hi where hi: "headroom hi clock calls"
    and ok: "\<And>c. c \<in> set calls \<Longrightarrow> call_ok clock c" and dt: "distinct_ts calls"
    by (auto simp: clock_inv_def)
  have oki: "call_ok clock (calls ! i)" using ok assms(2) by simp
  note room = headroom_step [OF hi assms(2,3) oki]
  note facts = call_step_facts [OF assms(3) oki]
  have "\<forall>c \<in> set (calls[i := call']). call_ok clock' c"
    using set_update_subset_insert [of calls i call'] facts(1) ok room call_ok_mono by blast
  moreover have "distinct_ts (calls[i := call'])"
  proof (cases "call_ts call' = call_ts (calls ! i) \<or> call_ts call' = None")
    case True
    then have "\<And>j t. call_ts (calls[i := call'] ! j) = Some t \<Longrightarrow> call_ts (calls ! j) = Some t"
      using assms(2) by (metis nth_list_update option.distinct(1))
    with dt show ?thesis unfolding distinct_ts_def length_list_update by metis
  next
    case False
    with facts(4) have t: "calls ! i = Next None" "call_ts call' = Some clock'" by (auto simp: call_ts_def)
    have new: "call_ts (calls ! j) \<noteq> Some clock'" if "j < length calls" for j
      using ok [OF nth_mem [OF that]] room t(1) by (auto simp: call_ts_def call_ok_def split: clock_call.splits)
    show ?thesis unfolding distinct_ts_def length_list_update
    proof (intro allI impI)
      fix a b t'
      assume ab: "a < length calls" "b < length calls" "a \<noteq> b" "call_ts (calls[i := call'] ! a) = Some t'"
      have old: "call_ts (calls ! a) = Some t' \<Longrightarrow> call_ts (calls ! b) \<noteq> Some t'"
        using dt ab unfolding distinct_ts_def by blast
      consider "a = i" "b \<noteq> i" | "a \<noteq> i" "b = i" | "a \<noteq> i" "b \<noteq> i" using ab(3) by blast
      then show "call_ts (calls[i := call'] ! b) \<noteq> Some t'"
      proof cases
        case 1
        with ab t(2) new [OF ab(2)] show ?thesis by simp
      next
        case 2
        with ab t(2) new [OF ab(1)] show ?thesis by simp
      next
        case 3
        with ab(4) old show ?thesis by simp
      qed
    qed
  qed
  ultimately show ?thesis using room by (simp add: clock_inv_def)
qed

lemma run_clock_inv:
  assumes "run_clock (clock, calls) sched = (clock', calls')" and "clock_inv clock calls"
  shows "clock_inv clock' calls' \<and> clock \<le> clock' \<and> length calls' = length calls \<and>
    (\<forall>i < length calls. \<forall>t. (calls ! i = Next None \<longrightarrow> calls' ! i = Next (Some t) \<longrightarrow> clock < t) \<and>
      (returned (calls ! i) \<longrightarrow> calls' ! i = calls ! i))"
  using assms
proof (induction sched arbitrary: clock calls)
  case (Cons i sched)
  show ?case
  proof (cases "i < length calls")
    case True
    obtain c1 call1 where st: "call_step clock (calls ! i) = (c1, call1)" by (rule prod.exhaust)
    note step = clock_inv_step [OF Cons.prems(2) True st]
    have oki: "call_ok clock (calls ! i)" using Cons.prems(2) True by (simp add: clock_inv_def)
    note facts = call_step_facts [OF st oki]
    have r: "run_clock (c1, calls[i := call1]) sched = (clock', calls')" using Cons.prems(1) True st by simp
    note IH = Cons.IH [OF r conjunct1 [OF step]]
    have ret: "returned (calls ! j) \<longrightarrow> calls' ! j = calls ! j" if "j < length calls" for j
      using IH that facts(2) True by (cases "j = i") auto
    have nxt: "clock < t" if "j < length calls" "calls ! j = Next None" "calls' ! j = Next (Some t)" for j t
    proof (cases "j = i")
      case True
      with that facts(4) have "call1 = Next (Some c1)" "clock < c1" using step by auto
      moreover from this have "calls' ! j = call1" using IH that(1) True by (auto simp: returned_def)
      ultimately show ?thesis using that(3) by simp
    next
      case False
      then have "c1 < t" using IH that by auto
      with step show ?thesis by auto
    qed
    show ?thesis using IH step ret nxt by auto
  next
    case False
    with Cons show ?thesis by simp
  qed
qed simp

section \<open>Retries\<close>

text \<open>A compare-and-swap fails only when another call has moved the clock since the load, and every
  call moves it at most once.\<close>

definition rank :: "uint64 \<Rightarrow> clock_call \<Rightarrow> nat" where
  "rank clock call = (case call of
     Observe _ OLoad \<Rightarrow> 2
   | Observe _ (OCas cur) \<Rightarrow> if cur = clock then 1 else 3
   | _ \<Rightarrow> 0)"

definition effort :: "uint64 \<Rightarrow> clock_call list \<Rightarrow> nat \<Rightarrow> nat" where
  "effort clock calls i = 2 * pending calls + rank clock (calls ! i)"

lemma call_step_rank:
  assumes "call_step clock call = (clock', call')"
  shows "\<not> returned call \<Longrightarrow> 2 * weight call' + rank clock' call' < 2 * weight call + rank clock call"
    and "returned call \<Longrightarrow> call' = call \<and> clock' = clock"
    and "2 * weight call' + (if clock' = clock then 0 else 2) \<le> 2 * weight call"
  using assms
  by (auto simp: call_step_def observe_step_def nextTS_def rank_def weight_def returned_def
      split: clock_call.splits opc.splits option.splits if_splits)

lemma effort_step:
  assumes "i < length calls" and "j < length calls" and "call_step clock (calls ! j) = (clock', call')"
  shows "effort clock' (calls[j := call']) i \<le> effort clock calls i -
    (if j = i \<and> \<not> returned (calls ! i) then 1 else 0)"
proof -
  note step = call_step_rank [OF assms(3)]
  note pend = pending_update [OF assms(2), of call']
  have r: "rank clock' c \<le> rank clock c + (if clock' = clock then 0 else 2)" for c
    by (auto simp: rank_def split: clock_call.splits opc.splits)
  show ?thesis
  proof (cases "j = i")
    case True
    then show ?thesis using step(1,2) pend assms(1) by (cases "returned (calls ! i)") (auto simp: effort_def)
  next
    case False
    have "2 * pending (calls[j := call']) + (if clock' = clock then 0 else 2) \<le> 2 * pending calls"
      using pend step(3) by auto
    with False r [of "calls ! i"] assms(1) show ?thesis by (auto simp: effort_def split: if_splits)
  qed
qed

lemma run_clock_ret:
  assumes "run_clock (clock, calls) sched = (clock', calls')" and "i < length calls" and "returned (calls ! i)"
  shows "calls' ! i = calls ! i"
  using assms
proof (induction sched arbitrary: clock calls)
  case (Cons j sched)
  then show ?case
    using call_step_rank(2) [of clock "calls ! j"]
    by (cases "j = i") (auto split: if_splits prod.splits)
qed simp

lemma run_clock_effort:
  assumes "run_clock (clock, calls) sched = (clock', calls')" and "i < length calls"
  shows "length calls' = length calls \<and>
    (returned (calls' ! i) \<or> effort clock' calls' i + count_list sched i \<le> effort clock calls i)"
  using assms
proof (induction sched arbitrary: clock calls)
  case (Cons j sched)
  show ?case
  proof (cases "j < length calls")
    case True
    obtain c1 call1 where st: "call_step clock (calls ! j) = (c1, call1)" by (rule prod.exhaust)
    have r: "run_clock (c1, calls[j := call1]) sched = (clock', calls')" using Cons.prems(1) True st by simp
    note IH = Cons.IH [OF r] and e = effort_step [OF Cons.prems(2) True st]
    show ?thesis
    proof (cases "j = i \<and> returned (calls ! i)")
      case ret: True
      then have same: "c1 = clock" "calls[j := call1] = calls"
        using call_step_rank(2) [OF st] by auto
      have "returned (calls' ! i)"
        using run_clock_ret [OF r [unfolded same] Cons.prems(2)] ret by simp
      with IH Cons.prems(2) show ?thesis by simp
    next
      case False
      have "0 < effort clock calls i" if "\<not> returned (calls ! i)"
      proof -
        have "weight (calls ! i) \<le> pending calls" unfolding pending_def
          using elem_le_sum_list [of i "map weight calls"] Cons.prems(2) by simp
        with that show ?thesis by (simp add: effort_def weight_def)
      qed
      with IH e False Cons.prems(2) show ?thesis by (auto split: if_splits)
    qed
  next
    case False
    with Cons show ?thesis by auto
  qed
qed simp

section \<open>Last writer wins\<close>

text \<open>A node that meets versions one after the other and keeps the winner so far.\<close>

fun settle :: "('v \<Rightarrow> 'v \<Rightarrow> bool) \<Rightarrow> 'v \<Rightarrow> 'v list \<Rightarrow> 'v" where
  "settle wins v [] = v"
| "settle wins v (w # ws) = settle wins (if wins v w then w else v) ws"

locale lww =
  fixes wins :: "'v \<Rightarrow> 'v \<Rightarrow> bool"
  assumes wins_irrefl: "\<not> wins v v"
    and wins_trans: "wins u v \<Longrightarrow> wins v w \<Longrightarrow> wins u w"
    and wins_total: "u \<noteq> v \<Longrightarrow> wins u v \<or> wins v u"
begin

lemma settle_best: "settle wins v ws \<in> set (v # ws) \<and> (\<forall>u \<in> set (v # ws). \<not> wins (settle wins v ws) u)"
proof (induction ws arbitrary: v)
  case Nil
  show ?case by (simp add: wins_irrefl)
next
  case (Cons w ws)
  let ?b = "if wins v w then w else v"
  note IH = Cons [of ?b]
  have "\<not> wins (settle wins ?b ws) u" if "u \<in> {v, w}" for u
  proof
    assume "wins (settle wins ?b ws) u"
    moreover have "u = ?b \<or> wins u ?b" using that wins_total by auto
    ultimately have "wins (settle wins ?b ws) ?b" using wins_trans by blast
    with IH show False by simp
  qed
  with IH show ?case by auto
qed

lemma settle_order:
  assumes "set (v # ws) = set (v' # ws')"
  shows "settle wins v ws = settle wins v' ws'"
  using settle_best [of v ws] settle_best [of v' ws'] assms wins_total by metis

end

text \<open>The rule on versions named by timestamp and node.\<close>

definition version_wins :: "uint64 \<times> gostring \<Rightarrow> uint64 \<times> gostring \<Rightarrow> bool" where
  "version_wins u v = remoteWins (fst u) (snd u) (fst v) (snd v)"

interpretation rw: lww version_wins
  by unfold_locales (auto simp: version_wins_def remoteWins_def split: if_splits)

section \<open>Properties\<close>

definition fresh :: "clock_call \<Rightarrow> bool" where
  "fresh call \<longleftrightarrow> (\<exists>r. call = Observe r OLoad) \<or> call = Next None"

lemma fresh_inv:
  assumes "headroom hi clock calls" and "\<forall>c \<in> set calls. fresh c"
  shows "clock_inv clock calls"
proof -
  have "call_ts (calls ! i) = None" if "i < length calls" for i
    using assms(2) nth_mem [OF that] by (auto simp: fresh_def call_ts_def)
  then show ?thesis using assms by (auto simp: clock_inv_def distinct_ts_def fresh_def call_ok_def)
qed

text \<open>C12. The Lamport clock under concurrent calls, as long as the counter has room: it never goes back;
  an observed timestamp is reached when the call returns; a local timestamp drawn after that is
  larger; and no two local writes get the same timestamp.\<close>

theorem clock_lamport:
  assumes "headroom hi clock calls" and "\<forall>c \<in> set calls. fresh c"
    and "run_clock (clock, calls) sched1 = (clock1, calls1)" and "run_clock (clock1, calls1) sched2 = (clock2, calls2)"
    and "i < length calls" and "j < length calls" and "i \<noteq> j"
  shows "clock \<le> clock1 \<and> clock1 \<le> clock2 \<and>
    (calls1 ! i = Observe r ORet \<longrightarrow> r \<le> clock1 \<and>
      (calls1 ! j = Next None \<and> calls2 ! j = Next (Some t) \<longrightarrow> r < t)) \<and>
    (calls2 ! i = Next (Some t) \<longrightarrow> t \<le> clock2 \<and> calls2 ! j \<noteq> Next (Some t))"
proof -
  have r1: "clock_inv clock1 calls1" "clock \<le> clock1" "length calls1 = length calls"
    using run_clock_inv [OF assms(3) fresh_inv [OF assms(1,2)]] by blast+
  have r2: "clock_inv clock2 calls2" "clock1 \<le> clock2" "length calls2 = length calls1"
    "calls1 ! j = Next None \<Longrightarrow> calls2 ! j = Next (Some t) \<Longrightarrow> clock1 < t"
    using run_clock_inv [OF assms(4) r1(1)] assms(6) r1(3) by auto
  have "r \<le> clock1" if "calls1 ! i = Observe r ORet"
  proof -
    have "calls1 ! i \<in> set calls1" using assms(5) r1(3) by simp
    with r1(1) that show ?thesis unfolding clock_inv_def by (auto simp: call_ok_def)
  qed
  moreover have "t \<le> clock2 \<and> calls2 ! j \<noteq> Next (Some t)" if "calls2 ! i = Next (Some t)"
  proof -
    have "calls2 ! i \<in> set calls2" "i < length calls2" "j < length calls2"
      using assms(5,6) r1(3) r2(3) by simp_all
    with r2(1) that assms(7) show ?thesis
      unfolding clock_inv_def distinct_ts_def by (force simp: call_ok_def call_ts_def)
  qed
  ultimately show ?thesis using r1(2) r2(2,4) by auto
qed

theorem clock_lamport_witness:
  "fst (run_clock (5, [Observe 9 OLoad, Next None, Next None]) [0, 1, 0, 0, 0, 2]) = 10 \<and>
   (9 :: uint64) < 10"
proof -
  let ?calls = "[Observe 9 OLoad, Next None, Next None]"
  have h: "headroom 9 5 ?calls" by (auto simp: headroom_def pending_def weight_def returned_def)
  have f: "\<forall>c \<in> set ?calls. fresh c" by (simp add: fresh_def)
  have a: "run_clock (5, ?calls) [0, 1, 0, 0, 0] = (9, [Observe 9 ORet, Next (Some 6), Next None])" by code_simp
  have b: "run_clock (9, [Observe 9 ORet, Next (Some 6), Next None]) [2] = (10, [Observe 9 ORet, Next (Some 6), Next (Some 10)])"
    by code_simp
  have "run_clock (5, ?calls) [0, 1, 0, 0, 0, 2] = (10, [Observe 9 ORet, Next (Some 6), Next (Some 10)])" by code_simp
  with clock_lamport [OF h f a b, of 0 2 9 10] show ?thesis by simp
qed

text \<open>C24. A call of \<open>observeTS\<close> does not retry forever: whatever other calls do and however they are
  interleaved, it has returned after twice as many own moves as there are calls, plus two.\<close>

theorem observe_returns:
  assumes "\<forall>c \<in> set calls. fresh c" and "run_clock (clock, calls) sched = (clock', calls')"
    and "i < length calls" and "2 * length calls + 2 < count_list sched i"
  shows "returned (calls' ! i)"
proof -
  have "pending calls \<le> length calls" unfolding pending_def
    by (induction calls) (simp_all add: weight_def)
  moreover have "rank clock (calls ! i) \<le> 2"
    using assms(1) nth_mem [OF assms(3)] by (auto simp: fresh_def rank_def)
  ultimately have "effort clock calls i \<le> 2 * length calls + 2" by (simp add: effort_def)
  with run_clock_effort [OF assms(2,3)] assms(4) show ?thesis by auto
qed

theorem observe_returns_witness:
  "returned (snd (run_clock (5, [Observe 9 OLoad, Next None]) [0, 1, 0, 0, 0, 0, 0, 0]) ! 0)"
proof -
  have f: "\<forall>c \<in> set [Observe 9 OLoad, Next None]. fresh c" by (simp add: fresh_def)
  from observe_returns [OF f prod.collapse [symmetric], of 0 "[0, 1, 0, 0, 0, 0, 0, 0]" 5]
  show ?thesis by simp
qed

text \<open>The room in the counter matters: a peer that sends the largest timestamp makes the next local
  write restart at zero, before everything observed.\<close>

lemma clock_overflow:
  "nextTS (observeTS clock (- 1)) = (0, 0) \<and>
   \<not> remoteWins (observeTS clock (- 1)) n (snd (nextTS (observeTS clock (- 1)))) n'"
proof -
  have "observeTS clock (- 1) = - 1" using word_order.extremum_uniqueI [of clock] by (auto simp: observeTS_def)
  then show ?thesis by (simp add: nextTS_def remoteWins_def)
qed



end
