(* ===== verification/Quiet.thy ===== *)
theory Quiet
  imports GoOs Auth
begin

text \<open>
  \<^verbatim>\<open>internal/daemon/quiet.go\<close>: the test whether one directory lies inside another, and the set of
  paths the engine is writing to, whose change notifications are ignored for a while.  \<open>isSubPath\<close>
  is shown to be containment of the resolved paths; \<open>IsQuiet\<close> holds exactly while the lifetime of
  the last mark lasts.
\<close>

section \<open>Containment of directories\<close>

definition isSubPath :: "fs \<Rightarrow> gostring \<Rightarrow> gostring \<Rightarrow> bool" where
  "isSubPath f base candidate =
     (case Abs (os_Getwd f) base of
        None \<Rightarrow> False
      | Some absBase \<Rightarrow>
          (case Abs (os_Getwd f) candidate of
             None \<Rightarrow> False
           | Some absCandidate \<Rightarrow>
               (case Rel absBase absCandidate of
                  None \<Rightarrow> False
                | Some rel \<Rightarrow>
                    if rel = ''.'' then True
                    else rel \<noteq> ''..'' \<and> \<not> prefix (''..'' @ [slash]) rel)))"

lemma join_path_Cons: "ws \<noteq> [] \<Longrightarrow> join_path (w # ws) = w @ slash # join_path ws"
  by (cases ws) simp_all

lemma join_path_up:
  assumes "\<forall>w \<in> set ts. normal_comp w" and "bs \<noteq> []"
  shows "join_path (replicate (length bs) ''..'' @ ts) = ''..'' \<or>
    prefix (''..'' @ [slash]) (join_path (replicate (length bs) ''..'' @ ts))"
proof -
  obtain b bs' where bs: "bs = b # bs'" using assms(2) by (cases bs) auto
  show ?thesis
  proof (cases "replicate (length bs') ''..'' @ ts = []")
    case True
    then show ?thesis by (simp add: bs)
  next
    case False
    then show ?thesis by (simp add: bs join_path_Cons)
  qed
qed

lemma join_path_down:
  assumes "\<forall>w \<in> set ts. normal_comp w" and "ts \<noteq> []"
  shows "join_path ts \<noteq> ''..''" and "\<not> prefix (''..'' @ [slash]) (join_path ts)"
proof -
  have s: "SplitOn slash (join_path ts) = ts"
    using assms by (intro SplitOn_join_path) (auto simp: normal_comp_def)
  have hd: "hd ts \<noteq> ''..''" using assms by (cases ts) (auto simp: normal_comp_def)
  show "join_path ts \<noteq> ''..''"
  proof
    assume "join_path ts = ''..''"
    with s have "ts = [''..'']" by (simp add: eq_commute)
    with hd show False by simp
  qed
  show "\<not> prefix (''..'' @ [slash]) (join_path ts)"
  proof
    assume "prefix (''..'' @ [slash]) (join_path ts)"
    then obtain r where "join_path ts = ''..'' @ slash # r" by (auto simp: prefix_def)
    with s have "ts = SplitOn slash (''..'' @ slash # r)" by simp
    then have "hd ts = ''..''" by (simp add: SplitOn_append_sep)
    with hd show False by simp
  qed
qed

lemma isSubPath_prefix:
  assumes "normal_path (wd f)"
  shows "isSubPath f base candidate \<longleftrightarrow> prefix (resolve f base) (resolve f candidate)"
proof -
  let ?b = "resolve f base" and ?c = "resolve f candidate"
  have n: "\<forall>w \<in> set ?b. normal_comp w" "\<forall>w \<in> set ?c. normal_comp w"
    using resolve_normal [OF assms] by (simp_all add: normal_path_def)
  obtain bs ts where s: "strip_common ?b ?c = (bs, ts)" by (cases "strip_common ?b ?c") auto
  obtain p where p: "?b = p @ bs" "?c = p @ ts" "bs = [] \<or> ts = [] \<or> hd bs \<noteq> hd ts"
    using strip_common_props [OF s] by blast
  have nt: "\<forall>w \<in> set ts. normal_comp w" using n(2) p(2) by simp
  show ?thesis
  proof (cases "bs = []")
    case True
    have "isSubPath f base candidate"
    proof (cases "ts = []")
      case True
      with \<open>bs = []\<close> p have "?b = ?c" by simp
      with n show ?thesis by (simp add: isSubPath_def Abs_resolve [OF assms] Rel_abs)
    next
      case False
      then have "?b \<noteq> ?c" using \<open>bs = []\<close> p by simp
      with s True join_path_down [OF nt False] show ?thesis
        by (simp add: isSubPath_def Abs_resolve [OF assms] Rel_abs [OF n])
    qed
    with True p show ?thesis by simp
  next
    case False
    then have "\<not> prefix ?b ?c" using p by (cases bs; cases ts) auto
    moreover from this have "?b \<noteq> ?c" by auto
    moreover have "join_path (replicate (length bs) ''..'' @ ts) \<noteq> ''.''"
      using join_path_up [OF nt False] by auto
    ultimately show ?thesis
      using join_path_up [OF nt False] s by (auto simp: isSubPath_def Abs_resolve [OF assms] Rel_abs [OF n])
  qed
qed

section \<open>Quiet paths\<close>

record quietSet =
  qs_ttl :: int
  qs_m :: "gostring \<rightharpoonup> int"

definition newQuietSet :: "int \<Rightarrow> quietSet" where
  "newQuietSet ttl = \<lparr>qs_ttl = ttl, qs_m = Map.empty\<rparr>"

definition Mark :: "quietSet \<Rightarrow> int \<Rightarrow> gostring \<Rightarrow> quietSet" where
  "Mark q now path = q\<lparr>qs_m := (qs_m q)(path \<mapsto> now)\<rparr>"

definition IsQuiet :: "quietSet \<Rightarrow> int \<Rightarrow> gostring \<Rightarrow> quietSet \<times> bool" where
  "IsQuiet q now path =
     (case qs_m q path of
        None \<Rightarrow> (q, False)
      | Some t \<Rightarrow>
          if time_Sub now t > qs_ttl q then (q\<lparr>qs_m := (qs_m q)(path := None)\<rparr>, False)
          else (q, True))"

text \<open>Queries in time order, each against the set the previous one left.\<close>

fun ask_quiet :: "quietSet \<Rightarrow> (int \<times> gostring) list \<Rightarrow> bool list" where
  "ask_quiet q [] = []"
| "ask_quiet q ((now, path) # qs) = (case IsQuiet q now path of (q', b) \<Rightarrow> b # ask_quiet q' qs)"

definition is_quiet_at :: "quietSet \<Rightarrow> int \<times> gostring \<Rightarrow> bool" where
  "is_quiet_at q nq = (case qs_m q (snd nq) of None \<Rightarrow> False | Some t \<Rightarrow> time_Sub (fst nq) t \<le> qs_ttl q)"

lemma time_Sub_mono: "a \<le> b \<Longrightarrow> time_Sub a t \<le> time_Sub b t"
  by (auto simp: time_Sub_def sat64_def)

lemma IsQuiet_later:
  assumes "fst nq \<ge> now"
  shows "is_quiet_at (fst (IsQuiet q now path)) nq = is_quiet_at q nq"
proof (cases "qs_m q path")
  case (Some t)
  have "\<not> time_Sub (fst nq) t \<le> qs_ttl q" if "time_Sub now t > qs_ttl q"
    using that time_Sub_mono [OF assms, of t] by linarith
  with Some show ?thesis by (auto simp: IsQuiet_def is_quiet_at_def split: option.split)
qed (simp add: IsQuiet_def)

lemma ask_quiet_pure:
  "sorted (map fst qs) \<Longrightarrow> ask_quiet q qs = map (is_quiet_at q) qs"
proof (induction q qs rule: ask_quiet.induct)
  case (2 q now path qs)
  obtain q' b where i: "IsQuiet q now path = (q', b)" by (rule prod.exhaust)
  have b: "b = is_quiet_at q (now, path)"
    using i by (auto simp: IsQuiet_def is_quiet_at_def split: option.splits if_splits)
  have "is_quiet_at q' nq = is_quiet_at q nq" if "nq \<in> set qs" for nq
    using IsQuiet_later [of now nq q path] that "2.prems" i by auto
  then have "map (is_quiet_at q') qs = map (is_quiet_at q) qs" by simp
  with 2 i b show ?case by simp
qed simp

section \<open>Properties\<close>

text \<open>\<open>isSubPath\<close> is exactly containment of the directories the two arguments name, for relative
  and absolute arguments with any dots and double slashes.\<close>

lemma isSubPath_exact:
  assumes "normal_path (wd f)"
  shows "isSubPath f base candidate \<longleftrightarrow> (\<exists>rest. resolve f candidate = resolve f base @ rest)"
  using isSubPath_prefix [OF assms, of base candidate] by (simp add: prefix_def)

text \<open>Echo suppression: after a mark, a path is quiet for exactly the lifetime of the set from the
  last mark on, other paths are as they were, and the answers to queries in time order do not
  depend on the entries that earlier queries dropped.\<close>

theorem quiet_window:
  assumes "sorted (map fst qs)"
  shows "ask_quiet (Mark q now path) qs =
    map (\<lambda>(t, p). if p = path then time_Sub t now \<le> qs_ttl q else is_quiet_at q (t, p)) qs"
  using ask_quiet_pure [OF assms, of "Mark q now path"]
  by (auto simp: Mark_def is_quiet_at_def split: option.split)

theorem quiet_window_witness:
  "ask_quiet (Mark (newQuietSet 5000000000) 7000000000 ''/s/a'')
     [(8000000000, ''/s/b''), (12000000000, ''/s/a''), (12000000001, ''/s/a'')] = [False, True, False]"
  using quiet_window [of "[(8000000000, ''/s/b''), (12000000000, ''/s/a''), (12000000001, ''/s/a'')]"
    "newQuietSet 5000000000" 7000000000 "''/s/a''"]
  by (simp add: newQuietSet_def is_quiet_at_def time_Sub_def sat64_def)

end
