(* ===== verification/Watcher.thy ===== *)
theory Watcher
  imports GoOs
begin

text \<open>
  \<^verbatim>\<open>internal/watcher/watcher.go\<close>: which directories are watched, and the debouncing of change
  notifications.  \<open>filepath.Walk\<close> runs over a snapshot of the tree with its possible errors.  The
  event loop and the timers it starts are a step relation: the loop handles an event, time passes, a
  timer expires and starts its goroutine, the goroutine runs \<open>fire\<close>, the context is cancelled.  A
  timer is a number; \<open>wt_armed\<close> gives the deadlines of the armed ones, so that resetting a timer
  that has expired already, and goroutines that run late, are part of the model.
\<close>

section \<open>The constructor\<close>

text \<open>\<open>notify\<close> is the outcome of creating the notifier.  The callback is the handler of the daemon.\<close>

record Watcher =
  w_rootDir :: gostring

definition NewWatcher :: "(gostring, unit) result \<Rightarrow> gostring \<Rightarrow> (gostring, Watcher) result" where
  [simp]: "NewWatcher notify rootDir = (case notify of Inl e \<Rightarrow> Inl e | Inr _ \<Rightarrow> Inr \<lparr>w_rootDir = rootDir\<rparr>)"

section \<open>Walking the tree\<close>

text \<open>What \<^verbatim>\<open>Lstat\<close> and \<^verbatim>\<open>readDirNames\<close> give: a vanished entry, a file, or a directory
  with its entries or an error.\<close>

datatype wnode = WGone | WFile | WDir "(gostring \<times> wnode) list option"

datatype walk_end = WalkOk | WalkSkip | WalkErr

text \<open>The function handed to \<^verbatim>\<open>Walk\<close>: the directory it adds, and what it returns.\<close>

definition walk_fn :: "gostring \<Rightarrow> gostring \<Rightarrow> gostring \<Rightarrow> bool \<Rightarrow> bool \<Rightarrow> gostring list \<times> walk_end" where
  "walk_fn rootDir path name isDir err =
     (if err then ([], WalkErr)
      else if isDir then
        (if name ! 0 = CHR ''.'' \<and> path \<noteq> rootDir then ([], WalkSkip) else ([path], WalkOk))
      else ([], WalkOk))"

fun walk :: "gostring \<Rightarrow> gostring \<Rightarrow> gostring \<Rightarrow> wnode \<Rightarrow> gostring list \<times> walk_end"
  and walk_names :: "gostring \<Rightarrow> gostring \<Rightarrow> (gostring \<times> wnode) list \<Rightarrow> gostring list \<times> walk_end" where
  "walk root path name WGone = walk_fn root path name False True"
| "walk root path name WFile = walk_fn root path name False False"
| "walk root path name (WDir None) = walk_fn root path name True True"
| "walk root path name (WDir (Some kids)) =
     (case walk_fn root path name True False of
        (ws, WalkOk) \<Rightarrow> (case walk_names root path kids of (ws', e) \<Rightarrow> (ws @ ws', e))
      | r \<Rightarrow> r)"
| "walk_names root path [] = ([], WalkOk)"
| "walk_names root path ((name, kid) # kids) =
     (case walk root (Join path name) name kid of
        (ws, WalkErr) \<Rightarrow> (ws, WalkErr)
      | (ws, _) \<Rightarrow> (case walk_names root path kids of (ws', e) \<Rightarrow> (ws @ ws', e)))"

text \<open>The paths \<^verbatim>\<open>Start\<close> adds to the notifier; whether adding succeeds is only logged.  An error
  of the walk is returned and no event loop is started.\<close>

definition Start_walk :: "gostring \<Rightarrow> wnode \<Rightarrow> gostring list \<times> bool" where
  "Start_walk rootDir tree =
     (case walk rootDir rootDir (Base rootDir) tree of (ws, e) \<Rightarrow> (ws, e \<noteq> WalkErr))"

section \<open>Debouncing\<close>

definition quietPeriod :: int where
  "quietPeriod = 300000000"

text \<open>\<open>wt_firing\<close>: goroutines started by an expired timer that have not run yet; \<open>wt_log\<close>: the runs
  of \<open>fire\<close>, when and for which path, and whether they called \<open>onEvent\<close>.\<close>

record watch =
  wt_now :: int
  wt_timers :: "gostring \<rightharpoonup> nat"
  wt_armed :: "nat \<rightharpoonup> int"
  wt_path :: "nat \<Rightarrow> gostring"
  wt_next :: nat
  wt_firing :: "gostring list"
  wt_log :: "(int \<times> gostring \<times> bool) list"
  wt_stopped :: bool

definition new_watch :: "int \<Rightarrow> watch" where
  "new_watch now = \<lparr>wt_now = now, wt_timers = Map.empty, wt_armed = Map.empty, wt_path = (\<lambda>_. []), wt_next = 0,
     wt_firing = [], wt_log = [], wt_stopped = False\<rparr>"

definition on_event :: "uint32 \<Rightarrow> gostring \<Rightarrow> watch \<Rightarrow> watch" where
  "on_event op path w =
     (if wt_stopped w \<or> and op 3 = 0 then w
      else case wt_timers w path of
        Some t \<Rightarrow> w\<lparr>wt_armed := (wt_armed w)(t \<mapsto> wt_now w + quietPeriod)\<rparr>
      | None \<Rightarrow> w\<lparr>wt_timers := (wt_timers w)(path \<mapsto> wt_next w),
                  wt_armed := (wt_armed w)(wt_next w \<mapsto> wt_now w + quietPeriod),
                  wt_path := (wt_path w)(wt_next w := path), wt_next := wt_next w + 1\<rparr>)"

definition expire :: "nat \<Rightarrow> watch \<Rightarrow> watch" where
  "expire t w = w\<lparr>wt_armed := (wt_armed w)(t := None), wt_firing := wt_firing w @ [wt_path w t]\<rparr>"

definition fire :: "fs \<Rightarrow> nat \<Rightarrow> watch \<Rightarrow> watch" where
  "fire f i w =
     (let path = wt_firing w ! i;
          call = (case os_Stat f path of Inr (FFile _) \<Rightarrow> True | _ \<Rightarrow> False)
      in w\<lparr>wt_timers := (wt_timers w)(path := None),
           wt_firing := take i (wt_firing w) @ drop (Suc i) (wt_firing w),
           wt_log := wt_log w @ [(wt_now w, path, call)]\<rparr>)"

definition cancel :: "watch \<Rightarrow> watch" where
  "cancel w = w\<lparr>wt_armed := (\<lambda>t. if t \<in> ran (wt_timers w) then None else wt_armed w t), wt_stopped := True\<rparr>"

inductive wstep :: "watch \<Rightarrow> watch \<Rightarrow> bool" where
  event: "wstep w (on_event op path w)"
| pass: "wt_now w \<le> now \<Longrightarrow> wstep w (w\<lparr>wt_now := now\<rparr>)"
| expiry: "wt_armed w t = Some dl \<Longrightarrow> dl \<le> wt_now w \<Longrightarrow> wstep w (expire t w)"
| firing: "i < length (wt_firing w) \<Longrightarrow> wstep w (fire f i w)"
| cancelled: "\<not> wt_stopped w \<Longrightarrow> wstep w (cancel w)"

section \<open>What is watched\<close>

definition hidden :: "gostring \<Rightarrow> bool" where
  "hidden name \<longleftrightarrow> name ! 0 = CHR ''.''"

text \<open>The entries the walk looks at: those with no hidden directory above them, below the root.\<close>

inductive seen :: "wnode \<Rightarrow> gostring list \<Rightarrow> wnode \<Rightarrow> bool" where
  seen_here: "seen n [] n"
| seen_below: "(name, kid) \<in> set kids \<Longrightarrow> cs = [] \<or> \<not> hidden name \<Longrightarrow> seen kid cs m \<Longrightarrow>
    seen (WDir (Some kids)) (name # cs) m"

inductive_cases seen_leafE [elim!]: "seen WGone cs m" "seen WFile cs m" "seen (WDir None) cs m"

definition unreadable :: "wnode \<Rightarrow> bool" where
  "unreadable n \<longleftrightarrow> n = WGone \<or> n = WDir None"

definition fails :: "wnode \<Rightarrow> bool" where
  "fails n \<longleftrightarrow> (\<exists>cs m. seen n cs m \<and> unreadable m)"

definition dirs_below :: "gostring \<Rightarrow> wnode \<Rightarrow> gostring set" where
  "dirs_below path n = {foldl Join path cs | cs kids. seen n cs (WDir (Some kids)) \<and> (cs \<noteq> [] \<longrightarrow> \<not> hidden (last cs))}"

fun names_ok :: "wnode \<Rightarrow> bool" where
  "names_ok (WDir (Some kids)) \<longleftrightarrow> (\<forall>(name, kid) \<in> set kids. normal_comp name \<and> names_ok kid)"
| "names_ok _ \<longleftrightarrow> True"

lemma seen_Dir_iff:
  "seen (WDir (Some kids)) cs m \<longleftrightarrow> cs = [] \<and> m = WDir (Some kids) \<or>
    (\<exists>name kid cs'. cs = name # cs' \<and> (name, kid) \<in> set kids \<and> (cs' = [] \<or> \<not> hidden name) \<and> seen kid cs' m)"
  by (subst seen.simps) auto

lemma seen_Nil_iff [simp]: "seen n [] m \<longleftrightarrow> m = n"
  by (subst seen.simps) auto

lemma fails_leaf [simp]: "fails WGone" "\<not> fails WFile" "fails (WDir None)"
  by (auto simp: fails_def unreadable_def intro: seen_here)

text \<open>A hidden entry is looked at, not entered.\<close>

definition kid_fails :: "gostring \<times> wnode \<Rightarrow> bool" where
  "kid_fails nk \<longleftrightarrow> (if hidden (fst nk) then unreadable (snd nk) else fails (snd nk))"

definition kid_dirs :: "gostring \<Rightarrow> gostring \<times> wnode \<Rightarrow> gostring set" where
  "kid_dirs path nk = (if hidden (fst nk) then {} else dirs_below (Join path (fst nk)) (snd nk))"

lemma fails_Dir: "fails (WDir (Some kids)) \<longleftrightarrow> (\<exists>nk \<in> set kids. kid_fails nk)"
proof -
  have "(\<exists>cs m. (cs = [] \<or> \<not> hidden name) \<and> seen kid cs m \<and> unreadable m) \<longleftrightarrow> kid_fails (name, kid)" for name kid
    by (auto simp: kid_fails_def fails_def)
  then have "(\<exists>nk \<in> set kids. kid_fails nk) \<longleftrightarrow>
    (\<exists>name kid. (name, kid) \<in> set kids \<and> (\<exists>cs m. (cs = [] \<or> \<not> hidden name) \<and> seen kid cs m \<and> unreadable m))"
    by auto
  moreover have "\<not> unreadable (WDir (Some kids))" by (simp add: unreadable_def)
  then have "fails (WDir (Some kids)) \<longleftrightarrow>
    (\<exists>name kid. (name, kid) \<in> set kids \<and> (\<exists>cs m. (cs = [] \<or> \<not> hidden name) \<and> seen kid cs m \<and> unreadable m))"
    unfolding fails_def seen_Dir_iff by blast
  ultimately show ?thesis by simp
qed

lemma dirs_below_Dir: "dirs_below path (WDir (Some kids)) = insert path (\<Union>nk \<in> set kids. kid_dirs path nk)"
proof (intro equalityI subsetI)
  fix q
  assume "q \<in> dirs_below path (WDir (Some kids))"
  then obtain cs ks where q: "q = foldl Join path cs" "seen (WDir (Some kids)) cs (WDir (Some ks))"
    "cs \<noteq> [] \<longrightarrow> \<not> hidden (last cs)"
    by (auto simp: dirs_below_def)
  show "q \<in> insert path (\<Union>nk \<in> set kids. kid_dirs path nk)"
  proof (cases cs)
    case Nil
    with q show ?thesis by simp
  next
    case (Cons name cs')
    then obtain kid where k: "(name, kid) \<in> set kids" "cs' = [] \<or> \<not> hidden name" "seen kid cs' (WDir (Some ks))"
      using q(2) by (auto simp: seen_Dir_iff)
    then have "\<not> hidden name" using q(3) Cons by auto
    moreover have "q \<in> dirs_below (Join path name) kid"
      unfolding dirs_below_def using q k Cons by (intro CollectI exI [of _ cs'] exI [of _ ks]) (auto split: if_splits)
    ultimately have "q \<in> kid_dirs path (name, kid)" by (simp add: kid_dirs_def)
    with k(1) show ?thesis by blast
  qed
next
  fix q
  assume "q \<in> insert path (\<Union>nk \<in> set kids. kid_dirs path nk)"
  then consider "q = path" | name kid where "(name, kid) \<in> set kids" "q \<in> kid_dirs path (name, kid)" by auto
  then show "q \<in> dirs_below path (WDir (Some kids))"
  proof cases
    case 1
    then show ?thesis unfolding dirs_below_def by (intro CollectI exI [of _ "[]"] exI [of _ kids]) simp
  next
    case 2
    then obtain cs ks where "\<not> hidden name" "q = foldl Join (Join path name) cs" "seen kid cs (WDir (Some ks))"
      "cs \<noteq> [] \<longrightarrow> \<not> hidden (last cs)"
      by (auto simp: kid_dirs_def dirs_below_def split: if_splits)
    with 2(1) show ?thesis unfolding dirs_below_def
      by (intro CollectI exI [of _ "name # cs"] exI [of _ ks]) (auto intro: seen_below)
  qed
qed

lemma dirs_below_leaf [simp]: "dirs_below path WGone = {}" "dirs_below path WFile = {}" "dirs_below path (WDir None) = {}"
  by (auto simp: dirs_below_def)

lemma foldl_Join_neq: "cs \<noteq> [] \<Longrightarrow> normal_path cs \<Longrightarrow> foldl Join root cs \<noteq> root"
proof
  fix f :: fs
  assume cs: "cs \<noteq> []" "normal_path cs" and eq: "foldl Join root cs = root"
  have "resolve f (foldl Join p cs) = resolve f p @ cs" if "normal_path cs" for p cs
    using that
  proof (induction cs arbitrary: p)
    case (Cons c cs)
    then have "resolve f (Join p c) = resolve f p @ [c]"
      using resolve_Join_normal [of "[c]" f p] by (simp add: normal_path_def)
    with Cons show ?case by (simp add: normal_path_def)
  qed simp
  from this [OF cs(2), of root] eq cs(1) show False by simp
qed

definition below_root :: "gostring \<Rightarrow> gostring \<Rightarrow> bool" where
  "below_root root path \<longleftrightarrow> (\<forall>cs. cs \<noteq> [] \<longrightarrow> normal_path cs \<longrightarrow> foldl Join path cs \<noteq> root)"

lemma below_root_Join:
  assumes "below_root root path" and "normal_comp name"
  shows "below_root root (Join path name)" and "Join path name \<noteq> root"
proof -
  have "foldl Join path (name # cs) \<noteq> root" if "normal_path cs" for cs
    using assms that unfolding below_root_def by (metis list.distinct(1) list.set_intros(2) normal_path_def set_ConsD)
  from this this [of "[]"] show "below_root root (Join path name)" "Join path name \<noteq> root"
    by (simp_all add: below_root_def normal_path_def)
qed

lemma walk_result:
  "names_ok n \<Longrightarrow> below_root root path \<Longrightarrow>
     (snd (walk root path name n) = WalkErr \<longleftrightarrow> (if hidden name \<and> path \<noteq> root then unreadable n else fails n)) \<and>
     (snd (walk root path name n) \<noteq> WalkErr \<longrightarrow>
       set (fst (walk root path name n)) = (if hidden name \<and> path \<noteq> root then {} else dirs_below path n))"
  "(\<forall>(name, kid) \<in> set kids. normal_comp name \<and> names_ok kid) \<Longrightarrow> below_root root path \<Longrightarrow>
     snd (walk_names root path kids) \<noteq> WalkSkip \<and>
     (snd (walk_names root path kids) = WalkErr \<longleftrightarrow> (\<exists>nk \<in> set kids. kid_fails nk)) \<and>
     (snd (walk_names root path kids) \<noteq> WalkErr \<longrightarrow>
       set (fst (walk_names root path kids)) = (\<Union>nk \<in> set kids. kid_dirs path nk))"
proof (induction root path name n and root path kids rule: walk_walk_names.induct)
  case (4 root path name kids)
  show ?case
  proof (cases "hidden name \<and> path \<noteq> root")
    case True
    then show ?thesis by (auto simp: walk_fn_def hidden_def unreadable_def)
  next
    case False
    then have fn: "walk_fn root path name True False = ([path], WalkOk)" by (auto simp: walk_fn_def hidden_def)
    then show ?thesis using 4 False
      by (cases "walk_names root path kids") (auto simp: fails_Dir dirs_below_Dir)
  qed
next
  case (6 root path name kid kids)
  have n: "normal_comp name" "names_ok kid" using "6.prems"(1) by auto
  note b = below_root_Join [OF "6.prems"(2) n(1)]
  have IH1: "snd (walk root (Join path name) name kid) = WalkErr \<longleftrightarrow> kid_fails (name, kid)"
    "snd (walk root (Join path name) name kid) \<noteq> WalkErr \<longrightarrow>
      set (fst (walk root (Join path name) name kid)) = kid_dirs path (name, kid)"
    using "6.IH"(1) [OF n(2) b(1)] b(2) by (auto simp: kid_fails_def kid_dirs_def)
  obtain ws e where w: "walk root (Join path name) name kid = (ws, e)" by (rule prod.exhaust)
  show ?case
  proof (cases "e = WalkErr")
    case True
    with IH1 w show ?thesis by simp
  next
    case False
    have IH2: "snd (walk_names root path kids) \<noteq> WalkSkip \<and>
     (snd (walk_names root path kids) = WalkErr \<longleftrightarrow> (\<exists>nk \<in> set kids. kid_fails nk)) \<and>
     (snd (walk_names root path kids) \<noteq> WalkErr \<longrightarrow>
       set (fst (walk_names root path kids)) = (\<Union>nk \<in> set kids. kid_dirs path nk))"
      using 6 w False by (cases e) auto
    have "walk_names root path ((name, kid) # kids) =
      (ws @ fst (walk_names root path kids), snd (walk_names root path kids))"
      using w False by (cases e) (auto split: prod.split)
    with IH1 IH2 w False show ?thesis by simp
  qed
qed (auto simp: walk_fn_def unreadable_def)

section \<open>Timers\<close>

definition wt_inv :: "watch \<Rightarrow> bool" where
  "wt_inv w \<longleftrightarrow> (\<forall>p t. wt_timers w p = Some t \<longrightarrow> wt_path w t = p \<and> t < wt_next w) \<and>
     (\<forall>t dl. wt_armed w t = Some dl \<longrightarrow> t < wt_next w)"

lemmas wt_step_defs = on_event_def expire_def fire_def cancel_def Let_def

lemma wt_inv_step:
  assumes "wstep w w'" and "wt_inv w"
  shows "wt_inv w'" and "wt_now w \<le> wt_now w'" and "wt_stopped w \<Longrightarrow> wt_stopped w'"
  using assms
  by (cases rule: wstep.cases; auto simp: wt_inv_def wt_step_defs less_Suc_eq split: option.splits if_splits)+

lemma wt_inv_run:
  assumes "wstep\<^sup>*\<^sup>* w w'" and "wt_inv w"
  shows "wt_inv w' \<and> wt_now w \<le> wt_now w' \<and> (wt_stopped w \<longrightarrow> wt_stopped w')"
  using assms by (induction rule: rtranclp_induct) (auto dest: wt_inv_step)

lemma wt_inv_new: "wt_inv (new_watch now)"
  by (simp add: wt_inv_def new_watch_def)

text \<open>A change of \<open>p\<close> at time \<open>t0\<close> is taken care of: a timer is armed for it, a goroutine has been
  started after the quiet period, or one has run then.\<close>

definition covered :: "gostring \<Rightarrow> int \<Rightarrow> watch \<Rightarrow> bool" where
  "covered p t0 w \<longleftrightarrow>
     (\<exists>t dl. wt_armed w t = Some dl \<and> wt_path w t = p \<and> t0 + quietPeriod \<le> dl) \<or>
     p \<in> set (wt_firing w) \<and> t0 + quietPeriod \<le> wt_now w \<or>
     (\<exists>t b. (t, p, b) \<in> set (wt_log w) \<and> t0 + quietPeriod \<le> t)"

lemma covered_event:
  assumes "\<not> wt_stopped w" and "and op 3 \<noteq> 0" and "wt_inv w"
  shows "covered p (wt_now w) (on_event op p w)"
proof (cases "wt_timers w p")
  case None
  with assms show ?thesis by (auto simp: covered_def on_event_def)
next
  case (Some t)
  with assms have "wt_path w t = p" by (simp add: wt_inv_def)
  with Some assms show ?thesis by (auto simp: covered_def on_event_def)
qed

lemma remove_nth_mem: "x \<in> set xs \<Longrightarrow> i < length xs \<Longrightarrow> xs ! i \<noteq> x \<Longrightarrow> x \<in> set (take i xs @ drop (Suc i) xs)"
  by (metis Un_iff id_take_nth_drop set_ConsD set_append)

lemma covered_step:
  assumes "wstep w w'" and "wt_inv w" and "covered p t0 w" and "t0 \<le> wt_now w" and "\<not> wt_stopped w'"
  shows "covered p t0 w'"
  using assms(1)
proof (cases rule: wstep.cases)
  case (event op path)
  with assms show ?thesis
    by (auto simp: covered_def on_event_def wt_inv_def split: option.splits) (metis less_irrefl)+
next
  case (pass now)
  with assms(3) show ?thesis by (fastforce simp: covered_def)
next
  case (expiry t dl)
  show ?thesis
  proof (cases "wt_path w t = p \<and> t0 + quietPeriod \<le> dl")
    case True
    with expiry show ?thesis by (auto simp: covered_def expire_def)
  next
    case False
    with assms(3) expiry show ?thesis unfolding covered_def expire_def by simp (metis option.inject)
  qed
next
  case (firing i f)
  show ?thesis
  proof (cases "p \<in> set (wt_firing w) \<and> t0 + quietPeriod \<le> wt_now w \<and> wt_firing w ! i \<noteq> p")
    case True
    then have "p \<in> set (take i (wt_firing w) @ drop (Suc i) (wt_firing w))"
      using firing by (intro remove_nth_mem) auto
    with True firing show ?thesis by (simp add: covered_def fire_def Let_def)
  next
    case False
    with assms(3) firing show ?thesis by (auto simp: covered_def fire_def Let_def)
  qed
next
  case cancelled
  with assms(5) show ?thesis by (simp add: cancel_def)
qed

lemma covered_run:
  assumes "wstep\<^sup>*\<^sup>* w w'" and "wt_inv w" and "covered p t0 w" and "t0 \<le> wt_now w" and "\<not> wt_stopped w'"
  shows "covered p t0 w'"
  using assms(1,5)
proof (induction rule: rtranclp_induct)
  case base
  show ?case by (rule assms(3))
next
  case (step u v)
  note u = wt_inv_run [OF step.hyps(1) assms(2)]
  have "\<not> wt_stopped u" using wt_inv_step(3) [OF step.hyps(2)] u step.prems by blast
  moreover have "t0 \<le> wt_now u" using u assms(4) by linarith
  ultimately show ?case using covered_step [OF step.hyps(2)] u step by blast
qed

text \<open>What is covered can be brought to a run of \<open>fire\<close>.\<close>

lemma covered_completes:
  fixes f :: fs
  assumes "covered p t0 w"
  shows "\<exists>w' t b. wstep\<^sup>*\<^sup>* w w' \<and> (t, p, b) \<in> set (wt_log w') \<and> t0 + quietPeriod \<le> t"
proof -
  have fire: "\<exists>w' t b. wstep\<^sup>*\<^sup>* u w' \<and> (t, p, b) \<in> set (wt_log w') \<and> t0 + quietPeriod \<le> t"
    if u: "p \<in> set (wt_firing u)" "t0 + quietPeriod \<le> wt_now u" for u
  proof -
    obtain i where i: "i < length (wt_firing u)" "wt_firing u ! i = p" using u(1) by (auto simp: in_set_conv_nth)
    have "wstep\<^sup>*\<^sup>* u (fire f i u)" using firing [OF i(1)] by (rule r_into_rtranclp)
    moreover have "\<exists>b. (wt_now u, p, b) \<in> set (wt_log (fire f i u))" using i by (auto simp: fire_def Let_def)
    ultimately show ?thesis using u(2) by blast
  qed
  from assms consider t dl where "wt_armed w t = Some dl" "wt_path w t = p" "t0 + quietPeriod \<le> dl"
    | "p \<in> set (wt_firing w)" "t0 + quietPeriod \<le> wt_now w"
    | t b where "(t, p, b) \<in> set (wt_log w)" "t0 + quietPeriod \<le> t"
    unfolding covered_def by blast
  then show ?thesis
  proof cases
    case (1 t dl)
    let ?u = "w\<lparr>wt_now := max (wt_now w) dl\<rparr>"
    have "wstep w ?u" by (rule pass) simp
    moreover have "wstep ?u (expire t ?u)" using 1 by (intro expiry [of _ _ dl]) simp_all
    ultimately have "wstep\<^sup>*\<^sup>* w (expire t ?u)" by simp
    moreover have "p \<in> set (wt_firing (expire t ?u))" "t0 + quietPeriod \<le> wt_now (expire t ?u)"
      using 1 by (simp_all add: expire_def)
    ultimately show ?thesis using fire by (meson rtranclp_trans)
  next
    case 2
    then show ?thesis by (rule fire)
  next
    case 3
    then show ?thesis by blast
  qed
qed

text \<open>One timer runs for \<open>p\<close>, until \<open>dl\<close>, and no goroutine is under way.\<close>

definition counting :: "gostring \<Rightarrow> int \<Rightarrow> watch \<Rightarrow> bool" where
  "counting p dl w \<longleftrightarrow> p \<notin> set (wt_firing w) \<and> (\<exists>t. wt_timers w p = Some t \<and> wt_armed w t = Some dl \<and>
     (\<forall>t'. wt_armed w t' \<noteq> None \<longrightarrow> wt_path w t' = p \<longrightarrow> t' = t))"

definition runs :: "gostring \<Rightarrow> watch \<Rightarrow> (int \<times> gostring \<times> bool) list" where
  "runs p w = filter (\<lambda>(t, q, b). q = p) (wt_log w)"

lemma counting_step:
  assumes "wstep w w'" and "wt_inv w" and "counting p dl w" and "wt_now w < dl" and "\<not> wt_stopped w'"
  shows "runs p w' = runs p w \<and> (counting p dl w' \<or> counting p (wt_now w + quietPeriod) w')"
proof -
  from assms(3) obtain t where t: "p \<notin> set (wt_firing w)" "wt_timers w p = Some t" "wt_armed w t = Some dl"
    "\<And>t'. wt_armed w t' \<noteq> None \<Longrightarrow> wt_path w t' = p \<Longrightarrow> t' = t"
    by (auto simp: counting_def)
  have tp: "wt_path w t = p" "t < wt_next w" using assms(2) t(2) by (auto simp: wt_inv_def)
  show ?thesis
    using assms(1)
  proof (cases rule: wstep.cases)
    case (event op path)
    show ?thesis
    proof (cases "path = p")
      case True
      with event t show ?thesis by (auto simp: counting_def on_event_def runs_def)
    next
      case False
      have "wt_timers w path = Some t1 \<Longrightarrow> t1 \<noteq> t" for t1
        using False tp(1) assms(2) by (auto simp: wt_inv_def)
      moreover have "wt_path w t1 = path" if "wt_timers w path = Some t1" for t1
        using that assms(2) by (simp add: wt_inv_def)
      ultimately have "counting p dl w'" using event t tp False
        unfolding counting_def by (auto simp: on_event_def split: option.split)
      with event show ?thesis by (simp add: runs_def on_event_def split: option.split)
    qed
  next
    case (pass now)
    with t show ?thesis by (auto simp: counting_def runs_def)
  next
    case (expiry t1 dl1)
    have "t1 \<noteq> t" using expiry assms(4) t(3) by auto
    moreover from this have "wt_path w t1 \<noteq> p" using expiry t(4) by auto
    ultimately show ?thesis using expiry t by (auto simp: counting_def runs_def expire_def)
  next
    case (firing i f)
    have "wt_firing w ! i \<noteq> p" using t(1) firing nth_mem by metis
    moreover have "p \<notin> set (take i (wt_firing w) @ drop (Suc i) (wt_firing w))"
      using t(1) set_take_subset set_drop_subset by fastforce
    ultimately show ?thesis using firing t by (auto simp: counting_def runs_def fire_def Let_def)
  next
    case cancelled
    with assms(5) show ?thesis by (simp add: cancel_def)
  qed
qed

section \<open>Properties\<close>

text \<open>C26. Starting the watcher: it succeeds exactly if no entry that the walk looks at is gone or
  unreadable, hidden directories included; then the directories watched are exactly the root and
  the directories below it with no hidden name on the way.\<close>

theorem watched_directories:
  assumes "names_ok tree"
  shows "(snd (Start_walk rootDir tree) \<longleftrightarrow> \<not> (\<exists>cs m. seen tree cs m \<and> unreadable m)) \<and>
    (snd (Start_walk rootDir tree) \<longrightarrow> set (fst (Start_walk rootDir tree)) =
      {foldl Join rootDir cs | cs kids. seen tree cs (WDir (Some kids)) \<and> (cs \<noteq> [] \<longrightarrow> \<not> hidden (last cs))})"
proof -
  have "below_root rootDir rootDir" using foldl_Join_neq by (simp add: below_root_def)
  from walk_result(1) [OF assms this, of "Base rootDir"] show ?thesis
    unfolding fails_def [symmetric] dirs_below_def [symmetric] by (simp add: Start_walk_def split_def)
qed

theorem watched_directories_witness:
  "snd (Start_walk ''/s'' (WDir (Some [(''a'', WDir (Some [])), (''.git'', WDir (Some [(''x'', WDir (Some []))])), (''f'', WFile)]))) \<and>
   ''/s/a'' \<in> set (fst (Start_walk ''/s''
     (WDir (Some [(''a'', WDir (Some [])), (''.git'', WDir (Some [(''x'', WDir (Some []))])), (''f'', WFile)])))) \<and>
   \<not> snd (Start_walk ''/s'' (WDir (Some [(''.git'', WDir None)])))"
proof -
  let ?t = "WDir (Some [(''a'', WDir (Some [])), (''.git'', WDir (Some [(''x'', WDir (Some []))])), (''f'', WFile)])"
  have n: "names_ok ?t" "names_ok (WDir (Some [(''.git'', WDir None)]))" by (auto simp: normal_comp_def)
  have s: "snd (Start_walk ''/s'' ?t)" by code_simp
  have "seen (WDir (Some [(''.git'', WDir None)])) [''.git''] (WDir None)" by (rule seen_below) simp_all
  moreover have "unreadable (WDir None)" by (simp add: unreadable_def)
  ultimately have e: "\<not> snd (Start_walk ''/s'' (WDir (Some [(''.git'', WDir None)])))"
    using watched_directories [OF n(2), of "''/s''"] by blast
  have a: "seen ?t [''a''] (WDir (Some []))" by (rule seen_below) simp_all
  have h: "\<not> hidden (last [''a''])" by (simp add: hidden_def)
  have "foldl Join ''/s'' [''a''] \<in> {foldl Join ''/s'' cs | cs kids. seen ?t cs (WDir (Some kids)) \<and>
    (cs \<noteq> [] \<longrightarrow> \<not> hidden (last cs))}"
    by (intro CollectI exI [of _ "[''a'']"] exI [of _ "[]"] conjI impI refl a h)
  moreover note mp [OF conjunct2 [OF watched_directories [OF n(1), of "''/s''"]] s]
  moreover have "foldl Join ''/s'' [''a''] = ''/s/a''" by code_simp
  ultimately have "''/s/a'' \<in> set (fst (Start_walk ''/s'' ?t))" by (simp only:)
  with s e show ?thesis by (intro conjI)
qed



text \<open>Debouncing: while the only timer of a path has not reached its deadline, no step runs the callback
  for the path, and the deadline only moves when an event moves it to the quiet period from then.\<close>

theorem debounce:
  assumes "wstep\<^sup>*\<^sup>* (new_watch t0) w" and "counting p dl w" and "wt_now w < dl" and "wstep w w'" and "\<not> wt_stopped w'"
  shows "runs p w' = runs p w \<and> (counting p dl w' \<or> counting p (wt_now w + quietPeriod) w')"
  using counting_step [OF assms(4) _ assms(2,3,5)] wt_inv_run [OF assms(1) wt_inv_new] by blast

theorem debounce_witness:
  "(let w = on_event 1 ''/s/a'' (new_watch 0); w' = w\<lparr>wt_now := 200000000\<rparr>; w'' = on_event 2 ''/s/a'' w'
    in counting ''/s/a'' 300000000 w' \<and> runs ''/s/a'' w'' = [])"
proof -
  let ?w = "on_event 1 ''/s/a'' (new_watch 0)"
  let ?w' = "?w\<lparr>wt_now := 200000000\<rparr>"
  have "wstep (new_watch 0) ?w" by (rule event)
  moreover have "wstep ?w ?w'" by (rule pass) (simp add: on_event_def new_watch_def)
  ultimately have r: "wstep\<^sup>*\<^sup>* (new_watch 0) ?w'" by simp
  have c: "counting ''/s/a'' 300000000 ?w'"
    by (simp add: counting_def on_event_def new_watch_def quietPeriod_def)
  have "wstep ?w' (on_event 2 ''/s/a'' ?w')" by (rule event)
  from debounce [OF r c _ this] c show ?thesis
    by (simp add: Let_def on_event_def new_watch_def runs_def)
qed

end
