(* ===== verification/Daemon.thy ===== *)
theory Daemon
  imports Orchestrator Clock Quiet Watcher
begin

text \<open>
  \<^verbatim>\<open>internal/daemon/daemon.go\<close> and \<^verbatim>\<open>internal/daemon/api.go\<close>: the node.  A \<open>Daemon\<close> holds the
  wiring and the state the handlers share; each handler is a function on it, whole, with the errors
  the code ignores ignored.  \<open>None\<close> is a handler that does not return (a splitter that never ends, a
  pull that is still waiting) or panics.  Pulls started by \<open>triggerSync\<close> wait in \<open>dm_pulls\<close>;
  \<open>finish_sync\<close> is the body of the goroutine.  The step relation \<open>dstep\<close> runs the handlers in any
  order, with changes of the user in between; a step is a whole handler, or all of a pull from its first request
  to its last write.
\<close>

section \<open>The node\<close>

definition antiEntropyFanout :: nat where "antiEntropyFanout = 3"
definition quietWriteTTL :: int where "quietWriteTTL = 5000000000"

record 'db Daemon =
  dm_Name :: gostring
  dm_BaseDir :: gostring
  dm_CAS :: CASBlobStore
  dm_db :: 'db
  dm_Gossip :: GossipNode
  dm_Server :: Server
  dm_Client :: Client
  dm_Control :: ControlServer
  dm_Engine :: Engine
  dm_grpcPort :: int
  dm_httpPort :: int
  dm_secret :: bytes
  dm_clock :: uint64
  dm_quiet :: quietSet
  dm_syncing :: "gostring set"
  dm_tracker :: HealthTracker
  dm_fs :: fs
  dm_pulls :: "(gostring \<times> PeerInfo list) list"

datatype daemon_error = DataInsideSync | CasInit cas_error | BoltInit gostring | WatcherInit gostring

text \<open>\<open>watch\<close> is the outcome of creating the notifier.  The constructor of the metadata store can
  return a store together with an error; only the error is looked at.\<close>

definition NewDaemon ::
  "'db bolt \<Rightarrow> (gostring, unit) result \<Rightarrow> fs \<Rightarrow> int \<Rightarrow> gostring \<Rightarrow> gostring \<Rightarrow> gostring \<Rightarrow> int \<Rightarrow> int \<Rightarrow> int \<Rightarrow> bytes
   \<Rightarrow> fs \<times> (daemon_error, 'db Daemon) result" where
  "NewDaemon B watch f now name syncDir dataDir httpPort grpcPort gossipPort secret =
     (if isSubPath f syncDir dataDir then (f, Inl DataInsideSync)
      else
        let f1 = fst (os_MkdirAll f syncDir); f2 = fst (os_MkdirAll f1 dataDir) in
        case NewCASBlobStore f2 dataDir of
          (f3, Inl e) \<Rightarrow> (f3, Inl (CasInit e))
        | (f3, Inr cas) \<Rightarrow>
            (case NewBoltMetaStore B (Join dataDir ''meta.db'') of
               Inl e \<Rightarrow> (f3, Inl (BoltInit e))
             | Inr (db, Some e) \<Rightarrow> (f3, Inl (BoltInit e))
             | Inr (db, None) \<Rightarrow>
                 (let authLayer = NewAuth secret name;
                      server = NewServer (''0.0.0.0:'' @ FormatInt httpPort) authLayer cas 50;
                      client = NewClient authLayer cas
                  in case NewWatcher watch syncDir of
                       Inl e \<Rightarrow> (f3, Inl (WatcherInit e))
                     | Inr _ \<Rightarrow>
                         (f3, Inr \<lparr>dm_Name = name, dm_BaseDir = syncDir, dm_CAS = cas, dm_db = db,
                            dm_Gossip = NewGossipNode name gossipPort httpPort grpcPort, dm_Server = server,
                            dm_Client = client, dm_Control = NewControlServer name cas now,
                            dm_Engine = NewEngine name secret syncDir cas client,
                            dm_grpcPort = grpcPort, dm_httpPort = httpPort, dm_secret = secret, dm_clock = 0,
                            dm_quiet = newQuietSet quietWriteTTL, dm_syncing = {}, dm_tracker = NewHealthTracker,
                            dm_fs = f3, dm_pulls = []\<rparr>))))"

section \<open>Local changes\<close>

definition announce :: "gostring \<Rightarrow> hash32 \<Rightarrow> uint64 \<Rightarrow> 'db Daemon \<Rightarrow> 'db Daemon" where
  "announce fileID mroot lamportTS d =
     d\<lparr>dm_Gossip := Broadcast (dm_Gossip d)
        \<lparr>an_FileID = fileID, an_MerkleRoot = mroot, an_LamportTS = lamportTS, an_SourceNode = dm_Name d\<rparr>\<rparr>"

text \<open>The loop over the chunks; errors of \<open>Put\<close> are ignored.\<close>

fun put_chunks :: "CASBlobStore \<Rightarrow> fs \<Rightarrow> Chunk list \<Rightarrow> fs" where
  "put_chunks cas f [] = f"
| "put_chunks cas f (ch # chs) = put_chunks cas (fst (Put cas f (ch_Hash ch) (ch_Data ch))) chs"

definition total_size :: "Chunk list \<Rightarrow> uint64" where
  "total_size chunks = foldl (\<lambda>s ch. s + word_of_nat (length (ch_Data ch))) 0 chunks"

text \<open>From the loop to the announcement, the same in \<open>HandleFileChange\<close> and in \<^verbatim>\<open>/ingest\<close>: store the
  chunks, draw a timestamp, save the metadata (its error is ignored too), announce.\<close>

definition index_file :: "'db bolt \<Rightarrow> gostring \<Rightarrow> Chunk list \<Rightarrow> 'db Daemon \<Rightarrow> 'db Daemon" where
  "index_file B fileID chunks d =
     (let f1 = put_chunks (dm_CAS d) (dm_fs d) chunks;
          mroot = ComputeRoot chunks;
          (clock, ts) = nextTS (dm_clock d);
          meta = \<lparr>fm_FileID = fileID, fm_MerkleRoot = mroot, fm_LamportTS = ts,
                  fm_ChunkHashes = map ch_Hash chunks, fm_SizeBytes = total_size chunks\<rparr>;
          db1 = fst (PutFileMeta B (dm_db d) meta)
      in announce fileID mroot ts (d\<lparr>dm_fs := f1, dm_db := db1, dm_clock := clock\<rparr>))"

definition file_id :: "'db Daemon \<Rightarrow> gostring \<Rightarrow> gostring" where
  "file_id d path = (case Rel (dm_BaseDir d) path of None \<Rightarrow> Base path | Some relPath \<Rightarrow> relPath)"

definition HandleFileChange :: "'s fastcdc \<Rightarrow> 'db bolt \<Rightarrow> int \<Rightarrow> gostring \<Rightarrow> 'db Daemon \<Rightarrow> 'db Daemon option" where
  "HandleFileChange C B now path d =
     (if Ext path = ''.db'' then Some d
      else case IsQuiet (dm_quiet d) now path of (q, quiet) \<Rightarrow>
        let d1 = d\<lparr>dm_quiet := q\<rparr> in
        if quiet then Some d1
        else
          let fileID = file_id d path in
          case ChunkFile C (NewFastCDCChunker 8192) (dm_fs d) path of
            None \<Rightarrow> None
          | Some (Inl e) \<Rightarrow> Some d1
          | Some (Inr chunks) \<Rightarrow>
              (case GetFileMeta B (dm_db d) fileID of
                 Inr existing \<Rightarrow>
                   if fm_MerkleRoot existing = ComputeRoot chunks then Some d1
                   else Some (index_file B fileID chunks d1)
               | Inl e \<Rightarrow> Some (index_file B fileID chunks d1)))"

section \<open>Remote changes\<close>

definition triggerSync :: "member list \<Rightarrow> gostring \<Rightarrow> 'db Daemon \<Rightarrow> 'db Daemon option" where
  "triggerSync members fileID d =
     (if fileID \<in> dm_syncing d then Some d
      else case GetActivePeers (dm_Gossip d) members of
        None \<Rightarrow> None
      | Some peers \<Rightarrow>
          Some (d\<lparr>dm_syncing := insert fileID (dm_syncing d), dm_pulls := dm_pulls d @ [(fileID, peers)]\<rparr>))"

definition handleAnnouncement ::
  "'db bolt \<Rightarrow> member list \<Rightarrow> FileAnnouncement \<Rightarrow> 'db Daemon \<Rightarrow> 'db Daemon option" where
  "handleAnnouncement B members ann d =
     (if an_SourceNode ann = dm_Name d then Some d
      else
        let d1 = d\<lparr>dm_clock := observeTS (dm_clock d) (an_LamportTS ann)\<rparr> in
        case GetFileMeta B (dm_db d) (an_FileID ann) of
          Inr loc \<Rightarrow>
            if fm_MerkleRoot loc = an_MerkleRoot ann then Some d1
            else if \<not> remoteWins (fm_LamportTS loc) (dm_Name d) (an_LamportTS ann) (an_SourceNode ann) then Some d1
            else triggerSync members (an_FileID ann) d1
        | Inl e \<Rightarrow> triggerSync members (an_FileID ann) d1)"

text \<open>The goroutine of \<open>triggerSync\<close>: the pull, with its callbacks, then the deferred deletion.\<close>

definition pull_state_of :: "'db Daemon \<Rightarrow> 'db pull_state" where
  "pull_state_of d = \<lparr>pl_fs = dm_fs d, pl_db = dm_db d, pl_tracker = dm_tracker d, pl_quiet = [], pl_announced = []\<rparr>"

definition after_pull :: "int \<Rightarrow> 'db pull_state \<Rightarrow> 'db Daemon \<Rightarrow> 'db Daemon" where
  "after_pull now s d =
     foldl (\<lambda>d (fileID, mroot, ts). announce fileID mroot ts d)
       (d\<lparr>dm_fs := pl_fs s, dm_db := pl_db s, dm_tracker := pl_tracker s,
          dm_quiet := foldl (\<lambda>q p. Mark q now p) (dm_quiet d) (pl_quiet s)\<rparr>)
       (pl_announced s)"

definition finish_sync ::
  "'db bolt \<Rightarrow> (gostring \<Rightarrow> (gostring, invoker) result) \<Rightarrow> (int \<Rightarrow> net) \<Rightarrow> (ChunkRarity list \<Rightarrow> ChunkRarity list)
   \<Rightarrow> int \<Rightarrow> gostring list \<Rightarrow> event list \<Rightarrow> nat \<Rightarrow> 'db Daemon \<Rightarrow> 'db Daemon option" where
  "finish_sync B dial net srt now order evs i d =
     (case dm_pulls d ! i of (fileID, peers) \<Rightarrow>
        case Pull B dial net srt (dm_Engine d) now order evs fileID peers (pull_state_of d) of
          None \<Rightarrow> None
        | Some (s, _) \<Rightarrow>
            (let d1 = after_pull now s d in
             Some (d1\<lparr>dm_syncing := dm_syncing d1 - {fileID},
                      dm_pulls := take i (dm_pulls d1) @ drop (Suc i) (dm_pulls d1)\<rparr>)))"

section \<open>Anti-entropy\<close>

text \<open>One tick: the peers whose catalogs are compared; \<open>shuffle\<close> is \<^verbatim>\<open>rand.Shuffle\<close>.\<close>

definition antiEntropy_tick :: "(PeerInfo list \<Rightarrow> PeerInfo list) \<Rightarrow> member list \<Rightarrow> 'db Daemon \<Rightarrow> PeerInfo list option" where
  "antiEntropy_tick shuffle members d =
     (case GetActivePeers (dm_Gossip d) members of
        None \<Rightarrow> None
      | Some peers \<Rightarrow>
          if peers = [] then Some []
          else let shuffled = shuffle peers in
            Some (if length shuffled > antiEntropyFanout then take antiEntropyFanout shuffled else shuffled))"

fun reconcile_entries ::
  "'db bolt \<Rightarrow> member list \<Rightarrow> PeerInfo \<Rightarrow> CatalogEntry list \<Rightarrow> 'db Daemon \<Rightarrow> 'db Daemon option" where
  "reconcile_entries B members peer [] d = Some d"
| "reconcile_entries B members peer (entry # es) d =
     (if Ext (ce_FileID entry) = ''.db'' then reconcile_entries B members peer es d
      else if (case GetFileMeta B (dm_db d) (ce_FileID entry) of
                 Inr loc \<Rightarrow> fm_MerkleRoot loc = ce_MerkleRoot entry \<or>
                   \<not> remoteWins (fm_LamportTS loc) (dm_Name d) (ce_LamportTS entry) (pi_Name peer)
               | Inl e \<Rightarrow> False) then reconcile_entries B members peer es d
      else
        (case triggerSync members (ce_FileID entry) (d\<lparr>dm_clock := observeTS (dm_clock d) (ce_LamportTS entry)\<rparr>) of
           None \<Rightarrow> None
         | Some d1 \<Rightarrow> reconcile_entries B members peer es d1))"

definition reconcileWithPeer ::
  "'db bolt \<Rightarrow> net \<Rightarrow> member list \<Rightarrow> int \<Rightarrow> PeerInfo \<Rightarrow> 'db Daemon \<Rightarrow> 'db Daemon option" where
  "reconcileWithPeer B net members now peer d =
     (case FetchCatalog net (dm_Client d) now (HTTPAddr peer) of
        Inl e \<Rightarrow> Some d
      | Inr remoteCatalog \<Rightarrow> reconcile_entries B members peer remoteCatalog d)"

section \<open>Start and stop\<close>

text \<open>What \<open>Start\<close> does to the state: registering the callback and starting gossip.  \<open>None\<close>:
  \<^verbatim>\<open>log.Fatalf\<close>.  Listening, serving and watching are separate activities.\<close>

definition daemon_Start ::
  "(gostring, unit) result \<Rightarrow> (gostring list \<Rightarrow> (gostring, unit) result) \<Rightarrow> gostring list \<Rightarrow> 'db Daemon
   \<Rightarrow> 'db Daemon option" where
  "daemon_Start create join seedPeers d =
     (case gossip_Start create join (OnAnnouncement (dm_Gossip d)) seedPeers of
        (g, Inl e) \<Rightarrow> None
      | (g, Inr _) \<Rightarrow> Some (d\<lparr>dm_Gossip := g\<rparr>))"

definition daemon_Stop :: "'db Daemon \<Rightarrow> 'db Daemon" where
  "daemon_Stop d = d\<lparr>dm_Gossip := gossip_Stop (dm_Gossip d)\<rparr>"

section \<open>The local API\<close>

record SyncRequest =
  sr_FileID :: gostring

definition SyncRequest_fields :: "SyncRequest field list" where
  "SyncRequest_fields = [(''file_id'', \<lambda>j m. map_option (\<lambda>x. m\<lparr>sr_FileID := x\<rparr>) (dec_string j (sr_FileID m)))]"

definition api_ingest :: "'s fastcdc \<Rightarrow> 'db bolt \<Rightarrow> request \<Rightarrow> 'db Daemon \<Rightarrow> ('db Daemon \<times> int) option" where
  "api_ingest C B r d =
     (let path = query_Get (uri_query (rq_URI r)) ''path'' in
      case ChunkFile C (NewFastCDCChunker 8192) (dm_fs d) path of
        None \<Rightarrow> None
      | Some (Inl e) \<Rightarrow> Some (d, 500)
      | Some (Inr chunks) \<Rightarrow> Some (index_file B path chunks d, 200))"

definition api_sync :: "member list \<Rightarrow> request \<Rightarrow> bytes \<Rightarrow> 'db Daemon \<Rightarrow> ('db Daemon \<times> int) option" where
  "api_sync members r body d =
     (if rq_Method r \<noteq> ''POST'' then Some (d, 405)
      else case Option.bind (json_Decode body) (\<lambda>j. dec_struct SyncRequest_fields j \<lparr>sr_FileID = []\<rparr>) of
        None \<Rightarrow> Some (d, 400)
      | Some req \<Rightarrow>
          if sr_FileID req = [] then Some (d, 400)
          else map_option (\<lambda>d1. (d1, 202)) (triggerSync members (sr_FileID req) d))"

definition api_serve ::
  "'s fastcdc \<Rightarrow> 'db bolt \<Rightarrow> member list \<Rightarrow> request \<Rightarrow> bytes \<Rightarrow> 'db Daemon \<Rightarrow> ('db Daemon \<times> int) option" where
  "api_serve C B members r body d =
     (if CHR '' '' \<in> set (rq_URI r) then Some (d, 400)
      else (case unescape False (uri_path (rq_URI r)) of
          None \<Rightarrow> Some (d, 400)
        | Some p \<Rightarrow>
            if p = ''/ingest'' then api_ingest C B r d
            else if p = ''/sync'' then api_sync members r body d
            else if Clean p \<noteq> p \<and> Clean p @ [slash] \<noteq> p then Some (d, 301)
            else Some (d, 404)))"

section \<open>Steps of a node\<close>

text \<open>The environment: the splitter \<open>C\<close> and the database \<open>B\<close> are fixed, the network, the clock, the
  member list and the schedules are chosen anew at every step.  The identifier of a pulled file is
  a clean relative path (\<open>clean_id\<close>), file names are valid UTF-8, and users change nothing in the data
  directory.\<close>

definition clean_id :: "gostring \<Rightarrow> bool" where
  "clean_id fileID \<longleftrightarrow> (\<exists>cs. cs \<noteq> [] \<and> normal_path cs \<and> fileID = join_path cs)"

definition user_change :: "'db Daemon \<Rightarrow> fs \<Rightarrow> bool" where
  "user_change d f \<longleftrightarrow> wd f = wd (dm_fs d) \<and> faults f = faults (dm_fs d) \<and>
     (\<forall>p. prefix (resolve (dm_fs d) (baseDir (dm_CAS d))) p \<longrightarrow> ents f p = ents (dm_fs d) p)"

definition fits :: "(int \<Rightarrow> net) \<Rightarrow> 'db Daemon \<Rightarrow> bool" where
  "fits net d \<longleftrightarrow> (\<forall>t host fileID m. FetchMeta (net t) (dm_Client d) t host fileID = Inr m \<longrightarrow> valid_utf8 (fm_FileID m))"

inductive dstep :: "'s fastcdc \<Rightarrow> 'db bolt \<Rightarrow> 'db Daemon \<Rightarrow> 'db Daemon \<Rightarrow> bool" for C B where
  file_changed: "valid_utf8 (file_id d path) \<Longrightarrow> HandleFileChange C B now path d = Some d' \<Longrightarrow> dstep C B d d'"
| announced: "handleAnnouncement B members ann d = Some d' \<Longrightarrow> dstep C B d d'"
| reconciled: "reconcileWithPeer B net members now peer d = Some d' \<Longrightarrow> dstep C B d d'"
| api_called: "valid_utf8 (query_Get (uri_query (rq_URI r)) ''path'') \<Longrightarrow> api_serve C B members r body d = Some (d', status) \<Longrightarrow> dstep C B d d'"
| synced: "i < length (dm_pulls d) \<Longrightarrow> clean_id (fst (dm_pulls d ! i)) \<Longrightarrow> fits net d \<Longrightarrow>
    finish_sync B dial net srt now order evs i d = Some d' \<Longrightarrow> dstep C B d d'"
| user: "user_change d f \<Longrightarrow> dstep C B d (d\<lparr>dm_fs := f\<rparr>)"

section \<open>The data directory\<close>

text \<open>Two disks that agree on everything at or below the directory of the store.\<close>

definition same_data :: "CASBlobStore \<Rightarrow> fs \<Rightarrow> fs \<Rightarrow> bool" where
  "same_data cas f f' \<longleftrightarrow> wd f' = wd f \<and> faults f' = faults f \<and>
     (\<forall>p. prefix (resolve f (baseDir cas)) p \<longrightarrow> ents f' p = ents f p)"

definition store_ok :: "CASBlobStore \<Rightarrow> fs \<Rightarrow> bool" where
  "store_ok cas f \<longleftrightarrow> no_faults f \<and> cas_inv cas f \<and> cas_dirs cas f \<and> tmp_free cas f"

lemma same_data_keeps:
  assumes "same_data cas f f'"
  shows "store_ok cas f' \<longleftrightarrow> store_ok cas f" and "stored cas f' = stored cas f" and "resolve f' = resolve f"
proof -
  show r: "resolve f' = resolve f" using assms by (intro resolve_cong) (simp add: same_data_def)
  have below: "ents f' (resolve f (baseDir cas) @ q) = ents f (resolve f (baseDir cas) @ q)" for q
    using assms by (simp add: same_data_def)
  have o: "ents f' (obj_path cas f' h) = ents f (obj_path cas f h)" for h by (simp add: obj_path_def r below)
  have t: "ents f' (tmp_path cas f' h) = ents f (tmp_path cas f h)" for h by (simp add: tmp_path_def r below)
  show "stored cas f' = stored cas f" by (simp add: stored_def o fun_eq_iff)
  show "store_ok cas f' \<longleftrightarrow> store_ok cas f" using assms
    by (simp add: store_ok_def cas_inv_def cas_dirs_def tmp_free_def o t r below no_faults_def same_data_def)
qed

lemma store_ok_Put:
  assumes "store_ok cas f"
  shows "store_ok cas (fst (Put cas f h d))" and "stored cas f h' \<noteq> None \<Longrightarrow> stored cas (fst (Put cas f h d)) h' \<noteq> None"
    and "sha256 d = h \<Longrightarrow> stored cas (fst (Put cas f h d)) h \<noteq> None"
proof -
  have ok: "no_faults f" "cas_inv cas f" "cas_dirs cas f" "tmp_free cas f" using assms by (auto simp: store_ok_def)
  show "store_ok cas (fst (Put cas f h d))"
    using ok by (simp add: store_ok_def cas.put_inv cas_dirs_Put tmp_free_Put)
  show "stored cas f h' \<noteq> None \<Longrightarrow> stored cas (fst (Put cas f h d)) h' \<noteq> None" using ok(2) by (rule cas.put_mono)
  show "sha256 d = h \<Longrightarrow> stored cas (fst (Put cas f h d)) h \<noteq> None"
    using Put_succeeds [OF ok(1,3,4,2)] cas.put_stores [OF ok(2)] by blast
qed

lemma put_chunks_ok:
  assumes "store_ok cas f" and "\<forall>ch \<in> set chunks. sha256 (ch_Data ch) = ch_Hash ch"
  shows "store_ok cas (put_chunks cas f chunks) \<and> resolve (put_chunks cas f chunks) = resolve f \<and>
    (\<forall>h. stored cas f h \<noteq> None \<longrightarrow> stored cas (put_chunks cas f chunks) h \<noteq> None) \<and>
    (\<forall>ch \<in> set chunks. stored cas (put_chunks cas f chunks) (ch_Hash ch) \<noteq> None)"
  using assms
proof (induction chunks arbitrary: f)
  case (Cons ch chunks)
  let ?f = "fst (Put cas f (ch_Hash ch) (ch_Data ch))"
  note p = store_ok_Put [OF Cons.prems(1), where h = "ch_Hash ch" and d = "ch_Data ch"]
  have "stored cas ?f (ch_Hash ch) \<noteq> None" using Cons.prems(2) by (intro p(3)) simp
  with Cons.IH [OF p(1)] Cons.prems(2) p(2) show ?case by auto
qed simp

section \<open>The invariant\<close>

text \<open>The parts of the node refer to the same store and directory, and neither directory contains the
  other.\<close>

definition wired :: "'db Daemon \<Rightarrow> bool" where
  "wired d \<longleftrightarrow> en_CAS (dm_Engine d) = dm_CAS d \<and> en_Client (dm_Engine d) = dm_Client d \<and>
     en_BaseDir (dm_Engine d) = dm_BaseDir d \<and>
     \<not> prefix (resolve (dm_fs d) (dm_BaseDir d)) (resolve (dm_fs d) (baseDir (dm_CAS d))) \<and>
     \<not> prefix (resolve (dm_fs d) (baseDir (dm_CAS d))) (resolve (dm_fs d) (dm_BaseDir d))"

text \<open>Every chunk the index mentions is in the store.\<close>

definition indexed :: "'db bolt \<Rightarrow> 'db Daemon \<Rightarrow> bool" where
  "indexed B d \<longleftrightarrow> (\<forall>i m. GetFileMeta B (dm_db d) i = Inr m \<longrightarrow>
     (\<forall>h \<in> set (fm_ChunkHashes m). stored (dm_CAS d) (dm_fs d) h \<noteq> None))"

definition daemon_inv :: "'db bolt \<Rightarrow> ('db \<Rightarrow> bool) \<Rightarrow> 'db Daemon \<Rightarrow> bool" where
  "daemon_inv B live d \<longleftrightarrow> wired d \<and> store_ok (dm_CAS d) (dm_fs d) \<and> live (dm_db d) \<and> indexed B d \<and>
     dm_syncing d = set (map fst (dm_pulls d)) \<and> distinct (map fst (dm_pulls d))"

lemma PutFileMeta_any:
  assumes "bolt_spec B live bucket" and "live db" and "valid_utf8 (fm_FileID m)"
  shows "live (fst (PutFileMeta B db m)) \<and>
    (\<forall>i x. GetFileMeta B (fst (PutFileMeta B db m)) i = Inr x \<longrightarrow> x = m \<or> GetFileMeta B db i = Inr x)"
proof (cases "storable_id (fm_FileID m)")
  case True
  show ?thesis
  proof (rule PutFileMeta_spec [OF assms(1,2) True])
    fix db'
    assume "PutFileMeta B db m = (db', Inr ())" "live db'"
      "\<And>i. GetFileMeta B db' i = (if i = fm_FileID m then Inr m else GetFileMeta B db i)"
    then show ?thesis by (auto split: if_splits)
  qed
next
  case False
  then have "fm_FileID m = [] \<or> 32768 < length (fm_FileID m)" using assms(3) by (auto simp: storable_id_def)
  then obtain e where "bolt_Put B db (fm_FileID m) (json_print (FileMeta_json m)) = Inl e"
    using bolt_Put_refused [OF assms(1,2)] by blast
  with assms(2) show ?thesis by (simp add: PutFileMeta_def)
qed

text \<open>The invariant looks only at some of the fields.\<close>

lemma daemon_inv_fields [simp]:
  "daemon_inv B live (d\<lparr>dm_quiet := q\<rparr>) \<longleftrightarrow> daemon_inv B live d"
  "daemon_inv B live (d\<lparr>dm_clock := c\<rparr>) \<longleftrightarrow> daemon_inv B live d"
  "daemon_inv B live (d\<lparr>dm_Gossip := g\<rparr>) \<longleftrightarrow> daemon_inv B live d"
  "daemon_inv B live (d\<lparr>dm_tracker := t\<rparr>) \<longleftrightarrow> daemon_inv B live d"
  by (simp_all add: daemon_inv_def wired_def indexed_def)

lemma daemon_inv_announce [simp]: "daemon_inv B live (announce i r t d) \<longleftrightarrow> daemon_inv B live d"
  by (simp add: announce_def)

lemma daemon_inv_store:
  assumes "daemon_inv B live d" and "store_ok (dm_CAS d) f" and "resolve f = resolve (dm_fs d)" and "live db"
    and "\<And>h. stored (dm_CAS d) (dm_fs d) h \<noteq> None \<Longrightarrow> stored (dm_CAS d) f h \<noteq> None"
    and "\<And>i m. GetFileMeta B db i = Inr m \<Longrightarrow> GetFileMeta B (dm_db d) i = Inr m \<or>
      (\<forall>h \<in> set (fm_ChunkHashes m). stored (dm_CAS d) f h \<noteq> None)"
  shows "daemon_inv B live (d\<lparr>dm_fs := f, dm_db := db\<rparr>)"
proof -
  have "stored (dm_CAS d) f h \<noteq> None" if "GetFileMeta B db i = Inr m" "h \<in> set (fm_ChunkHashes m)" for i m h
    using assms(6) [OF that(1)]
  proof
    assume "GetFileMeta B (dm_db d) i = Inr m"
    with assms(1) that(2) have "stored (dm_CAS d) (dm_fs d) h \<noteq> None" unfolding daemon_inv_def indexed_def by blast
    then show ?thesis by (rule assms(5))
  qed (use that(2) in blast)
  then have "indexed B (d\<lparr>dm_fs := f, dm_db := db\<rparr>)" by (simp add: indexed_def)
  with assms(1-4) show ?thesis by (simp add: daemon_inv_def wired_def)
qed

lemma index_file_inv:
  assumes "bolt_spec B live bucket" and "daemon_inv B live d" and "valid_utf8 fileID"
    and "\<forall>ch \<in> set chunks. sha256 (ch_Data ch) = ch_Hash ch"
  shows "daemon_inv B live (index_file B fileID chunks d)"
proof -
  have ok: "store_ok (dm_CAS d) (dm_fs d)" "live (dm_db d)" using assms(2) by (simp_all add: daemon_inv_def)
  note p = put_chunks_ok [OF ok(1) assms(4)]
  let ?m = "\<lparr>fm_FileID = fileID, fm_MerkleRoot = ComputeRoot chunks, fm_LamportTS = snd (nextTS (dm_clock d)),
     fm_ChunkHashes = map ch_Hash chunks, fm_SizeBytes = total_size chunks\<rparr>"
  have q: "live (fst (PutFileMeta B (dm_db d) ?m)) \<and> (\<forall>i x. GetFileMeta B (fst (PutFileMeta B (dm_db d) ?m)) i = Inr x \<longrightarrow>
      x = ?m \<or> GetFileMeta B (dm_db d) i = Inr x)"
    using assms(3) by (intro PutFileMeta_any [OF assms(1) ok(2)]) simp
  let ?f = "put_chunks (dm_CAS d) (dm_fs d) chunks" and ?db = "fst (PutFileMeta B (dm_db d) ?m)"
  have "daemon_inv B live (d\<lparr>dm_fs := ?f, dm_db := ?db\<rparr>)"
  proof (rule daemon_inv_store [OF assms(2)])
    fix i m
    assume "GetFileMeta B ?db i = Inr m"
    with q have "m = ?m \<or> GetFileMeta B (dm_db d) i = Inr m" by blast
    moreover have "\<forall>h \<in> set (fm_ChunkHashes ?m). stored (dm_CAS d) ?f h \<noteq> None" using p by simp
    ultimately show "GetFileMeta B (dm_db d) i = Inr m \<or> (\<forall>h \<in> set (fm_ChunkHashes m). stored (dm_CAS d) ?f h \<noteq> None)"
      by blast
  qed (use p q in blast)+
  moreover have "index_file B fileID chunks d =
    announce fileID (ComputeRoot chunks) (snd (nextTS (dm_clock d)))
      (d\<lparr>dm_fs := ?f, dm_db := ?db\<rparr>\<lparr>dm_clock := fst (nextTS (dm_clock d))\<rparr>)"
    by (simp add: index_file_def Let_def split_def)
  ultimately show ?thesis by simp
qed

lemma HandleFileChange_inv:
  assumes "bolt_spec B live bucket" and "daemon_inv B live d" and "valid_utf8 (file_id d path)"
    and "HandleFileChange C B now path d = Some d'"
  shows "daemon_inv B live d'"
proof -
  have "\<exists>q. d' = d \<or> d' = d\<lparr>dm_quiet := q\<rparr> \<or> (\<exists>chunks. ChunkFile C (NewFastCDCChunker 8192) (dm_fs d) path = Some (Inr chunks) \<and>
      d' = index_file B (file_id d path) chunks (d\<lparr>dm_quiet := q\<rparr>))"
    using assms(4) unfolding HandleFileChange_def Let_def
    by (auto split: if_split_asm prod.split_asm option.split_asm sum.split_asm)
  then obtain q where "d' = d \<or> d' = d\<lparr>dm_quiet := q\<rparr> \<or> (\<exists>chunks. ChunkFile C (NewFastCDCChunker 8192) (dm_fs d) path =
      Some (Inr chunks) \<and> d' = index_file B (file_id d path) chunks (d\<lparr>dm_quiet := q\<rparr>))" ..
  moreover have "daemon_inv B live (d\<lparr>dm_quiet := q\<rparr>)" using assms(2) by simp
  ultimately show ?thesis using assms(2) ChunkFile_hashes index_file_inv [OF assms(1) _ assms(3)] by blast
qed

lemma triggerSync_inv:
  assumes "daemon_inv B live d" and "triggerSync members fileID d = Some d'"
  shows "daemon_inv B live d'"
proof (cases "fileID \<in> dm_syncing d")
  case True
  with assms show ?thesis by (simp add: triggerSync_def)
next
  case False
  with assms(2) obtain peers where
    "d' = d\<lparr>dm_syncing := insert fileID (dm_syncing d), dm_pulls := dm_pulls d @ [(fileID, peers)]\<rparr>"
    by (auto simp: triggerSync_def split: option.splits)
  with assms(1) False show ?thesis by (simp add: daemon_inv_def wired_def indexed_def)
qed

lemma handleAnnouncement_inv:
  assumes "daemon_inv B live d" and "handleAnnouncement B members ann d = Some d'"
  shows "daemon_inv B live d'"
proof -
  let ?d = "d\<lparr>dm_clock := observeTS (dm_clock d) (an_LamportTS ann)\<rparr>"
  have "d' = d \<or> d' = ?d \<or> triggerSync members (an_FileID ann) ?d = Some d'"
    using assms(2) by (auto simp: handleAnnouncement_def Let_def split: if_splits sum.splits)
  moreover have "daemon_inv B live ?d" using assms(1) by simp
  ultimately show ?thesis using assms(1) triggerSync_inv by blast
qed

lemma reconcile_inv:
  "daemon_inv B live d \<Longrightarrow> reconcile_entries B members peer es d = Some d' \<Longrightarrow> daemon_inv B live d'"
proof (induction es arbitrary: d)
  case (Cons entry es)
  show ?case
  proof (cases "reconcile_entries B members peer es d = Some d'")
    case True
    with Cons show ?thesis by blast
  next
    case False
    with Cons.prems(2) obtain d1 where t: "triggerSync members (ce_FileID entry)
        (d\<lparr>dm_clock := observeTS (dm_clock d) (ce_LamportTS entry)\<rparr>) = Some d1" and r: "reconcile_entries B members peer es d1 = Some d'"
      by (auto split: if_splits option.splits)
    have "daemon_inv B live (d\<lparr>dm_clock := observeTS (dm_clock d) (ce_LamportTS entry)\<rparr>)" using Cons.prems(1) by simp
    from triggerSync_inv [OF this t] r show ?thesis by (rule Cons.IH)
  qed
qed simp

section \<open>Pulls keep the invariant\<close>

lemma out_places_apart:
  assumes "wired d" and "clean_id fileID" and "resolve f = resolve (dm_fs d)"
    and "prefix (resolve (dm_fs d) (baseDir (dm_CAS d))) p"
  shows "p \<notin> out_places (dm_Engine d) fileID f"
proof
  let ?base = "resolve (dm_fs d) (dm_BaseDir d)" and ?data = "resolve (dm_fs d) (baseDir (dm_CAS d))"
  assume p: "p \<in> out_places (dm_Engine d) fileID f"
  obtain cs where cs: "cs \<noteq> []" "normal_path cs" "fileID = join_path cs" using assms(2) by (auto simp: clean_id_def)
  have "resolve f (out_path (dm_Engine d) fileID) = ?base @ cs"
    "resolve f (Dir (out_path (dm_Engine d) fileID)) = ?base @ butlast cs"
    using assms(1,3) cs by (simp_all add: out_path_def wired_def resolve_Join_normal resolve_Dir_Join)
  with p have "p = ?base @ cs \<or> (\<exists>n. p = take n (?base @ butlast cs))" by (auto simp: out_places_def)
  moreover have "prefix (take n (?base @ butlast cs)) (?base @ cs)" for n
    using cs(1) by (metis append.assoc append_butlast_last_id prefix_def prefix_order.trans take_is_prefix)
  ultimately have "prefix p (?base @ cs)" by auto
  with assms(4) have "prefix ?data (?base @ cs)" by (rule prefix_order.trans)
  then have "prefix ?data ?base \<or> prefix ?base ?data" by (auto simp: prefix_append)
  with assms(1) show False by (simp add: wired_def)
qed

lemma finish_pull_failed_db:
  "finish_pull B e fileID rm s = (s', Inl err) \<Longrightarrow> pl_db s' = pl_db s"
  by (auto simp: finish_pull_def PutFileMeta_def Let_def split: prod.split_asm sum.split_asm)

text \<open>What a pull leaves behind: a sound store with at least the old chunks, and an index in which every new
  entry has its chunks in the store.\<close>

definition pull_keeps :: "'db bolt \<Rightarrow> ('db \<Rightarrow> bool) \<Rightarrow> 'db Daemon \<Rightarrow> fs \<Rightarrow> 'db \<Rightarrow> bool" where
  "pull_keeps B live d f db \<longleftrightarrow> store_ok (dm_CAS d) f \<and> resolve f = resolve (dm_fs d) \<and> live db \<and>
     (\<forall>h. stored (dm_CAS d) (dm_fs d) h \<noteq> None \<longrightarrow> stored (dm_CAS d) f h \<noteq> None) \<and>
     (\<forall>i m. GetFileMeta B db i = Inr m \<longrightarrow> GetFileMeta B (dm_db d) i = Inr m \<or>
       (\<forall>h \<in> set (fm_ChunkHashes m). stored (dm_CAS d) f h \<noteq> None))"

lemma run_workers_keeps:
  assumes "run_workers net (dm_Engine d) toHTTP (tr, dm_fs d, ws, errs) evs = (tr', f', ws', errs')" and "daemon_inv B live d"
  shows "pull_keeps B live d f' (dm_db d)"
proof -
  let ?I = "\<lambda>g. store_ok (dm_CAS d) g \<and> resolve g = resolve (dm_fs d) \<and>
    (\<forall>h. stored (dm_CAS d) (dm_fs d) h \<noteq> None \<longrightarrow> stored (dm_CAS d) g h \<noteq> None)"
  have cas: "en_CAS (dm_Engine d) = dm_CAS d" using assms(2) by (simp add: daemon_inv_def wired_def)
  have "?I f'"
  proof (rule run_workers_invariant [OF assms(1), where I = ?I])
    fix g now http h d'
    assume "?I g"
    then show "?I (fst (Put (en_CAS (dm_Engine d)) g h d'))" unfolding cas using store_ok_Put by simp
  qed (use assms(2) in \<open>simp add: daemon_inv_def\<close>)
  with assms(2) show ?thesis by (simp add: pull_keeps_def daemon_inv_def)
qed

lemma finish_pull_keeps:
  assumes "bolt_spec B live bucket" and "daemon_inv B live d" and "clean_id fileID" and "valid_utf8 (fm_FileID rm)"
    and "pull_keeps B live d (pl_fs s) (dm_db d)" and "pl_db s = dm_db d"
    and "finish_pull B (dm_Engine d) fileID rm s = (s', r)"
  shows "pull_keeps B live d (pl_fs s') (pl_db s')"
proof -
  let ?P = "out_places (dm_Engine d) fileID (pl_fs s)"
  have w: "wired d" "en_CAS (dm_Engine d) = dm_CAS d" using assms(2) by (auto simp: daemon_inv_def wired_def)
  have res: "resolve (pl_fs s) = resolve (dm_fs d)" using assms(5) by (simp add: pull_keeps_def)
  have apart: "p \<notin> ?P" if "prefix (resolve (pl_fs s) (baseDir (dm_CAS d))) p" for p
    using out_places_apart [OF w(1) assms(3) res] that res by simp
  have "only_at ?P (pl_fs s) (pl_fs s')" using finish_pull_only [of "dm_Engine d" fileID s B rm] assms(7) by simp
  then have "same_data (dm_CAS d) (pl_fs s) (pl_fs s')" using apart by (simp add: same_data_def only_at_def)
  note same = same_data_keeps [OF this]
  have obj: "\<forall>h. obj_path (en_CAS (dm_Engine d)) (pl_fs s) h \<notin> ?P"
    unfolding w(2) by (intro allI apart) (simp add: obj_path_def)
  have "live (pl_db s') \<and> (\<forall>i m. GetFileMeta B (pl_db s') i = Inr m \<longrightarrow> GetFileMeta B (dm_db d) i = Inr m \<or>
       (\<forall>h \<in> set (fm_ChunkHashes m). stored (dm_CAS d) (pl_fs s') h \<noteq> None))"
  proof (cases r)
    case (Inl err)
    with assms(2,6,7) finish_pull_failed_db show ?thesis by (fastforce simp: daemon_inv_def)
  next
    case (Inr ok)
    note st = finish_pull_stored [OF assms(7) [unfolded Inr] obj]
    have "live (dm_db d)" using assms(2) by (simp add: daemon_inv_def)
    from PutFileMeta_any [OF assms(1) this assms(4)] st(2) assms(6)
    have "live (pl_db s')" "\<And>i x. GetFileMeta B (pl_db s') i = Inr x \<Longrightarrow> x = rm \<or> GetFileMeta B (dm_db d) i = Inr x"
      by (simp_all add: assms(6))
    with st(1) show ?thesis unfolding w(2) same(2) by blast
  qed
  with assms(5) same show ?thesis by (simp add: pull_keeps_def)
qed

lemma Pull_keeps:
  assumes "bolt_spec B live bucket" and "daemon_inv B live d" and "clean_id fileID" and "fits net d"
    and "Pull B dial net srt (dm_Engine d) now order evs fileID peers (pull_state_of d) = Some (s', r)"
  shows "pull_keeps B live d (pl_fs s') (pl_db s')"
proof -
  have sel: "pl_fs (pull_state_of d) = dm_fs d" "pl_db (pull_state_of d) = dm_db d" by (simp_all add: pull_state_of_def)
  have refl: "pull_keeps B live d (dm_fs d) (dm_db d)" using assms(2) by (simp add: pull_keeps_def daemon_inv_def)
  show ?thesis
    using assms(5)
  proof (cases rule: Pull_cases)
    case early
    with refl sel show ?thesis by simp
  next
    case (failed tr f ws errs started)
    with run_workers_keeps [OF _ assms(2)] sel show ?thesis by simp
  next
    case (assembled tr f ws started localRoot known dr rm)
    have "\<And>a. a \<in> set (map GRPCAddr peers) \<Longrightarrow> grpc_map peers a \<noteq> None" using grpc_map_dom by auto
    from select_source_ok [OF assembled(1) this]
    obtain h where "FetchMeta (net now) (en_Client (dm_Engine d)) now h fileID = Inr rm" by blast
    then have u: "valid_utf8 (fm_FileID rm)"
      using assms(2,4) by (auto simp: fits_def daemon_inv_def wired_def)
    have "pull_keeps B live d f (dm_db d)" using assembled(2) sel by (intro run_workers_keeps [OF _ assms(2)]) simp
    with assembled(3) show ?thesis
      using sel by (intro finish_pull_keeps [OF assms(1-3) u, where s = "(pull_state_of d)\<lparr>pl_tracker := tr, pl_fs := f\<rparr>"]) simp_all
  qed
qed

lemma foldl_announce:
  fixes d :: "'db Daemon"
  shows "daemon_inv B live (foldl (\<lambda>d (i, r, t). announce i r t d) d xs) \<longleftrightarrow> daemon_inv B live d"
    and "dm_pulls (foldl (\<lambda>d (i, r, t). announce i r t d) d xs) = dm_pulls d"
    and "dm_syncing (foldl (\<lambda>d (i, r, t). announce i r t d) d xs) = dm_syncing d"
    and "dm_db (foldl (\<lambda>d (i, r, t). announce i r t d) d xs) = dm_db d"
    and "dm_clock (foldl (\<lambda>d (i, r, t). announce i r t d) d xs) = dm_clock d"
    and "dm_BaseDir (foldl (\<lambda>d (i, r, t). announce i r t d) d xs) = dm_BaseDir d"
  by (induction xs arbitrary: d) (auto simp: announce_def)

lemma finish_sync_frame:
  assumes "finish_sync B dial net srt now order evs k d = Some d'"
  shows "dm_clock d' = dm_clock d" and "dm_BaseDir d' = dm_BaseDir d"
  using assms by (auto simp: finish_sync_def after_pull_def foldl_announce Let_def split: prod.splits option.splits)

lemma after_pull_inv:
  assumes "daemon_inv B live d" and "pull_keeps B live d (pl_fs s) (pl_db s)"
  shows "daemon_inv B live (after_pull now s d)"
proof -
  have "daemon_inv B live (d\<lparr>dm_fs := pl_fs s, dm_db := pl_db s\<rparr>)"
    using assms(2) by (intro daemon_inv_store [OF assms(1)]) (auto simp: pull_keeps_def)
  then show ?thesis by (simp add: after_pull_def foldl_announce)
qed

lemma remove_pull:
  assumes "distinct (map fst xs)" and "i < length xs"
  shows "set (map fst (take i xs @ drop (Suc i) xs)) = set (map fst xs) - {fst (xs ! i)}"
    and "distinct (map fst (take i xs @ drop (Suc i) xs))"
proof -
  have xs: "map fst xs = map fst (take i xs) @ fst (xs ! i) # map fst (drop (Suc i) xs)"
    using id_take_nth_drop [OF assms(2)] by (metis list.simps(9) map_append)
  with assms(1) have "distinct (map fst (take i xs) @ fst (xs ! i) # map fst (drop (Suc i) xs))" by simp
  with xs show "set (map fst (take i xs @ drop (Suc i) xs)) = set (map fst xs) - {fst (xs ! i)}"
    "distinct (map fst (take i xs @ drop (Suc i) xs))" by auto
qed

lemma finish_sync_inv:
  assumes "bolt_spec B live bucket" and "daemon_inv B live d" and "i < length (dm_pulls d)"
    and "clean_id (fst (dm_pulls d ! i))" and "fits net d"
    and "finish_sync B dial net srt now order evs i d = Some d'"
  shows "daemon_inv B live d'"
proof -
  obtain fileID peers where p: "dm_pulls d ! i = (fileID, peers)" by (rule prod.exhaust)
  with assms(6) obtain s r where
    pull: "Pull B dial net srt (dm_Engine d) now order evs fileID peers (pull_state_of d) = Some (s, r)"
    and d': "d' = (after_pull now s d)\<lparr>dm_syncing := dm_syncing (after_pull now s d) - {fileID},
        dm_pulls := take i (dm_pulls (after_pull now s d)) @ drop (Suc i) (dm_pulls (after_pull now s d))\<rparr>"
    by (auto simp: finish_sync_def Let_def split: option.splits)
  have inv: "daemon_inv B live (after_pull now s d)"
    using Pull_keeps [OF assms(1,2) _ assms(5) pull] assms(4) p by (intro after_pull_inv [OF assms(2)]) simp
  have sel: "dm_pulls (after_pull now s d) = dm_pulls d" "dm_syncing (after_pull now s d) = dm_syncing d"
    by (simp_all add: after_pull_def foldl_announce)
  have "distinct (map fst (dm_pulls d))" "dm_syncing d = set (map fst (dm_pulls d))"
    using assms(2) by (simp_all add: daemon_inv_def)
  with remove_pull [OF _ assms(3)] p
  have "dm_syncing d - {fileID} = set (map fst (take i (dm_pulls d) @ drop (Suc i) (dm_pulls d)))"
    "distinct (map fst (take i (dm_pulls d) @ drop (Suc i) (dm_pulls d)))" by simp_all
  with inv d' sel show ?thesis by (simp add: daemon_inv_def wired_def indexed_def)
qed

lemma api_serve_inv:
  assumes "bolt_spec B live bucket" and "daemon_inv B live d" and "valid_utf8 (query_Get (uri_query (rq_URI r)) ''path'')"
    and "api_serve C B members r body d = Some (d', status)"
  shows "daemon_inv B live d'"
proof -
  let ?path = "query_Get (uri_query (rq_URI r)) ''path''"
  have "d' = d \<or> (\<exists>chunks. ChunkFile C (NewFastCDCChunker 8192) (dm_fs d) ?path = Some (Inr chunks) \<and>
      d' = index_file B ?path chunks d) \<or> (\<exists>fileID. triggerSync members fileID d = Some d')"
    using assms(4)
    by (auto simp: api_serve_def api_ingest_def api_sync_def Let_def split: if_split_asm option.split_asm sum.split_asm)
  then show ?thesis
    using assms(2) index_file_inv [OF assms(1,2,3)] ChunkFile_hashes triggerSync_inv [OF assms(2)] by blast
qed

lemma dstep_inv:
  assumes "dstep C B d d'" and "bolt_spec B live bucket" and "daemon_inv B live d"
  shows "daemon_inv B live d'"
  using assms(1)
proof (cases rule: dstep.cases)
  case (file_changed path now)
  with HandleFileChange_inv [OF assms(2,3)] show ?thesis by blast
next
  case (announced members ann)
  with handleAnnouncement_inv [OF assms(3)] show ?thesis by blast
next
  case (reconciled net members now peer)
  with reconcile_inv [OF assms(3)] assms(3) show ?thesis by (auto simp: reconcileWithPeer_def split: sum.splits)
next
  case (api_called r members body status)
  with api_serve_inv [OF assms(2,3)] show ?thesis by blast
next
  case (synced i net dial srt now order evs)
  with finish_sync_inv [OF assms(2,3)] show ?thesis by blast
next
  case (user f)
  have same: "same_data (dm_CAS d) (dm_fs d) f" using user by (simp add: user_change_def same_data_def)
  have "daemon_inv B live (d\<lparr>dm_fs := f, dm_db := dm_db d\<rparr>)"
    using same_data_keeps [OF same] assms(3) by (intro daemon_inv_store [OF assms(3)]) (auto simp: daemon_inv_def)
  with user show ?thesis by simp
qed

section \<open>A local change\<close>

lemma total_size_length: "total_size chunks = word_of_nat (length (concat (map ch_Data chunks)))"
proof -
  have "foldl (\<lambda>s ch. s + word_of_nat (length (ch_Data ch))) z chunks = z + word_of_nat (length (concat (map ch_Data chunks)))"
    for z :: uint64 by (induction chunks arbitrary: z) (simp_all add: add.assoc)
  from this [of 0] show ?thesis by (simp add: total_size_def)
qed

lemma IsQuiet_at: "snd (IsQuiet q now path) = is_quiet_at q (now, path)"
  by (simp add: IsQuiet_def is_quiet_at_def split: option.split)

definition unchanged :: "'db bolt \<Rightarrow> 'db Daemon \<Rightarrow> gostring \<Rightarrow> Chunk list \<Rightarrow> bool" where
  "unchanged B d fileID chunks \<longleftrightarrow>
     (\<exists>m. GetFileMeta B (dm_db d) fileID = Inr m \<and> fm_MerkleRoot m = ComputeRoot chunks)"

lemma HandleFileChange_result:
  assumes "fastcdc_spec C" and "readable (dm_fs d) path content" and "Ext path \<noteq> ''.db''"
    and "\<not> is_quiet_at (dm_quiet d) (now, path)"
  obtains cs where "ChunkFile C (NewFastCDCChunker 8192) (dm_fs d) path = Some (Inr cs)"
    and "concat (map ch_Data cs) = content" and "chunks_wf cs"
    and "HandleFileChange C B now path d =
      Some (let d1 = d\<lparr>dm_quiet := fst (IsQuiet (dm_quiet d) now path)\<rparr> in
        if unchanged B d (file_id d path) cs then d1 else index_file B (file_id d path) cs d1)"
proof (rule ChunkFile_spec [OF assms(1,2)])
  fix cs
  assume cs: "ChunkFile C (NewFastCDCChunker 8192) (dm_fs d) path = Some (Inr cs)"
    "concat (map ch_Data cs) = content" "chunks_wf cs"
  moreover obtain q b where "IsQuiet (dm_quiet d) now path = (q, b)" by (rule prod.exhaust)
  moreover from this have "\<not> b" using assms(4) IsQuiet_at [of "dm_quiet d" now path] by simp
  ultimately show thesis using assms(3)
    by (intro that [OF cs]) (auto simp: HandleFileChange_def Let_def unchanged_def split: sum.split)
qed

lemma index_file_fields:
  "dm_fs (index_file B fileID chunks d) = put_chunks (dm_CAS d) (dm_fs d) chunks"
  "dm_clock (index_file B fileID chunks d) = dm_clock d + 1"
  "dm_CAS (index_file B fileID chunks d) = dm_CAS d"
  "dm_db (index_file B fileID chunks d) = fst (PutFileMeta B (dm_db d)
     \<lparr>fm_FileID = fileID, fm_MerkleRoot = ComputeRoot chunks, fm_LamportTS = dm_clock d + 1,
      fm_ChunkHashes = map ch_Hash chunks, fm_SizeBytes = total_size chunks\<rparr>)"
  "dm_Gossip (index_file B fileID chunks d) = Broadcast (dm_Gossip d)
     \<lparr>an_FileID = fileID, an_MerkleRoot = ComputeRoot chunks, an_LamportTS = dm_clock d + 1, an_SourceNode = dm_Name d\<rparr>"
  by (simp_all add: index_file_def announce_def nextTS_def Let_def)

text \<open>A changed file is indexed: its metadata describe its content, and its chunks are in the store.\<close>

lemma index_file_meta:
  assumes "bolt_spec B live bucket" and "live (dm_db d)" and "storable_id fileID"
  shows "GetFileMeta B (dm_db (index_file B fileID cs d)) fileID = Inr \<lparr>fm_FileID = fileID, fm_MerkleRoot = ComputeRoot cs,
      fm_LamportTS = dm_clock d + 1, fm_ChunkHashes = map ch_Hash cs, fm_SizeBytes = total_size cs\<rparr>"
proof -
  let ?m = "\<lparr>fm_FileID = fileID, fm_MerkleRoot = ComputeRoot cs, fm_LamportTS = dm_clock d + 1,
      fm_ChunkHashes = map ch_Hash cs, fm_SizeBytes = total_size cs\<rparr>"
  have sid: "storable_id (fm_FileID ?m)" using assms(3) by simp
  show ?thesis
    unfolding index_file_fields
  proof (rule PutFileMeta_spec [OF assms(1,2) sid])
    fix db'
    assume "PutFileMeta B (dm_db d) ?m = (db', Inr ())"
      "\<And>i. GetFileMeta B db' i = (if i = fm_FileID ?m then Inr ?m else GetFileMeta B (dm_db d) i)"
    then show "GetFileMeta B (fst (PutFileMeta B (dm_db d) ?m)) fileID = Inr ?m" by simp
  qed
qed

lemma index_file_result:
  assumes "bolt_spec B live bucket" and "store_ok (dm_CAS d) (dm_fs d)" and "live (dm_db d)" and "storable_id fileID"
    and "hashed cs" and "d' = index_file B fileID cs d"
  shows "GetFileMeta B (dm_db d') fileID = Inr \<lparr>fm_FileID = fileID, fm_MerkleRoot = ComputeRoot cs,
      fm_LamportTS = dm_clock d + 1, fm_ChunkHashes = map ch_Hash cs, fm_SizeBytes = total_size cs\<rparr>"
    and "ch \<in> set cs \<Longrightarrow> \<exists>x. Get (dm_CAS d') (dm_fs d') (ch_Hash ch) = Inr x \<and> sha256 x = ch_Hash ch"
proof -
  show "GetFileMeta B (dm_db d') fileID = Inr \<lparr>fm_FileID = fileID, fm_MerkleRoot = ComputeRoot cs,
      fm_LamportTS = dm_clock d + 1, fm_ChunkHashes = map ch_Hash cs, fm_SizeBytes = total_size cs\<rparr>"
    unfolding assms(6) using assms(1,3,4) by (rule index_file_meta)
  have p: "store_ok (dm_CAS d) (put_chunks (dm_CAS d) (dm_fs d) cs)"
    "\<forall>ch \<in> set cs. stored (dm_CAS d) (put_chunks (dm_CAS d) (dm_fs d) cs) (ch_Hash ch) \<noteq> None"
    using put_chunks_ok [OF assms(2)] assms(5) by (auto simp: hashed_def)
  show "\<exists>x. Get (dm_CAS d') (dm_fs d') (ch_Hash ch) = Inr x \<and> sha256 x = ch_Hash ch" if "ch \<in> set cs"
    unfolding assms(6) index_file_fields
    using p that Get_stored cas.content_hash unfolding store_ok_def by blast
qed

section \<open>A fresh node\<close>

lemma mkdirs_adds:
  "mkdirs f ps = (f', r) \<Longrightarrow> (\<forall>p. ents f' p = ents f p \<or> p \<in> set ps \<and> ents f p = None \<and> ents f' p = Some FDir) \<and>
   (r = Inr () \<longrightarrow> (\<forall>p \<in> set ps. ents f' p = Some FDir))"
proof (induction f ps rule: mkdirs.induct)
  case (2 f p ps)
  show ?case
  proof (cases "ents f p")
    case None
    show ?thesis
    proof (cases "faulty f OpMkdir p")
      case True
      with 2(3) None show ?thesis by auto
    next
      case False
      with 2(1) [OF None False] 2(3) None show ?thesis
        by (simp add: fun_upd_def) (metis option.distinct(1))
    qed
  next
    case (Some n)
    show ?thesis
    proof (cases n)
      case FDir
      with 2(2,3) Some show ?thesis by simp (metis option.distinct(1))
    next
      case (FFile x)
      with 2(3) Some show ?thesis by auto
    qed
  qed
qed auto

text \<open>Only directories are new, and only at \<open>P\<close>.\<close>

definition grown :: "path set \<Rightarrow> fs \<Rightarrow> fs \<Rightarrow> bool" where
  "grown P f f' \<longleftrightarrow> wd f' = wd f \<and> faults f' = faults f \<and>
     (\<forall>p. ents f' p = ents f p \<or> p \<in> P \<and> ents f p = None \<and> ents f' p = Some FDir)"

lemma grown_trans: "grown P f g \<Longrightarrow> grown Q g h \<Longrightarrow> grown (P \<union> Q) f h"
  unfolding grown_def by (metis UnCI option.distinct(1))

lemma grown_resolve: "grown P f g \<Longrightarrow> resolve g = resolve f"
  by (intro resolve_cong) (simp add: grown_def)

lemma os_MkdirAll_grown:
  assumes "os_MkdirAll f s = (f', r)"
  shows "grown {p. prefix p (resolve f s)} f f'" and "r = Inr () \<Longrightarrow> ents f' (resolve f s) = Some FDir"
proof -
  have "grown {p. prefix p (resolve f s)} f f' \<and> (r = Inr () \<longrightarrow> ents f' (resolve f s) = Some FDir)"
  proof (cases "ents f (resolve f s) = Some FDir")
    case True
    with assms show ?thesis by (simp add: os_MkdirAll_def Let_def grown_def)
  next
    case False
    let ?ps = "map (\<lambda>n. take n (resolve f s)) [0..<Suc (length (resolve f s))]"
    have m: "mkdirs f ?ps = (f', r)" using False assms by (simp add: os_MkdirAll_def Let_def)
    have "resolve f s \<in> set ?ps" "set ?ps \<subseteq> {p. prefix p (resolve f s)}" by (auto simp: take_is_prefix)
    with mkdirs_adds [OF m] mkdirs_effect [OF m] show ?thesis unfolding grown_def by blast
  qed
  then show "grown {p. prefix p (resolve f s)} f f'" "r = Inr () \<Longrightarrow> ents f' (resolve f s) = Some FDir" by blast+
qed

text \<open>Where no file is in the way, making directories succeeds.\<close>

definition no_file :: "fs \<Rightarrow> path \<Rightarrow> bool" where
  "no_file f p \<longleftrightarrow> (\<forall>x. ents f p \<noteq> Some (FFile x))"

lemma mkdirs_succeeds: "no_faults f \<Longrightarrow> \<forall>p \<in> set ps. no_file f p \<Longrightarrow> snd (mkdirs f ps) = Inr ()"
proof (induction f ps rule: mkdirs.induct)
  case (2 f p ps)
  show ?case
  proof (cases "ents f p")
    case None
    have "no_faults (fs_set f p (Some FDir))" "\<forall>q \<in> set ps. no_file (fs_set f p (Some FDir)) q"
      using "2.prems" by (auto simp: no_faults_def no_file_def)
    with 2(1) None "2.prems"(1) show ?thesis by simp
  next
    case (Some n)
    with 2(2) "2.prems" show ?thesis by (cases n) (auto simp: no_file_def)
  qed
qed simp

lemma os_MkdirAll_succeeds:
  assumes "no_faults f" and "\<And>q. prefix q (resolve f s) \<Longrightarrow> no_file f q"
  shows "\<exists>f'. os_MkdirAll f s = (f', Inr ())"
proof -
  have "snd (os_MkdirAll f s) = Inr ()"
    using assms(1) mkdirs_succeeds [of f "map (\<lambda>n. take n (resolve f s)) [0..<Suc (length (resolve f s))]"] assms(2)
    by (auto simp: os_MkdirAll_def Let_def take_is_prefix simp del: upt_Suc)
  then show ?thesis by (metis prod.collapse)
qed

lemma grown_no_file: "grown P f g \<Longrightarrow> no_file f p \<Longrightarrow> no_file g p" and grown_no_faults: "grown P f g \<Longrightarrow> no_faults f \<Longrightarrow> no_faults g"
  by (auto simp: grown_def no_file_def no_faults_def) (metis fnode.distinct(1) option.inject)

lemma NewCASBlobStore_ok:
  assumes "NewCASBlobStore f base = (f', Inr cas)"
  shows "baseDir cas = base" and "cas_dirs cas f'"
    and "grown {p. prefix p (resolve f base @ [''objects'']) \<or> prefix p (resolve f base @ [''tmp''])} f f'"
proof -
  obtain f1 where m1: "os_MkdirAll f (Join base ''objects'') = (f1, Inr ())"
    using assms by (auto simp: NewCASBlobStore_def split: prod.splits sum.splits)
  have m2: "os_MkdirAll f1 (Join base ''tmp'') = (f', Inr ())" and b: "baseDir cas = base"
    using assms m1 by (auto simp: NewCASBlobStore_def split: prod.splits sum.splits)
  note g1 = os_MkdirAll_grown [OF m1] and g2 = os_MkdirAll_grown [OF m2]
  have r: "resolve g (Join base ''objects'') = resolve g base @ [''objects'']"
    "resolve g (Join base ''tmp'') = resolve g base @ [''tmp'']" for g
    using resolve_Join_normal [of "[''objects'']" g base] resolve_Join_normal [of "[''tmp'']" g base] by simp_all
  note r1 = grown_resolve [OF g1(1)] and r2 = grown_resolve [OF g2(1)]
  show "baseDir cas = base" by (rule b)
  have "grown ({p. prefix p (resolve f base @ [''objects''])} \<union> {p. prefix p (resolve f base @ [''tmp''])}) f f'"
    using grown_trans [OF g1(1) g2(1)] by (simp add: r r1)
  then show "grown {p. prefix p (resolve f base @ [''objects'']) \<or> prefix p (resolve f base @ [''tmp''])} f f'"
    by (simp add: Un_def)
  have "ents f1 (resolve f base @ [''objects'']) = Some FDir" using g1(2) r by simp
  then have "ents f' (resolve f base @ [''objects'']) = Some FDir"
    using g2(1) unfolding grown_def by (metis option.distinct(1))
  moreover have "ents f' (resolve f base @ [''tmp'']) = Some FDir" using g2(2) r r1 by simp
  ultimately show "cas_dirs cas f'" by (simp add: cas_dirs_def b r1 r2)
qed

lemma NewDaemon_cases:
  assumes "NewDaemon B watch f now name syncDir dataDir httpPort grpcPort gossipPort secret = (f', Inr d)"
  obtains f1 f2 r1 r2 cas db where "\<not> isSubPath f syncDir dataDir" "os_MkdirAll f syncDir = (f1, r1)" "os_MkdirAll f1 dataDir = (f2, r2)"
    "NewCASBlobStore f2 dataDir = (f', Inr cas)" "NewBoltMetaStore B (Join dataDir ''meta.db'') = Inr (db, None)"
    "dm_CAS d = cas" "dm_db d = db" "dm_fs d = f'" "dm_BaseDir d = syncDir" "dm_clock d = 0" "dm_syncing d = {}" "dm_pulls d = []"
    "dm_Engine d = NewEngine name secret syncDir cas (dm_Client d)" "dm_Name d = name"
proof -
  obtain f1 r1 where m1: "os_MkdirAll f syncDir = (f1, r1)" by (rule prod.exhaust)
  obtain f2 r2 where m2: "os_MkdirAll f1 dataDir = (f2, r2)" by (rule prod.exhaust)
  have sub: "\<not> isSubPath f syncDir dataDir" using assms by (auto simp: NewDaemon_def)
  obtain cas where c: "NewCASBlobStore f2 dataDir = (f', Inr cas)"
    using assms m1 m2 sub
    by (auto simp: NewDaemon_def Let_def split: prod.split_asm sum.split_asm option.split_asm)
  obtain db where b: "NewBoltMetaStore B (Join dataDir ''meta.db'') = Inr (db, None)"
    using assms m1 m2 sub c
    by (auto simp: NewDaemon_def Let_def split: prod.split_asm sum.split_asm option.split_asm)
  show thesis
    using assms m1 m2 sub c b
    by (intro that [OF sub m1 m2 c b]) (auto simp: NewDaemon_def Let_def split: sum.split_asm)
qed

text \<open>The constructor makes directories and changes nothing else on disk.\<close>

lemma NewDaemon_disk:
  assumes "NewDaemon B watch f now name syncDir dataDir httpPort grpcPort gossipPort secret = (f', Inr d)"
    and "\<not> prefix (resolve f dataDir) (resolve f syncDir)"
  shows "resolve f' = resolve f \<and> faults f' = faults f \<and> cas_dirs (dm_CAS d) f' \<and> baseDir (dm_CAS d) = dataDir"
    and "ents f' (resolve f dataDir @ [x, y]) = ents f (resolve f dataDir @ [x, y])"
proof -
  have "(resolve f' = resolve f \<and> faults f' = faults f \<and> cas_dirs (dm_CAS d) f' \<and> baseDir (dm_CAS d) = dataDir) \<and>
      ents f' (resolve f dataDir @ [x, y]) = ents f (resolve f dataDir @ [x, y])"
    using assms(1)
  proof (rule NewDaemon_cases)
    fix f1 f2 r1 r2 cas
    assume m1: "os_MkdirAll f syncDir = (f1, r1)" and m2: "os_MkdirAll f1 dataDir = (f2, r2)"
      and c: "NewCASBlobStore f2 dataDir = (f', Inr cas)" and d: "dm_CAS d = cas"
    note g1 = os_MkdirAll_grown(1) [OF m1] and g2 = os_MkdirAll_grown(1) [OF m2] and g3 = NewCASBlobStore_ok [OF c]
    note g = grown_trans [OF grown_trans [OF g1 g2] g3(3)]
    have r: "resolve f1 = resolve f" "resolve f2 = resolve f" "resolve f' = resolve f"
      using grown_resolve [OF g1] grown_resolve [OF g2] grown_resolve [OF g3(3)] by simp_all
    have "\<not> prefix (resolve f dataDir @ [x, y]) (resolve f syncDir)" using assms(2) append_prefixD by blast
    moreover have "\<not> prefix (resolve f dataDir @ [x, y]) (resolve f dataDir)"
      "\<not> prefix (resolve f dataDir @ [x, y]) (resolve f dataDir @ [z])" for z
      by (auto dest: prefix_length_le)
    ultimately have "ents f' (resolve f dataDir @ [x, y]) = ents f (resolve f dataDir @ [x, y])"
      using g unfolding grown_def r by blast
    then show ?thesis using r(3) g g3(1,2) by (simp add: d grown_def)
  qed
  then show "resolve f' = resolve f \<and> faults f' = faults f \<and> cas_dirs (dm_CAS d) f' \<and> baseDir (dm_CAS d) = dataDir"
    "ents f' (resolve f dataDir @ [x, y]) = ents f (resolve f dataDir @ [x, y])" by simp_all
qed

text \<open>A data directory that does not exist yet or is empty, outside the sync directory and not around it, and a
  database that starts empty.\<close>

definition fresh_start :: "'db bolt \<Rightarrow> ('db \<Rightarrow> bool) \<Rightarrow> fs \<Rightarrow> gostring \<Rightarrow> gostring \<Rightarrow> bool" where
  "fresh_start B live f syncDir dataDir \<longleftrightarrow> no_faults f \<and> normal_path (wd f) \<and>
     (\<forall>q. q \<noteq> [] \<longrightarrow> ents f (resolve f dataDir @ q) = None) \<and> \<not> prefix (resolve f dataDir) (resolve f syncDir) \<and>
     (\<forall>db. NewBoltMetaStore B (Join dataDir ''meta.db'') = Inr (db, None) \<longrightarrow>
        live db \<and> (\<forall>i m. GetFileMeta B db i \<noteq> Inr m))"

lemma NewDaemon_inv:
  assumes "NewDaemon B watch f now name syncDir dataDir httpPort grpcPort gossipPort secret = (f', Inr d)"
    and "fresh_start B live f syncDir dataDir"
  shows "daemon_inv B live d" and "stored (dm_CAS d) (dm_fs d) h = None"
proof -
  have fr: "no_faults f" "normal_path (wd f)" "\<And>q. q \<noteq> [] \<Longrightarrow> ents f (resolve f dataDir @ q) = None" "\<not> prefix (resolve f dataDir) (resolve f syncDir)"
    using assms(2) by (auto simp: fresh_start_def)
  note disk = NewDaemon_disk [OF assms(1) fr(4)]
  have none: "ents f' (resolve f dataDir @ [x, y]) = None" for x y using disk(2) fr(3) by simp
  have "daemon_inv B live d \<and> stored (dm_CAS d) (dm_fs d) h = None" for h
    using assms(1)
  proof (rule NewDaemon_cases)
    fix cas db
    assume sub: "\<not> isSubPath f syncDir dataDir" and b: "NewBoltMetaStore B (Join dataDir ''meta.db'') = Inr (db, None)"
      and d: "dm_CAS d = cas" "dm_db d = db" "dm_fs d = f'" "dm_BaseDir d = syncDir" "dm_syncing d = {}"
        "dm_pulls d = []" "dm_Engine d = NewEngine name secret syncDir cas (dm_Client d)"
    have db: "live db" "\<And>i m. GetFileMeta B db i \<noteq> Inr m" using assms(2) b by (auto simp: fresh_start_def)
    have "store_ok (dm_CAS d) (dm_fs d)"
      using disk(1) fr(1) by (simp add: store_ok_def no_faults_def cas_inv_def tmp_free_def obj_path_def tmp_path_def d none)
    moreover have "wired d"
      using sub fr(4) isSubPath_prefix [OF fr(2)] disk(1) by (simp add: wired_def d NewEngine_def)
    moreover have "stored (dm_CAS d) (dm_fs d) h = None" using disk(1) by (simp add: stored_def d obj_path_def none)
    ultimately show ?thesis using db by (simp add: daemon_inv_def indexed_def d)
  qed
  then show "daemon_inv B live d" and "stored (dm_CAS d) (dm_fs d) h = None" by simp_all
qed

text \<open>What is left of a node after a crash, also in the middle of a handler: a sound store with at least the chunks it
  had, whatever is in the sync directory, and the entries committed to the database.\<close>

definition survives :: "'db Daemon \<Rightarrow> fs \<Rightarrow> bool" where
  "survives d f \<longleftrightarrow> store_ok (dm_CAS d) f \<and> resolve f = resolve (dm_fs d) \<and>
     (\<forall>h. stored (dm_CAS d) (dm_fs d) h \<noteq> None \<longrightarrow> stored (dm_CAS d) f h \<noteq> None)"

definition reopened :: "'db bolt \<Rightarrow> ('db \<Rightarrow> bool) \<Rightarrow> 'db \<Rightarrow> 'db \<Rightarrow> bool" where
  "reopened B live db db' \<longleftrightarrow> live db' \<and> (\<forall>i. GetFileMeta B db' i = GetFileMeta B db i)"

lemma restart_inv:
  assumes "daemon_inv B live d" and "survives d f" and "reopened B live (dm_db d) (dm_db d')"
    and "NewDaemon B watch f now name (dm_BaseDir d) (baseDir (dm_CAS d)) httpPort grpcPort gossipPort secret = (f', Inr d')"
  shows "daemon_inv B live d'" and "stored (dm_CAS d') (dm_fs d') = stored (dm_CAS d) f"
proof -
  have w: "wired d" and ix: "indexed B d" using assms(1) by (simp_all add: daemon_inv_def)
  have su: "store_ok (dm_CAS d) f" "resolve f = resolve (dm_fs d)"
    "\<And>h. stored (dm_CAS d) (dm_fs d) h \<noteq> None \<Longrightarrow> stored (dm_CAS d) f h \<noteq> None" using assms(2) by (auto simp: survives_def)
  have "\<not> prefix (resolve f (baseDir (dm_CAS d))) (resolve f (dm_BaseDir d))" using w su(2) by (simp add: wired_def)
  note disk = NewDaemon_disk [OF assms(4) this]
  have "daemon_inv B live d' \<and> stored (dm_CAS d') (dm_fs d') = stored (dm_CAS d) f"
    using assms(4)
  proof (rule NewDaemon_cases)
    fix cas db
    assume d': "dm_CAS d' = cas" "dm_fs d' = f'" "dm_BaseDir d' = dm_BaseDir d" "dm_syncing d' = {}" "dm_pulls d' = []"
      "dm_Engine d' = NewEngine name secret (dm_BaseDir d) cas (dm_Client d')"
    have o: "ents f' (obj_path cas f' h) = ents f (obj_path (dm_CAS d) f h)" "ents f' (tmp_path cas f' h) = ents f (tmp_path (dm_CAS d) f h)" for h
      using disk d'(1) by (simp_all add: obj_path_def tmp_path_def)
    have st: "stored cas f' = stored (dm_CAS d) f" by (simp add: stored_def o fun_eq_iff)
    have "store_ok cas f'" using su(1) disk(1) d'(1) by (simp add: store_ok_def cas_inv_def tmp_free_def o no_faults_def)
    moreover have "wired d'" using w su(2) disk(1) by (simp add: wired_def d' NewEngine_def)
    moreover have "indexed B d'"
      using ix su(3) assms(3) unfolding indexed_def d'(1,2) st reopened_def by metis
    ultimately show ?thesis using assms(3) st by (simp add: daemon_inv_def d' reopened_def)
  qed
  then show "daemon_inv B live d'" and "stored (dm_CAS d') (dm_fs d') = stored (dm_CAS d) f" by simp_all
qed

lemma daemon_Start_inv: "daemon_Start create join seeds d = Some d' \<Longrightarrow> daemon_inv B live d' \<longleftrightarrow> daemon_inv B live d"
  by (auto simp: daemon_Start_def split: prod.splits sum.splits)

text \<open>The reachable states of a node: started on an empty data directory, moved on by steps, and started again with the
  same configuration (ports may change) on what a crash left.\<close>

inductive running :: "'s fastcdc \<Rightarrow> 'db bolt \<Rightarrow> ('db \<Rightarrow> bool) \<Rightarrow> bytes \<Rightarrow> 'db Daemon \<Rightarrow> bool" for C B live secret where
  booted: "NewDaemon B watch f now name syncDir dataDir httpPort grpcPort gossipPort secret = (f0, Inr d0) \<Longrightarrow>
    fresh_start B live f syncDir dataDir \<Longrightarrow> daemon_Start create join seeds d0 = Some d \<Longrightarrow> running C B live secret d"
| stepped: "running C B live secret d \<Longrightarrow> dstep C B d d' \<Longrightarrow> running C B live secret d'"
| restarted: "running C B live secret d \<Longrightarrow> survives d f \<Longrightarrow>
    NewDaemon B watch f now (dm_Name d) (dm_BaseDir d) (baseDir (dm_CAS d)) httpPort grpcPort gossipPort secret = (f0, Inr d0) \<Longrightarrow>
    reopened B live (dm_db d) (dm_db d0) \<Longrightarrow> daemon_Start create join seeds d0 = Some d' \<Longrightarrow> running C B live secret d'"

lemma running_inv:
  "running C B live secret d \<Longrightarrow> bolt_spec B live bucket \<Longrightarrow> daemon_inv B live d"
proof (induction rule: running.induct)
  case (booted watch f now name syncDir dataDir httpPort grpcPort gossipPort f0 d0 create join seeds d)
  then show ?case using NewDaemon_inv(1) [OF booted(1,2)] daemon_Start_inv [OF booted(3)] by simp
next
  case (stepped d d')
  then show ?case using dstep_inv by blast
next
  case (restarted d f watch now httpPort grpcPort gossipPort f0 d0 create join seeds d')
  then show ?case using restart_inv(1) [OF _ restarted(2,4,3)] daemon_Start_inv [OF restarted(5)] by simp
qed

section \<open>Properties\<close>

text \<open>A node started on an empty disk, with \<^verbatim>\<open>/s\<close> to sync and its data in \<^verbatim>\<open>/d\<close>.\<close>

definition blank_fs :: fs where
  "blank_fs = \<lparr>ents = (\<lambda>p. if p = [] then Some FDir else None), wd = [], faults = (\<lambda>_ _. None)\<rparr>"

definition demo_new_as :: "gostring \<Rightarrow> fs \<times> (daemon_error, (bytes \<times> bytes) list Daemon) result" where
  "demo_new_as name = NewDaemon list_bolt (Inr ()) blank_fs 0 name ''/s'' ''/d'' 9100 9000 7946 ''k''"

definition demo_new :: "fs \<times> (daemon_error, (bytes \<times> bytes) list Daemon) result" where
  "demo_new = demo_new_as ''n''"

lemma demo_new_ok: "\<exists>f d. demo_new_as name = (f, Inr d)"
proof -
  have nf: "no_file blank_fs p" "no_faults blank_fs" for p by (simp_all add: blank_fs_def no_file_def no_faults_def)
  obtain f1 where m1: "os_MkdirAll blank_fs ''/s'' = (f1, Inr ())" using os_MkdirAll_succeeds nf by blast
  note g1 = os_MkdirAll_grown(1) [OF m1]
  obtain f2 where m2: "os_MkdirAll f1 ''/d'' = (f2, Inr ())"
    using os_MkdirAll_succeeds grown_no_file [OF g1] grown_no_faults [OF g1] nf by blast
  note g2 = grown_trans [OF g1 os_MkdirAll_grown(1) [OF m2]]
  obtain f3 where m3: "os_MkdirAll f2 (Join ''/d'' ''objects'') = (f3, Inr ())"
    using os_MkdirAll_succeeds grown_no_file [OF g2] grown_no_faults [OF g2] nf by blast
  note g3 = grown_trans [OF g2 os_MkdirAll_grown(1) [OF m3]]
  obtain f4 where m4: "os_MkdirAll f3 (Join ''/d'' ''tmp'') = (f4, Inr ())"
    using os_MkdirAll_succeeds grown_no_file [OF g3] grown_no_faults [OF g3] nf by blast
  have "\<not> isSubPath blank_fs ''/s'' ''/d''" by code_simp
  then show ?thesis using m1 m2 m3 m4
    by (simp add: demo_new_as_def NewDaemon_def Let_def NewCASBlobStore_def NewBoltMetaStore_def list_bolt_def)
qed

lemma demo_fresh: "fresh_start list_bolt kv_sorted blank_fs ''/s'' ''/d''"
proof -
  have r: "resolve blank_fs ''/s'' = [''s'']" "resolve blank_fs ''/d'' = [''d'']" by code_simp+
  have "no_faults blank_fs" "normal_path (wd blank_fs)" "\<And>q. q \<noteq> [] \<Longrightarrow> ents blank_fs ([''d''] @ q) = None"
    by (simp_all add: blank_fs_def no_faults_def)
  then show ?thesis
    by (simp add: fresh_start_def r NewBoltMetaStore_def list_bolt_def kv_sorted_def GetFileMeta_def)
qed

text \<open>The node after \<^verbatim>\<open>Start\<close>, and the file \<^verbatim>\<open>/s/a\<close> appearing in its directory.\<close>

lemma demo_started:
  obtains f0 d0 d where "demo_new = (f0, Inr d0)" and "daemon_Start (Inr ()) (\<lambda>_. Inr ()) [] d0 = Some d"
    and "daemon_inv list_bolt kv_sorted d" and "dm_BaseDir d = ''/s''" and "baseDir (dm_CAS d) = ''/d''"
    and "\<And>now path. \<not> is_quiet_at (dm_quiet d) (now, path)" and "dm_clock d = 0" and "gn_queue (dm_Gossip d) = Some []"
    and "dm_db d = []" and "dm_Name d = ''n''"
proof -
  obtain f0 d0 where n: "demo_new = (f0, Inr d0)" using demo_new_ok by (metis demo_new_def)
  then have n': "NewDaemon list_bolt (Inr ()) blank_fs 0 ''n'' ''/s'' ''/d'' 9100 9000 7946 ''k'' = (f0, Inr d0)"
    by (simp add: demo_new_def demo_new_as_def)
  let ?d = "d0\<lparr>dm_Gossip := (OnAnnouncement (dm_Gossip d0))\<lparr>gn_queue := Some [], gn_list := True\<rparr>\<rparr>"
  have st: "daemon_Start (Inr ()) (\<lambda>_. Inr ()) [] d0 = Some ?d" by (simp add: daemon_Start_def gossip_Start_def Let_def)
  have inv: "daemon_inv list_bolt kv_sorted d0" by (rule NewDaemon_inv [OF n' demo_fresh])
  have q: "dm_quiet d0 = newQuietSet quietWriteTTL"
    using n' by (auto simp: NewDaemon_def Let_def split: if_split_asm prod.split_asm sum.split_asm option.split_asm)
  from n' show thesis
  proof (rule NewDaemon_cases)
    fix f1 f2 r1 r2 cas db
    assume a: "NewCASBlobStore f2 ''/d'' = (f0, Inr cas)" "NewBoltMetaStore list_bolt (Join ''/d'' ''meta.db'') = Inr (db, None)"
      "dm_CAS d0 = cas" "dm_db d0 = db" "dm_BaseDir d0 = ''/s''" "dm_clock d0 = 0" "dm_Name d0 = ''n''"
    have "db = []" using a(2) by (simp add: NewBoltMetaStore_def list_bolt_def)
    then show thesis
      using that [OF n st] inv a NewCASBlobStore_ok(1) [OF a(1)] q
      by (simp add: is_quiet_at_def newQuietSet_def OnAnnouncement_def)
  qed
qed

lemma demo_user_edit:
  assumes "daemon_inv list_bolt kv_sorted d" and "dm_BaseDir d = ''/s''" and "baseDir (dm_CAS d) = ''/d''"
  shows "user_change d (fs_set (dm_fs d) [''s'', ''a''] (Some (FFile x)))"
    and "readable (fs_set (dm_fs d) [''s'', ''a''] (Some (FFile x))) ''/s/a'' x" and "file_id d ''/s/a'' = ''a''"
proof -
  have r: "resolve f ''/d'' = [''d'']" "resolve f ''/s/a'' = [''s'', ''a'']" for f by code_simp+
  show "user_change d (fs_set (dm_fs d) [''s'', ''a''] (Some (FFile x)))"
    using assms(3) by (auto simp: user_change_def r)
  have "no_faults (dm_fs d)" using assms(1) by (simp add: daemon_inv_def store_ok_def)
  then show "readable (fs_set (dm_fs d) [''s'', ''a''] (Some (FFile x))) ''/s/a'' x"
    by (simp add: readable_def r)
  have "Rel ''/s'' ''/s/a'' = Some ''a''" by code_simp
  with assms(2) show "file_id d ''/s/a'' = ''a''" by (simp add: file_id_def)
qed

lemma demo_change:
  assumes "daemon_inv list_bolt kv_sorted d1" and "dm_BaseDir d1 = ''/s''" and "baseDir (dm_CAS d1) = ''/d''"
    and "\<And>now path. \<not> is_quiet_at (dm_quiet d1) (now, path)" and "dm_db d1 = []"
  shows "\<exists>d2 d. dstep fixed_cdc list_bolt d1 d2 \<and> dstep fixed_cdc list_bolt d2 d \<and>
    (\<exists>m. GetFileMeta list_bolt (dm_db d) ''a'' = Inr m)"
proof -
  note edit = demo_user_edit(1,2) [OF assms(1-3), where x = "''x''"] demo_user_edit(3) [OF assms(1-3)]
  let ?d2 = "d1\<lparr>dm_fs := fs_set (dm_fs d1) [''s'', ''a''] (Some (FFile ''x''))\<rparr>"
  have s1: "dstep fixed_cdc list_bolt d1 ?d2" using edit(1) by (rule user)
  have inv: "daemon_inv list_bolt kv_sorted ?d2" using dstep_inv [OF s1 list_bolt_spec assms(1)] .
  have fid: "file_id ?d2 ''/s/a'' = ''a''" using edit(3) by (simp add: file_id_def)
  have rd: "readable (dm_fs ?d2) ''/s/a'' ''x''" using edit(2) by simp
  have ext: "Ext ''/s/a'' \<noteq> ''.db''" by code_simp
  have nq: "\<not> is_quiet_at (dm_quiet ?d2) (0, ''/s/a'')" using assms(4) by simp
  show ?thesis
  proof (rule HandleFileChange_result [OF fixed_cdc_spec rd ext nq, where B = list_bolt])
    fix cs
    let ?q = "?d2\<lparr>dm_quiet := fst (IsQuiet (dm_quiet ?d2) 0 ''/s/a'')\<rparr>"
    assume cs: "chunks_wf cs" "HandleFileChange fixed_cdc list_bolt 0 ''/s/a'' ?d2 = Some (let d1 = ?q in
      if unchanged list_bolt ?d2 (file_id ?d2 ''/s/a'') cs then d1 else index_file list_bolt (file_id ?d2 ''/s/a'') cs d1)"
    have "\<not> unchanged list_bolt ?d2 ''a'' cs" using assms(5) by (simp add: unchanged_def GetFileMeta_def list_bolt_def)
    with cs(2) fid have h: "HandleFileChange fixed_cdc list_bolt 0 ''/s/a'' ?d2 = Some (index_file list_bolt ''a'' cs ?q)" by simp
    then have s2: "dstep fixed_cdc list_bolt ?d2 (index_file list_bolt ''a'' cs ?q)"
      using fid by (intro file_changed [of _ "''/s/a''"]) simp_all
    have "hashed cs" using cs(1) chunks_wf_hash by (simp add: hashed_def)
    moreover have "storable_id ''a''" by (simp add: storable_id_def)
    ultimately have "\<exists>m. GetFileMeta list_bolt (dm_db (index_file list_bolt ''a'' cs ?q)) ''a'' = Inr m"
      using index_file_result(1) [OF list_bolt_spec _ _ _ _ refl, of ?q "''a''" cs] inv by (simp add: daemon_inv_def)
    with s1 s2 show ?thesis by blast
  qed
qed



end
