(* ===== verification/MainCmd.thy ===== *)
theory MainCmd
  imports Daemon
begin

text \<open>
  \<^verbatim>\<open>cmd/nusyncd/main.go\<close>: the command line of a node.  The part of the Go package \<^verbatim>\<open>flag\<close> that
  \<open>main\<close> uses is written out (all flags take a value; integer flags are read by
  \<^verbatim>\<open>strconv.ParseInt(s, 0, 64)\<close>, so with base prefixes and underscores).  \<open>main\<close> ends
  with an exit code or with a started node that serves its local API.  Shown: every configuration
  can be given on the command line and is read back exactly, and for which directories the default
  data directory is the sibling it is meant to be.
\<close>

section \<open>Integer flags\<close>

definition lower_letter :: "char \<Rightarrow> char" where
  "lower_letter c = char_of (or (byte_val c) 32)"

definition digit36 :: "char \<Rightarrow> nat option" where
  "digit36 c = (case digit_val c of Some d \<Rightarrow> Some d
     | None \<Rightarrow> let n = byte_val (lower_letter c) in if 97 \<le> n \<and> n \<le> 122 then Some (n - 87) else None)"

fun digits_base :: "nat \<Rightarrow> nat \<Rightarrow> gostring \<Rightarrow> nat option" where
  "digits_base b acc [] = Some acc"
| "digits_base b acc (c # cs) =
     (if c = CHR ''_'' then digits_base b acc cs
      else case digit36 c of
        None \<Rightarrow> None
      | Some d \<Rightarrow> if d < b then digits_base b (b * acc + d) cs else None)"

definition base_prefix :: "gostring \<Rightarrow> nat \<times> gostring" where
  "base_prefix s = (case s of
       c # r \<Rightarrow>
         if c \<noteq> CHR ''0'' then (10, s)
         else (case r of
           x # y # ys \<Rightarrow>
             if lower_letter x = CHR ''b'' then (2, y # ys)
             else if lower_letter x = CHR ''o'' then (8, y # ys)
             else if lower_letter x = CHR ''x'' then (16, y # ys)
             else (8, r)
         | _ \<Rightarrow> (8, r))
     | [] \<Rightarrow> (10, s))"

text \<open>The rule for underscores: \<open>saw\<close> is the class of the character before.\<close>

datatype saw = SawStart | SawDigit | SawUnderscore | SawOther

fun underscores :: "bool \<Rightarrow> saw \<Rightarrow> gostring \<Rightarrow> bool" where
  "underscores hex saw [] = (saw \<noteq> SawUnderscore)"
| "underscores hex saw (c # cs) =
     (if digit_val c \<noteq> None \<or> hex \<and> (case digit36 c of Some d \<Rightarrow> d < 16 | None \<Rightarrow> False)
      then underscores hex SawDigit cs
      else if c = CHR ''_'' then saw = SawDigit \<and> underscores hex SawUnderscore cs
      else saw \<noteq> SawUnderscore \<and> underscores hex SawOther cs)"

definition underscoreOK :: "gostring \<Rightarrow> bool" where
  "underscoreOK s = (case s of
       c # x # r \<Rightarrow>
         if c = CHR ''0'' \<and> lower_letter x \<in> {CHR ''b'', CHR ''o'', CHR ''x''}
         then underscores (lower_letter x = CHR ''x'') SawDigit r
         else underscores False SawStart s
     | _ \<Rightarrow> underscores False SawStart s)"

definition ParseUint0 :: "gostring \<Rightarrow> nat option" where
  "ParseUint0 s = (if s = [] then None else
     case base_prefix s of (b, ds) \<Rightarrow>
       (case digits_base b 0 ds of
          None \<Rightarrow> None
        | Some n \<Rightarrow>
            if n < 2 ^ 64 \<and> (CHR ''_'' \<in> set ds \<longrightarrow> underscoreOK s) then Some n else None))"

definition ParseInt0 :: "gostring \<Rightarrow> int option" where
  "ParseInt0 s = (case s of [] \<Rightarrow> None
     | c # r \<Rightarrow>
       let neg = (c = CHR ''-''); ds = (if c = CHR ''-'' \<or> c = CHR ''+'' then r else s) in
       (case ParseUint0 ds of None \<Rightarrow> None
        | Some n \<Rightarrow> if neg then (if n \<le> 2 ^ 63 then Some (- int n) else None)
                    else (if n < 2 ^ 63 then Some (int n) else None)))"

section \<open>The flags\<close>

record flags =
  fl_name :: gostring
  fl_dir :: gostring
  fl_data :: gostring
  fl_http :: int
  fl_grpc :: int
  fl_gossip :: int
  fl_api :: int
  fl_seeds :: gostring
  fl_secret :: gostring

definition default_flags :: flags where
  "default_flags = \<lparr>fl_name = [], fl_dir = [], fl_data = [], fl_http = 9100, fl_grpc = 9000, fl_gossip = 7946,
     fl_api = 8080, fl_seeds = [], fl_secret = []\<rparr>"

datatype flag_error = FlagSyntax | FlagUndefined | FlagNeedsArgument | FlagInvalidValue | FlagHelp

definition set_flag :: "gostring \<Rightarrow> (gostring \<Rightarrow> flags \<Rightarrow> flags option) option" where
  "set_flag n =
     (if n = ''name'' then Some (\<lambda>v fl. Some (fl\<lparr>fl_name := v\<rparr>))
      else if n = ''dir'' then Some (\<lambda>v fl. Some (fl\<lparr>fl_dir := v\<rparr>))
      else if n = ''data'' then Some (\<lambda>v fl. Some (fl\<lparr>fl_data := v\<rparr>))
      else if n = ''http'' then Some (\<lambda>v fl. map_option (\<lambda>i. fl\<lparr>fl_http := i\<rparr>) (ParseInt0 v))
      else if n = ''grpc'' then Some (\<lambda>v fl. map_option (\<lambda>i. fl\<lparr>fl_grpc := i\<rparr>) (ParseInt0 v))
      else if n = ''gossip'' then Some (\<lambda>v fl. map_option (\<lambda>i. fl\<lparr>fl_gossip := i\<rparr>) (ParseInt0 v))
      else if n = ''api'' then Some (\<lambda>v fl. map_option (\<lambda>i. fl\<lparr>fl_api := i\<rparr>) (ParseInt0 v))
      else if n = ''seeds'' then Some (\<lambda>v fl. Some (fl\<lparr>fl_seeds := v\<rparr>))
      else if n = ''secret'' then Some (\<lambda>v fl. Some (fl\<lparr>fl_secret := v\<rparr>))
      else None)"

text \<open>One argument: the end of the flags, a malformed flag, or a flag with the value after
  its first equals sign.\<close>

datatype flag_arg = FlagsEnd | FlagBad | Flag gostring "gostring option"

definition cut_value :: "gostring \<Rightarrow> flag_arg" where
  "cut_value n = (case n of
       [] \<Rightarrow> FlagBad
     | c # r \<Rightarrow>
         if c = CHR ''-'' \<or> c = CHR ''='' then FlagBad
         else if CHR ''='' \<in> set r
           then Flag (c # takeWhile (\<lambda>x. x \<noteq> CHR ''='') r) (Some (tl (dropWhile (\<lambda>x. x \<noteq> CHR ''='') r)))
           else Flag n None)"

definition flag_arg :: "gostring \<Rightarrow> flag_arg" where
  "flag_arg s = (case s of
       c # d # r \<Rightarrow>
         if c \<noteq> CHR ''-'' then FlagsEnd
         else if d = CHR ''-'' then (if r = [] then FlagsEnd else cut_value r)
         else cut_value (d # r)
     | _ \<Rightarrow> FlagsEnd)"

fun flag_Parse :: "gostring list \<Rightarrow> flags \<Rightarrow> (flag_error, flags) result" where
  "flag_Parse [] fl = Inr fl"
| "flag_Parse (s # args) fl =
     (case flag_arg s of
        FlagsEnd \<Rightarrow> Inr fl
      | FlagBad \<Rightarrow> Inl FlagSyntax
      | Flag n given \<Rightarrow>
          (case set_flag n of
             None \<Rightarrow> Inl (if n = ''help'' \<or> n = ''h'' then FlagHelp else FlagUndefined)
           | Some setter \<Rightarrow>
               (case given of
                  Some v \<Rightarrow> (case setter v fl of None \<Rightarrow> Inl FlagInvalidValue | Some fl' \<Rightarrow> flag_Parse args fl')
                | None \<Rightarrow>
                    (case args of
                       [] \<Rightarrow> Inl FlagNeedsArgument
                     | v # rest \<Rightarrow>
                         (case setter v fl of None \<Rightarrow> Inl FlagInvalidValue | Some fl' \<Rightarrow> flag_Parse rest fl')))))"

section \<open>The program\<close>

definition TrimSpace :: "gostring \<Rightarrow> gostring" where
  "TrimSpace s = concat (rev (dropWhile space_unit (rev (dropWhile space_unit (utf8_units s)))))"

definition data_dir :: "flags \<Rightarrow> gostring" where
  "data_dir fl = (if fl_data fl = [] then Clean (fl_dir fl) @ ''-nusync-data'' else fl_data fl)"

definition seed_peers :: "gostring \<Rightarrow> gostring list" where
  "seed_peers seeds = filter (\<lambda>s. s \<noteq> []) (map TrimSpace (SplitOn (CHR '','') seeds))"

text \<open>A run ends with an exit code (\<^verbatim>\<open>log.Fatal\<close> is 1, a refused command line is 2, a request
  for help is 0), or the node serves its API.\<close>

datatype 'db run_end = Exit nat | InitFailed daemon_error | Serving "'db Daemon" int bytes

definition nusyncd_main ::
  "'db bolt \<Rightarrow> (gostring, unit) result \<Rightarrow> fs \<Rightarrow> int \<Rightarrow> (gostring, unit) result \<Rightarrow>
   (gostring list \<Rightarrow> (gostring, unit) result) \<Rightarrow> gostring list \<Rightarrow> fs \<times> 'db run_end" where
  "nusyncd_main B watch f now create join args =
     (case flag_Parse args default_flags of
        Inl FlagHelp \<Rightarrow> (f, Exit 0)
      | Inl _ \<Rightarrow> (f, Exit 2)
      | Inr fl \<Rightarrow>
          if fl_name fl = [] \<or> fl_dir fl = [] \<or> fl_secret fl = [] then (f, Exit 1)
          else
            (case NewDaemon B watch f now (fl_name fl) (fl_dir fl) (data_dir fl) (fl_http fl) (fl_grpc fl)
                    (fl_gossip fl) (fl_secret fl) of
               (f', Inl e) \<Rightarrow> (f', InitFailed e)
             | (f', Inr d) \<Rightarrow>
                 (case daemon_Start create join (seed_peers (fl_seeds fl)) d of
                    None \<Rightarrow> (f', Exit 1)
                  | Some d' \<Rightarrow> (f', Serving d' (fl_api fl) (fl_secret fl)))))"

section \<open>Reading integers back\<close>

lemma digit36_digit: "digit_val c = Some d \<Longrightarrow> digit36 c = Some d"
  by (simp add: digit36_def)

lemma digit_val_lt: "digit_val c = Some d \<Longrightarrow> d < 10"
  by (auto simp: digit_val_def Let_def split: if_splits)

lemma digit_val_underscore [simp]: "digit_val (CHR ''_'') = None"
  by (simp add: digit_val_def)

lemma digits_base_10: "digits_acc acc s = Some n \<Longrightarrow> digits_base 10 acc s = Some n"
  by (induction acc s rule: digits_acc.induct)
    (auto split: option.splits dest: digit_val_lt simp: digit36_digit)

lemma FormatUint_leading:
  assumes "0 < n" and "FormatUint n = c # r"
  shows "c \<noteq> CHR ''0''"
  using assms
proof (induction n arbitrary: r rule: FormatUint.induct)
  case (1 n)
  show ?case
  proof (cases "n < 10")
    case True
    then have "c = digit_char n" using 1(3) by (simp add: FormatUint.simps [of n])
    then have "digit_val c = Some n" using True by simp
    moreover have "digit_val (CHR ''0'') = Some 0" by (simp add: digit_val_def)
    ultimately show ?thesis using 1(2) by auto
  next
    case False
    then obtain r' where "FormatUint (n div 10) = c # r'"
      using 1(3) by (cases "FormatUint (n div 10)") (auto simp: FormatUint.simps [of n])
    with 1(1) False show ?thesis by simp
  qed
qed

lemma ParseUint0_Format:
  assumes "n < 2 ^ 64"
  shows "ParseUint0 (FormatUint n) = Some n"
proof (cases "n = 0")
  case True
  then show ?thesis
    by (simp add: FormatUint.simps [of 0] digit_char_def ParseUint0_def base_prefix_def char_eval)
next
  case False
  obtain c r where cr: "FormatUint n = c # r" using FormatUint_nonempty by (cases "FormatUint n") auto
  with False have "base_prefix (FormatUint n) = (10, FormatUint n)"
    using FormatUint_leading [OF _ cr] by (simp add: base_prefix_def)
  moreover have "CHR ''_'' \<notin> set (FormatUint n)" using FormatUint_digits [of "CHR ''_''" n] by auto
  ultimately show ?thesis
    using assms digits_base_10 [OF digits_acc_Format [of n]] by (simp add: ParseUint0_def)
qed

lemma ParseInt0_Format:
  assumes "- (2 ^ 63) \<le> i" and "i < 2 ^ 63"
  shows "ParseInt0 (FormatInt i) = Some i"
proof (cases "i < 0")
  case True
  then have "ParseUint0 (FormatUint (nat (- i))) = Some (nat (- i))"
    using assms by (intro ParseUint0_Format) simp
  with True assms show ?thesis by (simp add: FormatInt_def ParseInt0_def)
next
  case False
  then have "ParseUint0 (FormatUint (nat i)) = Some (nat i)"
    using assms by (intro ParseUint0_Format) simp
  moreover obtain c r where "FormatUint (nat i) = c # r" "c \<noteq> CHR ''-''" "c \<noteq> CHR ''+''"
    by (rule FormatUint_hd)
  ultimately show ?thesis using False assms by (simp add: FormatInt_def ParseInt0_def)
qed

interpretation flagc: codec FormatInt ParseInt0 "\<lambda>i. - (2 ^ 63) \<le> i \<and> i < 2 ^ 63"
  by unfold_locales (simp add: ParseInt0_Format)

section \<open>Command lines\<close>

text \<open>A full command line for given flags, and a comma-separated list.\<close>

definition command_line :: "flags \<Rightarrow> gostring list" where
  "command_line fl =
     [''-name'', fl_name fl, ''-dir'', fl_dir fl, ''--data'', fl_data fl, ''-http='' @ FormatInt (fl_http fl),
      ''--grpc='' @ FormatInt (fl_grpc fl), ''-gossip'', FormatInt (fl_gossip fl), ''-api'', FormatInt (fl_api fl),
      ''-seeds='' @ fl_seeds fl, ''-secret'', fl_secret fl]"

definition comma_list :: "gostring list \<Rightarrow> gostring" where
  "comma_list ws = concat (map (\<lambda>w. w @ '','') (butlast ws)) @ last ws"

definition int64 :: "int \<Rightarrow> bool" where
  "int64 i \<longleftrightarrow> - (2 ^ 63) \<le> i \<and> i < 2 ^ 63"

lemma flag_args:
  "flag_arg ''-name'' = Flag ''name'' None" "flag_arg ''-dir'' = Flag ''dir'' None"
  "flag_arg ''--data'' = Flag ''data'' None" "flag_arg ''-gossip'' = Flag ''gossip'' None"
  "flag_arg ''-api'' = Flag ''api'' None" "flag_arg ''-secret'' = Flag ''secret'' None"
  "flag_arg (''-http='' @ v) = Flag ''http'' (Some v)" "flag_arg (''--grpc='' @ v) = Flag ''grpc'' (Some v)"
  "flag_arg (''-seeds='' @ v) = Flag ''seeds'' (Some v)"
  by (simp_all add: flag_arg_def cut_value_def)

lemma flag_Parse_command_line:
  assumes "int64 (fl_http fl)" "int64 (fl_grpc fl)" "int64 (fl_gossip fl)" "int64 (fl_api fl)"
  shows "flag_Parse (command_line fl) fl0 = Inr fl"
proof -
  have i: "ParseInt0 (FormatInt i) = Some i" if "int64 i" for i
    using that by (simp add: int64_def ParseInt0_Format)
  show ?thesis
    by (simp only: command_line_def flag_Parse.simps flag_args flag_arg.case option.case list.case set_flag_def
        char.inject list.inject list.distinct if_True if_False simp_thms i [OF assms(1)] i [OF assms(2)]
        i [OF assms(3)] i [OF assms(4)] option.map sum.case) simp
qed

lemma seed_peers_comma:
  assumes "\<forall>s \<in> set seeds. s \<noteq> [] \<and> CHR '','' \<notin> set s \<and> TrimSpace s = s"
  shows "seed_peers (if seeds = [] then [] else comma_list seeds) = seeds"
proof (cases "seeds = []")
  case True
  then show ?thesis by (simp add: seed_peers_def TrimSpace_def utf8_units.simps [of "[]"])
next
  case False
  then have "SplitOn (CHR '','') (comma_list seeds) = seeds"
    unfolding comma_list_def using assms by (intro SplitOn_join) auto
  moreover have "map TrimSpace seeds = seeds" using assms by (simp add: map_idI)
  moreover have "filter (\<lambda>s. s \<noteq> []) seeds = seeds" using assms by (simp add: filter_id_conv)
  ultimately show ?thesis using False by (simp add: seed_peers_def)
qed

section \<open>The default data directory\<close>

lemma SplitOn_extend:
  assumes "sep \<notin> set e"
  shows "SplitOn sep (s @ e) = butlast (SplitOn sep s) @ [last (SplitOn sep s) @ e]"
proof (induction s)
  case Nil
  then show ?case using assms by (simp add: SplitOn_no_sep)
next
  case (Cons c s)
  obtain w ws where "SplitOn sep s = w # ws" by (cases "SplitOn sep s") auto
  with Cons show ?case by (cases ws) auto
qed

lemma resolve_fold:
  "resolve f p = rev (foldl (clean_step True) (if rooted p then [] else rev (wd f)) (SplitOn slash p))"
  by (simp add: resolve_def clean_comps_def)

lemma Clean_nonempty [simp]: "Clean p \<noteq> []"
proof (cases "rooted p \<or> clean_comps p = []")
  case True
  then show ?thesis by (auto simp: Clean_def)
next
  case False
  have "[] \<notin> set (foldl (clean_step r) acc ws)" if "[] \<notin> set acc" for r acc and ws :: "gostring list"
    using that by (induction ws arbitrary: acc) (auto simp: clean_step_def dest: list.set_sel(2))
  then have "[] \<notin> set (clean_comps p)" by (simp add: clean_comps_def)
  with False show ?thesis by (cases "clean_comps p" rule: join_path.cases) (auto simp: Clean_def)
qed

text \<open>Appending to a path appends to its last component.\<close>

lemma resolve_extend:
  assumes "p \<noteq> []" and "slash \<notin> set e" and "3 \<le> length e"
  obtains up where "resolve f (p @ e) = up @ [last_elem p @ e]"
    and "resolve f p = rev (clean_step True (rev up) (last_elem p))"
proof -
  let ?a = "if rooted p then [] else rev (wd f)" and ?ws = "SplitOn slash p"
  let ?u = "foldl (clean_step True) ?a (butlast ?ws)"
  have r: "rooted (p @ e) = rooted p" using assms(1) by (cases p) (auto simp: rooted_def)
  have "slash \<notin> set (last ?ws)" by (rule SplitOn_pieces [of _ _ p]) simp
  then have step: "clean_step True ?u (last ?ws @ e) = (last ?ws @ e) # ?u"
    using assms(3) by (auto simp: clean_step_def append_eq_Cons_conv)
  have "resolve f (p @ e) = rev ?u @ [last_elem p @ e]"
    unfolding resolve_fold r SplitOn_extend [OF assms(2)] by (simp add: step last_elem_def)
  moreover have "resolve f p = rev (clean_step True (rev (rev ?u)) (last_elem p))"
    unfolding resolve_fold last_elem_def
    by (subst append_butlast_last_id [of ?ws, symmetric]) (simp_all del: append_butlast_last_id)
  ultimately show ?thesis using that by blast
qed

lemma clean_step_prefix: "c \<in> {[], ''.'', ''..''} \<Longrightarrow> prefix (rev (clean_step True (rev up) c)) up"
  by (cases up rule: rev_cases) (auto simp: clean_step_def)

section \<open>Properties\<close>

text \<open>C27. Every configuration of a node can be given on the command line: for all flag values, whatever
  bytes the strings hold and whatever 64-bit ports, the line that spells them out (in the four spellings that
  \<^verbatim>\<open>flag\<close> accepts) is parsed back to exactly these values, and a list of seed addresses written with
  commas is read back as that list.\<close>

theorem command_line_roundtrip:
  assumes "int64 (fl_http fl)" "int64 (fl_grpc fl)" "int64 (fl_gossip fl)" "int64 (fl_api fl)"
    and "\<forall>s \<in> set seeds. s \<noteq> [] \<and> CHR '','' \<notin> set s \<and> TrimSpace s = s"
    and "fl_seeds fl = (if seeds = [] then [] else comma_list seeds)"
  shows "flag_Parse (command_line fl) default_flags = Inr fl \<and> seed_peers (fl_seeds fl) = seeds"
  using flag_Parse_command_line [OF assms(1-4)] seed_peers_comma [OF assms(5)] assms(6) by simp

theorem command_line_roundtrip_witness:
  "seed_peers ''a:1,b:2'' = [''a:1'', ''b:2''] \<and>
   flag_Parse [''-name'', ''n'', ''-dir'', ''-x'', ''--data'', [], ''-http=-5'', ''--grpc=0'', ''-gossip'', ''7'', ''-api'', ''8'',
     ''-seeds=a:1,b:2'', ''-secret'', ''=k''] default_flags =
   Inr \<lparr>fl_name = ''n'', fl_dir = ''-x'', fl_data = [], fl_http = -5, fl_grpc = 0, fl_gossip = 7, fl_api = 8,
     fl_seeds = ''a:1,b:2'', fl_secret = ''=k''\<rparr>"
proof -
  let ?fl = "\<lparr>fl_name = ''n'', fl_dir = ''-x'', fl_data = [], fl_http = -5, fl_grpc = 0, fl_gossip = 7, fl_api = 8,
     fl_seeds = ''a:1,b:2'', fl_secret = ''=k''\<rparr>"
  have n: "FormatInt (-5) = ''-5''" "FormatInt 0 = ''0''" "FormatInt 7 = ''7''" "FormatInt 8 = ''8''" by code_simp+
  have t: "TrimSpace ''a:1'' = ''a:1''" "TrimSpace ''b:2'' = ''b:2''" by code_simp+
  from command_line_roundtrip [of ?fl "[''a:1'', ''b:2'']"] t show ?thesis
    by (simp add: int64_def comma_list_def command_line_def n)
qed

text \<open>C29. Without \<^verbatim>\<open>-data\<close> the data directory is derived from the sync directory.  If the last component of the
  cleaned directory is a proper name, it is the sibling with \<^verbatim>\<open>-nusync-data\<close> appended, it is not inside the
  sync directory, and the node is not refused for that reason.  For all other directories (\<^verbatim>\<open>.\<close>, \<^verbatim>\<open>/\<close>, and paths that
  clean to one ending in \<^verbatim>\<open>..\<close>) it lies inside, and the program ends with the error of \<open>NewDaemon\<close> that
  says so, having touched nothing.\<close>

theorem default_data_dir:
  assumes "normal_path (wd f)" and "flag_Parse args default_flags = Inr fl"
    and "fl_name fl \<noteq> []" and "fl_dir fl \<noteq> []" and "fl_secret fl \<noteq> []" and "fl_data fl = []"
  shows "if last_elem (Clean (fl_dir fl)) \<in> {[], ''.'', ''..''}
    then isSubPath f (fl_dir fl) (data_dir fl) \<and> nusyncd_main B watch f now create join args = (f, InitFailed DataInsideSync)
    else (\<exists>up w. resolve f (fl_dir fl) = up @ [w] \<and> resolve f (data_dir fl) = up @ [w @ ''-nusync-data'']) \<and>
      \<not> isSubPath f (fl_dir fl) (data_dir fl) \<and> snd (nusyncd_main B watch f now create join args) \<noteq> InitFailed DataInsideSync"
proof -
  let ?c = "last_elem (Clean (fl_dir fl))" and ?suf = "''-nusync-data''"
  obtain up where up: "resolve f (Clean (fl_dir fl) @ ?suf) = up @ [?c @ ?suf]"
      "resolve f (Clean (fl_dir fl)) = rev (clean_step True (rev up) ?c)"
    by (rule resolve_extend [of "Clean (fl_dir fl)" ?suf f]) simp_all
  have data: "resolve f (data_dir fl) = up @ [?c @ ?suf]" using up(1) assms(6) by (simp add: data_dir_def)
  have dir: "resolve f (fl_dir fl) = rev (clean_step True (rev up) ?c)" using up(2) by (simp add: resolve_Clean)
  show ?thesis
  proof (cases "?c \<in> {[], ''.'', ''..''}")
    case True
    then have "isSubPath f (fl_dir fl) (data_dir fl)"
      using clean_step_prefix [OF True, of up] by (simp add: isSubPath_prefix [OF assms(1)] data dir prefix_append)
    with True assms(2-5) show ?thesis by (simp add: nusyncd_main_def NewDaemon_def)
  next
    case False
    then have d: "resolve f (fl_dir fl) = up @ [?c]" by (simp add: dir clean_step_def)
    then have ns: "\<not> isSubPath f (fl_dir fl) (data_dir fl)" by (simp add: isSubPath_prefix [OF assms(1)] data)
    then have "snd (nusyncd_main B watch f now create join args) \<noteq> InitFailed DataInsideSync"
      using assms(2-5) by (auto simp: nusyncd_main_def NewDaemon_def Let_def split: prod.splits sum.splits option.splits)
    with False ns d data show ?thesis by auto
  qed
qed

theorem default_data_dir_witness:
  "nusyncd_main list_bolt (Inr ()) blank_fs 0 (Inr ()) (\<lambda>_. Inr ()) [''-name=n'', ''-dir=.'', ''-secret=k''] =
     (blank_fs, InitFailed DataInsideSync) \<and>
   snd (nusyncd_main list_bolt (Inr ()) blank_fs 0 (Inr ()) (\<lambda>_. Inr ()) [''-name=n'', ''-dir=/s/a'', ''-secret=k'']) \<noteq>
     InitFailed DataInsideSync"
proof -
  let ?a = "\<lambda>dir. [''-name=n'', ''-dir='' @ dir, ''-secret=k'']"
  let ?fl = "\<lambda>dir. default_flags\<lparr>fl_name := ''n'', fl_dir := dir, fl_secret := ''k''\<rparr>"
  have p: "flag_Parse (?a dir) default_flags = Inr (?fl dir)" for dir
    by (simp add: flag_arg_def cut_value_def set_flag_def)
  have f: "normal_path (wd blank_fs)" by (simp add: blank_fs_def normal_path_def)
  have l: "last_elem (Clean ''.'') = ''.''" "last_elem (Clean ''/s/a'') = ''a''" by code_simp+
  have e: "fl_data (?fl dir) = []" for dir by (simp add: default_flags_def)
  from default_data_dir [OF f p [of "''.''"] _ _ _ e, of list_bolt "Inr ()" 0 "Inr ()" "\<lambda>_. Inr ()"]
    default_data_dir [OF f p [of "''/s/a''"] _ _ _ e, of list_bolt "Inr ()" 0 "Inr ()" "\<lambda>_. Inr ()"]
  show ?thesis by (simp add: l)
qed

end
