(* ===== verification/PutRace.thy ===== *)
theory PutRace
  imports Cas
begin

text \<open>
  \<open>Put\<close> of \<^verbatim>\<open>internal/store/cas.go\<close> when several goroutines store the same chunk at once.  Nothing in the code
  serialises them, and all use one temporary name.  Here a \<open>Put\<close> is a sequence of system calls and a file is an inode,
  so that an open file keeps its identity when its name is moved or taken by another: \<^verbatim>\<open>os.WriteFile\<close> opens the
  name, truncating what it finds, and then writes.  A schedule picks the call that moves next.
\<close>

section \<open>The two names of a chunk\<close>

text \<open>The temporary name and the object name of one hash, with the inodes they stand for; no name stands for \<open>sl_next\<close>
  or anything above.\<close>

record slot =
  sl_tmp :: "nat option"
  sl_obj :: "nat option"
  sl_data :: "nat \<Rightarrow> bytes"
  sl_next :: nat

definition open_tmp :: "slot \<Rightarrow> slot \<times> nat" where
  "open_tmp sl =
     (case sl_tmp sl of
        Some k \<Rightarrow> (sl\<lparr>sl_data := (sl_data sl)(k := [])\<rparr>, k)
      | None \<Rightarrow> (sl\<lparr>sl_tmp := Some (sl_next sl), sl_data := (sl_data sl)(sl_next sl := []), sl_next := sl_next sl + 1\<rparr>, sl_next sl))"

definition write_open :: "slot \<Rightarrow> nat \<Rightarrow> bytes \<Rightarrow> slot" where
  "write_open sl k d = sl\<lparr>sl_data := (sl_data sl)(k := write_at (sl_data sl k) 0 d)\<rparr>"

definition rename_tmp :: "slot \<Rightarrow> (slot \<times> bool)" where
  "rename_tmp sl = (case sl_tmp sl of None \<Rightarrow> (sl, False) | Some k \<Rightarrow> (sl\<lparr>sl_tmp := None, sl_obj := Some k\<rparr>, True))"

definition remove_tmp :: "slot \<Rightarrow> slot" where
  "remove_tmp sl = sl\<lparr>sl_tmp := None\<rparr>"

lemmas slot_ops = open_tmp_def write_open_def rename_tmp_def remove_tmp_def

text \<open>What a reader of the object finds.\<close>

definition slot_content :: "slot \<Rightarrow> bytes option" where
  "slot_content sl = map_option (sl_data sl) (sl_obj sl)"

section \<open>The calls of \<open>Put\<close>\<close>

text \<open>Before \<^verbatim>\<open>Stat\<close>, before opening the temporary file, before writing it, before the check of the hash, before
  \<^verbatim>\<open>Rename\<close>, before the deferred \<^verbatim>\<open>Remove\<close>, and returned; the last two with whether \<open>Put\<close> succeeds.\<close>

datatype put_pc = AtStat | AtOpen | AtWrite nat | AtCheck | AtRename | AtRemove bool | PutDone bool

definition put_step :: "hash32 \<Rightarrow> bytes \<Rightarrow> slot \<Rightarrow> put_pc \<Rightarrow> slot \<times> put_pc" where
  "put_step hash data sl pc =
     (case pc of
        AtStat \<Rightarrow> (sl, if sl_obj sl \<noteq> None then PutDone True else AtOpen)
      | AtOpen \<Rightarrow> (case open_tmp sl of (sl1, k) \<Rightarrow> (sl1, AtWrite k))
      | AtWrite k \<Rightarrow> (write_open sl k data, AtCheck)
      | AtCheck \<Rightarrow> (sl, if sha256 data \<noteq> hash then AtRemove False else AtRename)
      | AtRename \<Rightarrow> (case rename_tmp sl of (sl1, ok) \<Rightarrow> (sl1, AtRemove ok))
      | AtRemove ok \<Rightarrow> (remove_tmp sl, PutDone ok)
      | PutDone ok \<Rightarrow> (sl, PutDone ok))"

fun put_race :: "hash32 \<Rightarrow> nat list \<Rightarrow> slot \<Rightarrow> (bytes \<times> put_pc) list \<Rightarrow> slot \<times> (bytes \<times> put_pc) list" where
  "put_race hash [] sl ps = (sl, ps)"
| "put_race hash (i # evs) sl ps =
     (if i < length ps then
        (case put_step hash (fst (ps ! i)) sl (snd (ps ! i)) of
           (sl1, pc) \<Rightarrow> put_race hash evs sl1 (ps[i := (fst (ps ! i), pc)]))
      else put_race hash evs sl ps)"

lemma put_race_append:
  "put_race h (evs @ evs') sl ps = (case put_race h evs sl ps of (sl1, ps1) \<Rightarrow> put_race h evs' sl1 ps1)"
  by (induction h evs sl ps rule: put_race.induct) (auto split: prod.split)

section \<open>Six moves are enough\<close>

fun put_rank :: "put_pc \<Rightarrow> nat" where
  "put_rank AtStat = 6" | "put_rank AtOpen = 5" | "put_rank (AtWrite k) = 4" | "put_rank AtCheck = 3"
| "put_rank AtRename = 2" | "put_rank (AtRemove ok) = 1" | "put_rank (PutDone ok) = 0"

lemma put_rank_step: "put_rank (snd (put_step h d sl pc)) \<le> put_rank pc - 1"
  by (cases pc) (simp_all add: put_step_def split: prod.split)

lemma put_rank_max: "put_rank pc \<le> 6"
  by (cases pc) simp_all

lemma put_rank_done: "put_rank pc = 0 \<Longrightarrow> \<exists>ok. pc = PutDone ok"
  by (cases pc) simp_all

lemma put_race_rank:
  assumes "put_race h evs sl ps = (sl', ps')"
  shows "length ps' = length ps \<and> map fst ps' = map fst ps \<and>
    (\<forall>j < length ps. put_rank (snd (ps' ! j)) \<le> put_rank (snd (ps ! j)) - count_list evs j)"
  using assms
proof (induction h evs sl ps rule: put_race.induct)
  case (2 h i evs sl ps)
  show ?case
  proof (cases "i < length ps")
    case True
    obtain sl1 pc where s: "put_step h (fst (ps ! i)) sl (snd (ps ! i)) = (sl1, pc)" by (rule prod.exhaust)
    let ?ps = "ps[i := (fst (ps ! i), pc)]"
    have "put_rank pc \<le> put_rank (snd (ps ! i)) - 1" using put_rank_step [of h "fst (ps ! i)" sl "snd (ps ! i)"] s by simp
    moreover have "map fst ?ps = map fst ps" using True by (simp add: map_update list_update_same_conv)
    moreover have IH: "length ps' = length ?ps \<and> map fst ps' = map fst ?ps \<and>
        (\<forall>j < length ?ps. put_rank (snd (ps' ! j)) \<le> put_rank (snd (?ps ! j)) - count_list evs j)"
      using 2(1) [OF True s [symmetric]] 2(3) True s by simp
    ultimately show ?thesis using True by (fastforce simp: nth_list_update)
  next
    case False
    with 2 show ?thesis by auto
  qed
qed simp

lemma put_race_finishes:
  assumes "put_race h evs sl ps = (sl', ps')" and "j < length ps" and "6 \<le> count_list evs j"
  shows "\<exists>ok. snd (ps' ! j) = PutDone ok"
  using put_race_rank [OF assms(1)] assms(2,3) put_rank_max [of "snd (ps ! j)"]
  by (intro put_rank_done) (metis diff_is_0_eq le_trans le_zero_eq)

section \<open>Puts of the right data\<close>

definition at_write :: "nat \<Rightarrow> (bytes \<times> put_pc) list \<Rightarrow> bool" where
  "at_write k ps \<longleftrightarrow> (\<exists>j < length ps. snd (ps ! j) = AtWrite k)"

fun past_open :: "put_pc \<Rightarrow> bool" where
  "past_open (AtWrite k) = True" | "past_open AtCheck = True" | "past_open AtRename = True" | "past_open _ = False"

fun put_won :: "put_pc \<Rightarrow> bool" where
  "put_won (AtRemove ok) = ok" | "put_won (PutDone ok) = ok" | "put_won _ = False"

fun put_over :: "put_pc \<Rightarrow> bool" where
  "put_over (AtRemove ok) = True" | "put_over (PutDone ok) = True" | "put_over _ = False"

text \<open>A file that matters (the object, or the temporary file while somebody relies on it) is complete, or empty with
  somebody about to write it.\<close>

definition sound_at :: "bytes \<Rightarrow> slot \<Rightarrow> (bytes \<times> put_pc) list \<Rightarrow> nat \<Rightarrow> bool" where
  "sound_at D sl ps k \<longleftrightarrow> sl_data sl k = D \<or> sl_data sl k = [] \<and> at_write k ps"

definition used_tmp :: "slot \<Rightarrow> (bytes \<times> put_pc) list \<Rightarrow> nat \<Rightarrow> bool" where
  "used_tmp sl ps k \<longleftrightarrow> sl_tmp sl = Some k \<and> (\<exists>j < length ps. past_open (snd (ps ! j)))"

definition race_inv :: "bytes \<Rightarrow> slot \<Rightarrow> (bytes \<times> put_pc) list \<Rightarrow> bool" where
  "race_inv D sl ps \<longleftrightarrow>
     (\<forall>k. sl_obj sl = Some k \<or> used_tmp sl ps k \<longrightarrow> sound_at D sl ps k) \<and>
     (sl_obj sl = None \<longrightarrow> (\<forall>j < length ps. \<not> put_over (snd (ps ! j)) \<and> (past_open (snd (ps ! j)) \<longrightarrow> sl_tmp sl \<noteq> None))) \<and>
     (sl_obj sl \<noteq> None \<longrightarrow> (\<exists>j < length ps. put_won (snd (ps ! j)))) \<and>
     (\<forall>k. sl_obj sl = Some k \<or> sl_tmp sl = Some k \<longrightarrow> k < sl_next sl)"

lemma write_at_same: "x = [] \<or> x = D \<Longrightarrow> write_at x 0 D = D"
  by (auto simp: write_at_def resize_def)

lemma at_write_update:
  "i < length ps \<Longrightarrow> at_write k (ps[i := (d, pc)]) \<longleftrightarrow> pc = AtWrite k \<or> (\<exists>j < length ps. j \<noteq> i \<and> snd (ps ! j) = AtWrite k)"
  by (auto simp: at_write_def nth_list_update)

lemma used_tmp_update:
  "i < length ps \<Longrightarrow> used_tmp sl (ps[i := (d, pc)]) k \<longleftrightarrow>
     sl_tmp sl = Some k \<and> (past_open pc \<or> (\<exists>j < length ps. j \<noteq> i \<and> past_open (snd (ps ! j))))"
  by (auto simp: used_tmp_def nth_list_update)

text \<open>The clauses of the invariant after a move, one at a time.\<close>

lemma race_sound_step:
  assumes "race_inv D sl ps" and "i < length ps" and "put_step h D sl (snd (ps ! i)) = (sl1, pc)" and "sha256 D = h"
    and "sl_obj sl1 = Some k \<or> used_tmp sl1 (ps[i := (D, pc)]) k"
  shows "sound_at D sl1 (ps[i := (D, pc)]) k"
proof -
  have old: "sl_obj sl = Some k \<or> used_tmp sl ps k \<Longrightarrow> sound_at D sl ps k" and low: "sl_obj sl = Some k \<or> sl_tmp sl = Some k \<Longrightarrow> k < sl_next sl"
    using assms(1) by (auto simp: race_inv_def)
  have used: "used_tmp sl ps k" if "sl_tmp sl = Some k" "past_open (snd (ps ! i))" using that assms(2) by (auto simp: used_tmp_def)
  have mine: "at_write k ps \<longleftrightarrow> snd (ps ! i) = AtWrite k \<or> (\<exists>j < length ps. j \<noteq> i \<and> snd (ps ! j) = AtWrite k)"
    using assms(2) by (auto simp: at_write_def)
  have usedo: "used_tmp sl ps k" if "sl_tmp sl = Some k" "\<exists>j < length ps. j \<noteq> i \<and> past_open (snd (ps ! j))"
    using that by (auto simp: used_tmp_def)
  show ?thesis
  proof (cases "snd (ps ! i)")
    case AtOpen
    with assms(2,3,5) old low usedo show ?thesis
      by (auto simp: put_step_def slot_ops sound_at_def at_write_update used_tmp_update mine split: option.splits if_splits)
  next
    case (AtWrite k')
    with assms(2,3,5) old used show ?thesis
      by (auto simp: put_step_def slot_ops sound_at_def at_write_update used_tmp_update mine write_at_same split: if_splits)
  next
    case AtRename
    with assms(2,3,5) old used usedo show ?thesis
      by (auto simp: put_step_def slot_ops sound_at_def at_write_update used_tmp_update mine split: option.splits)
  qed (use assms(2-5) old used usedo in \<open>auto simp: put_step_def slot_ops sound_at_def at_write_update used_tmp_update mine split: if_splits\<close>)
qed

lemma race_inv_step:
  assumes "race_inv D sl ps" and "i < length ps" and "put_step h D sl (snd (ps ! i)) = (sl1, pc)" and "sha256 D = h"
  shows "race_inv D sl1 (ps[i := (D, pc)])"
proof -
  have 1: "sl_obj sl = None \<longrightarrow> (\<forall>j < length ps. \<not> put_over (snd (ps ! j)) \<and> (past_open (snd (ps ! j)) \<longrightarrow> sl_tmp sl \<noteq> None))"
    and 2: "sl_obj sl \<noteq> None \<longrightarrow> (\<exists>j < length ps. put_won (snd (ps ! j)))"
    and 3: "\<forall>k. sl_obj sl = Some k \<or> sl_tmp sl = Some k \<longrightarrow> k < sl_next sl"
    using assms(1) by (simp_all add: race_inv_def)
  have "sl_obj sl1 = None \<longrightarrow> (\<forall>j < length ps. \<not> put_over (snd (ps[i := (D, pc)] ! j)) \<and> (past_open (snd (ps[i := (D, pc)] ! j)) \<longrightarrow> sl_tmp sl1 \<noteq> None))"
    using 1 assms(2-4) by (cases "snd (ps ! i)") (auto simp: put_step_def slot_ops nth_list_update split: option.splits if_splits)
  moreover have "sl_obj sl1 \<noteq> None \<longrightarrow> (\<exists>j < length ps. put_won (snd (ps[i := (D, pc)] ! j)))"
  proof
    assume "sl_obj sl1 \<noteq> None"
    then have "put_won pc \<or> sl_obj sl \<noteq> None" and "put_won (snd (ps ! i)) \<longrightarrow> put_won pc"
      using assms(3) by (cases "snd (ps ! i)"; auto simp: put_step_def slot_ops split: option.splits if_splits)+
    then obtain j where "j < length ps" "if j = i then put_won pc else put_won (snd (ps ! j))" using 2 assms(2) by metis
    then show "\<exists>j < length ps. put_won (snd (ps[i := (D, pc)] ! j))" by (intro exI [of _ j]) (simp split: if_splits)
  qed
  moreover have "\<forall>k. sl_obj sl1 = Some k \<or> sl_tmp sl1 = Some k \<longrightarrow> k < sl_next sl1"
    using 3 assms(3) by (cases "snd (ps ! i)") (auto simp: put_step_def slot_ops split: option.splits if_splits)
  ultimately show ?thesis using race_sound_step [OF assms] by (simp add: race_inv_def)
qed

lemma put_race_inv:
  assumes "put_race h evs sl ps = (sl', ps')" and "race_inv D sl ps" and "\<forall>p \<in> set ps. fst p = D" and "sha256 D = h"
  shows "race_inv D sl' ps'"
  using assms
proof (induction h evs sl ps rule: put_race.induct)
  case (2 h i evs sl ps)
  show ?case
  proof (cases "i < length ps")
    case True
    then have d: "fst (ps ! i) = D" using 2(5) by simp
    obtain sl1 pc where s: "put_step h (fst (ps ! i)) sl (snd (ps ! i)) = (sl1, pc)" by (rule prod.exhaust)
    have "race_inv D sl1 (ps[i := (D, pc)])" using s d by (intro race_inv_step [OF 2(4) True _ 2(6)]) simp
    moreover have "\<forall>p \<in> set (ps[i := (D, pc)]). fst p = D" using 2(5) set_update_subset_insert [of ps i "(D, pc)"] by auto
    ultimately show ?thesis using 2(1) [OF True s [symmetric]] 2(3,6) True s d by simp
  next
    case False
    with 2 show ?thesis by simp
  qed
qed simp

section \<open>One \<open>Put\<close> alone\<close>

definition slot_view :: "CASBlobStore \<Rightarrow> fs \<Rightarrow> hash32 \<Rightarrow> slot \<Rightarrow> bool" where
  "slot_view s f h sl \<longleftrightarrow>
     ents f (tmp_path s f h) = map_option (\<lambda>k. FFile (sl_data sl k)) (sl_tmp sl) \<and>
     ents f (obj_path s f h) = map_option (\<lambda>k. FFile (sl_data sl k)) (sl_obj sl) \<and>
     (\<forall>k. sl_obj sl = Some k \<or> sl_tmp sl = Some k \<longrightarrow> k < sl_next sl)"

lemma Put_fresh:
  assumes "no_faults f" and "cas_dirs s f" and "ents f (obj_path s f h) = None" and "ents f (tmp_path s f h) \<noteq> Some FDir"
  shows "Put s f h d = (if sha256 d = h then (fs_set (fs_set f (tmp_path s f h) None) (obj_path s f h) (Some (FFile d)), Inr ())
    else (fs_set f (tmp_path s f h) None, Inl (HashMismatch h (sha256 d))))"
proof -
  have st: "os_Stat f (obj_str s h) = Inl ENOENT" using assms(1,3) by (simp add: os_Stat_def Let_def)
  have w: "os_WriteFile f (tmp_str s h) d = (fs_set f (tmp_path s f h) (Some (FFile d)), Inr ())"
    using assms by (simp add: os_WriteFile_def create_at_def cas_dirs_def no_faults_def fs_set_def)
  have rm: "fst (os_Remove (fs_set f (tmp_path s f h) (Some (FFile d))) (tmp_str s h)) = fs_set f (tmp_path s f h) None"
    using assms(1) by (simp add: os_Remove_def Let_def)
  have rn: "os_Rename (fs_set f (tmp_path s f h) (Some (FFile d))) (tmp_str s h) (obj_str s h) =
      (fs_set (fs_set f (tmp_path s f h) None) (obj_path s f h) (Some (FFile d)), Inr ())"
    using assms by (simp add: os_Rename_def Let_def cas_dirs_def)
  have rm': "fst (os_Remove (fs_set (fs_set f (tmp_path s f h) None) (obj_path s f h) (Some (FFile d))) (tmp_str s h)) =
      fs_set (fs_set f (tmp_path s f h) None) (obj_path s f h) (Some (FFile d))"
    using assms(1) by (simp add: os_Remove_def Let_def)
  show ?thesis using st w rm rn rm' by (simp add: Put_def Let_def)
qed

lemma six_moves: "replicate 6 x = [x, x, x, x, x, x]"
  by (simp add: numeral_eq_Suc)

lemma put_alone:
  assumes "no_faults f" and "cas_dirs s f" and "slot_view s f h sl"
  shows "\<exists>sl'. put_race h (replicate 6 0) sl [(d, AtStat)] = (sl', [(d, PutDone (snd (Put s f h d) = Inr ()))]) \<and>
    slot_view s (fst (Put s f h d)) h sl'"
proof (cases "sl_obj sl")
  case None
  with assms have "ents f (obj_path s f h) = None" "ents f (tmp_path s f h) \<noteq> Some FDir" by (auto simp: slot_view_def)
  note put = Put_fresh [OF assms(1,2) this]
  show ?thesis using None assms(3) unfolding put six_moves
    by (cases "sl_tmp sl") (auto simp: put_step_def slot_ops slot_view_def write_at_def resize_def)
next
  case (Some k)
  then have "ents f (obj_path s f h) = Some (FFile (sl_data sl k))" using assms(3) by (simp add: slot_view_def)
  then have "Put s f h d = (f, Inr ())" using assms(1) by (simp add: Put_def os_Stat_def Let_def)
  with Some assms(3) show ?thesis unfolding six_moves by (simp add: put_step_def)
qed

section \<open>Properties\<close>


definition blank_slot :: slot where
  "blank_slot = \<lparr>sl_tmp = None, sl_obj = None, sl_data = (\<lambda>_. []), sl_next = 0\<rparr>"


lemma put_race_present:
  assumes "sl_obj sl \<noteq> None"
  shows "fst (put_race h evs sl [(d, AtStat)]) = sl"
proof -
  have d: "fst (put_race h evs sl [(d, PutDone True)]) = sl" for evs
    by (induction evs) (auto simp: put_step_def)
  show ?thesis using assms d by (induction evs) (auto simp: put_step_def)
qed

text \<open>C32. What the shared temporary name breaks, starting without the chunk.  With two \<open>Put\<close>s of the right data \<open>D\<close>,
  the first can have returned successfully while the object is empty.  With a \<open>Put\<close> of any other data \<open>X\<close> under the hash of
  \<open>D\<close>, which fails as it should, the \<open>Put\<close> of \<open>D\<close> can succeed after renaming \<open>X\<close> into place; and no later
  \<open>Put\<close> of \<open>D\<close> repairs it.\<close>

theorem put_race_corrupts:
  "\<exists>sl1 sl2.
    put_race (sha256 D) [0, 0, 0, 1, 1, 0, 0, 0] blank_slot [(D, AtStat), (D, AtStat)] = (sl1, [(D, PutDone True), (D, AtWrite 0)]) \<and>
    slot_content sl1 = Some [] \<and>
    put_race (sha256 D) [0, 0, 0, 1, 1, 1, 0, 0, 0, 1, 1, 1] blank_slot [(D, AtStat), (X, AtStat)] =
      (sl2, [(D, PutDone True), (X, PutDone False)]) \<and>
    slot_content sl2 = Some X \<and> (\<forall>evs. slot_content (fst (put_race (sha256 D) evs sl2 [(D, AtStat)])) = Some X)"
proof -
  obtain sl1 ps1 where 1: "put_race (sha256 D) [0, 0, 0, 1, 1, 0, 0, 0] blank_slot [(D, AtStat), (D, AtStat)] = (sl1, ps1)"
    by (rule prod.exhaust)
  obtain sl2 ps2 where 2: "put_race (sha256 D) [0, 0, 0, 1, 1, 1, 0, 0, 0, 1, 1, 1] blank_slot [(D, AtStat), (X, AtStat)] = (sl2, ps2)"
    by (rule prod.exhaust)
  have r1: "ps1 = [(D, PutDone True), (D, AtWrite 0)]" "slot_content sl1 = Some []"
    using 1 by (auto simp: put_step_def slot_ops slot_content_def blank_slot_def)
  have r2: "ps2 = [(D, PutDone True), (X, PutDone False)]" "slot_content sl2 = Some X" "sl_obj sl2 \<noteq> None"
    using 2 by (auto simp: put_step_def slot_ops slot_content_def blank_slot_def write_at_def resize_def split: if_splits)
  show ?thesis using 1 2 r1 r2 put_race_present [OF r2(3)] by auto
qed

end
