(* ===== verification/Node.thy ===== *)
theory Node
  imports Daemon
begin

text \<open>
  What the handlers of a node do, on top of \<open>Daemon\<close>: a local change is indexed and announced; a newer
  entry in a peer's catalog starts a pull; and four places where the code falls short of its comments
  or of the README: ties between concurrent writes, errors of the store that are dropped, changes that
  the Merkle root does not show, and identifiers that lead out of the sync directory.
\<close>

section \<open>Local changes\<close>

text \<open>C9. A file that is reported as changed, is not quiet and is not a database file: the handler returns.
  If the index has the Merkle root of the content already, nothing happens.  Otherwise the index then
  holds metadata with the chunk hashes of the content in order, its length, its root and the next
  timestamp; every chunk can be read from the store; and the change is announced under the name of
  the node.\<close>

theorem file_change_indexed:
  assumes "fastcdc_spec C" and "bolt_spec B live bucket" and "daemon_inv B live d"
    and "readable (dm_fs d) path content" and "Ext path \<noteq> ''.db''" and "\<not> is_quiet_at (dm_quiet d) (now, path)"
    and "storable_id (file_id d path)"
  shows "\<exists>d' ds. HandleFileChange C B now path d = Some d' \<and> concat ds = content \<and>
    (if \<exists>m. GetFileMeta B (dm_db d) (file_id d path) = Inr m \<and> fm_MerkleRoot m = merkle_root (map sha256 ds)
     then dm_db d' = dm_db d \<and> dm_fs d' = dm_fs d \<and> dm_clock d' = dm_clock d \<and> dm_Gossip d' = dm_Gossip d
     else GetFileMeta B (dm_db d') (file_id d path) = Inr \<lparr>fm_FileID = file_id d path,
        fm_MerkleRoot = merkle_root (map sha256 ds), fm_LamportTS = dm_clock d + 1,
        fm_ChunkHashes = map sha256 ds, fm_SizeBytes = word_of_nat (length content)\<rparr> \<and>
      (\<forall>x \<in> set ds. \<exists>y. Get (dm_CAS d') (dm_fs d') (sha256 x) = Inr y \<and> sha256 y = sha256 x) \<and>
      dm_clock d' = dm_clock d + 1 \<and>
      dm_Gossip d' = Broadcast (dm_Gossip d) \<lparr>an_FileID = file_id d path, an_MerkleRoot = merkle_root (map sha256 ds),
        an_LamportTS = dm_clock d + 1, an_SourceNode = dm_Name d\<rparr>)"
proof (rule HandleFileChange_result [OF assms(1,4,5,6), where B = B])
  fix cs
  let ?d = "d\<lparr>dm_quiet := fst (IsQuiet (dm_quiet d) now path)\<rparr>"
  let ?d' = "index_file B (file_id d path) cs ?d" and ?ds = "map ch_Data cs"
  assume cs: "concat ?ds = content" "chunks_wf cs" "HandleFileChange C B now path d =
    Some (let d1 = ?d in if unchanged B d (file_id d path) cs then d1 else index_file B (file_id d path) cs d1)"
  have h: "hashed cs" and hs: "map ch_Hash cs = map sha256 ?ds"
    using cs(2) chunks_wf_hash by (auto simp: hashed_def)
  have mr: "ComputeRoot cs = merkle_root (map sha256 ?ds)" by (simp only: ComputeRoot_def hs)
  show ?thesis
  proof (cases "unchanged B d (file_id d path) cs")
    case True
    then have same: "\<exists>m. GetFileMeta B (dm_db d) (file_id d path) = Inr m \<and> fm_MerkleRoot m = merkle_root (map sha256 ?ds)"
      by (simp only: unchanged_def mr)
    from True cs(3) have hc: "HandleFileChange C B now path d = Some ?d" by simp
    show ?thesis by (intro exI [of _ ?d] exI [of _ ?ds]) (simp only: hc cs(1) same if_True simp_thms, simp)
  next
    case False
    then have new: "\<nexists>m. GetFileMeta B (dm_db d) (file_id d path) = Inr m \<and> fm_MerkleRoot m = merkle_root (map sha256 ?ds)"
      unfolding unchanged_def mr .
    from False cs(3) have hc: "HandleFileChange C B now path d = Some ?d'" by simp
    have ok: "store_ok (dm_CAS ?d) (dm_fs ?d)" "live (dm_db ?d)" using assms(3) by (simp_all add: daemon_inv_def)
    note res = index_file_result [OF assms(2) ok assms(7) h refl]
    have get: "\<exists>y. Get (dm_CAS ?d') (dm_fs ?d') (sha256 x) = Inr y \<and> sha256 y = sha256 x" if x: "x \<in> set ?ds" for x
    proof -
      obtain ch where "ch \<in> set cs" "x = ch_Data ch" using x by auto
      with res(2) [of ch] h show ?thesis by (simp add: hashed_def)
    qed
    have sz: "total_size cs = word_of_nat (length content)" using cs(1) by (simp add: total_size_length)
    have sel: "dm_clock ?d = dm_clock d" "dm_Name ?d = dm_Name d" "dm_Gossip ?d = dm_Gossip d" by simp_all
    show ?thesis
      by (intro exI [of _ ?d'] exI [of _ ?ds] conjI hc cs(1), subst if_not_P [OF new],
          intro conjI ballI get res(1) [unfolded mr sz hs sel]
            index_file_fields(2,5) [of B "file_id d path" cs ?d, unfolded mr sel])
  qed
qed

theorem file_change_indexed_witness:
  "\<exists>d d'. HandleFileChange fixed_cdc list_bolt 0 ''/s/a'' d = Some d' \<and> dm_clock d' = dm_clock d + 1 \<and>
     (\<exists>m. GetFileMeta list_bolt (dm_db d') ''a'' = Inr m \<and> fm_SizeBytes m = 1)"
proof (rule demo_started)
  fix f0 d0 and d1 :: "(bytes \<times> bytes) list Daemon"
  assume d1: "daemon_inv list_bolt kv_sorted d1" "dm_BaseDir d1 = ''/s''" "baseDir (dm_CAS d1) = ''/d''"
      "\<And>now path. \<not> is_quiet_at (dm_quiet d1) (now, path)" "dm_db d1 = []"
  note edit = demo_user_edit(1,2) [OF d1(1-3), where x = "''x''"] demo_user_edit(3) [OF d1(1-3)]
  let ?d = "d1\<lparr>dm_fs := fs_set (dm_fs d1) [''s'', ''a''] (Some (FFile ''x''))\<rparr>"
  have "dstep fixed_cdc list_bolt d1 ?d" using edit(1) by (rule user)
  then have inv: "daemon_inv list_bolt kv_sorted ?d" using list_bolt_spec d1(1) by (rule dstep_inv)
  have fid: "file_id ?d ''/s/a'' = ''a''" using edit(3) by (simp add: file_id_def)
  have rd: "readable (dm_fs ?d) ''/s/a'' ''x''" using edit(2) by simp
  have ext: "Ext ''/s/a'' \<noteq> ''.db''" by code_simp
  have nq: "\<not> is_quiet_at (dm_quiet ?d) (0, ''/s/a'')" using d1(4) by simp
  have sid: "storable_id (file_id ?d ''/s/a'')" unfolding fid by (simp add: storable_id_def)
  have new: "GetFileMeta list_bolt (dm_db ?d) (file_id ?d ''/s/a'') \<noteq> Inr m" for m
    using d1(5) by (simp add: GetFileMeta_def list_bolt_def)
  from file_change_indexed [OF fixed_cdc_spec list_bolt_spec inv rd ext nq sid] obtain d' where
    hc: "HandleFileChange fixed_cdc list_bolt 0 ''/s/a'' ?d = Some d'" and
    "dm_clock d' = dm_clock ?d + 1 \<and> (\<exists>m. GetFileMeta list_bolt (dm_db d') (file_id ?d ''/s/a'') = Inr m \<and> fm_SizeBytes m = 1)"
    using new by fastforce
  then show ?thesis unfolding fid by blast
qed

section \<open>Anti-entropy\<close>

text \<open>An entry of a peer's catalog that this node lacks or that beats its own version.\<close>

definition wanted :: "'db bolt \<Rightarrow> 'db Daemon \<Rightarrow> PeerInfo \<Rightarrow> CatalogEntry \<Rightarrow> bool" where
  "wanted B d peer entry \<longleftrightarrow> Ext (ce_FileID entry) \<noteq> ''.db'' \<and>
     (case GetFileMeta B (dm_db d) (ce_FileID entry) of
        Inr loc \<Rightarrow> fm_MerkleRoot loc \<noteq> ce_MerkleRoot entry \<and>
          remoteWins (fm_LamportTS loc) (dm_Name d) (ce_LamportTS entry) (pi_Name peer)
      | Inl e \<Rightarrow> True)"

text \<open>What comparing catalogs does to a node: the clock moves up, and pulls from the known peers are started.\<close>

definition moved_on :: "member list \<Rightarrow> 'db Daemon \<Rightarrow> 'db Daemon \<Rightarrow> bool" where
  "moved_on members d d' \<longleftrightarrow> (\<exists>c new. dm_clock d \<le> c \<and> (\<forall>x \<in> set new. GetActivePeers (dm_Gossip d) members = Some (snd x)) \<and>
     d' = d\<lparr>dm_clock := c, dm_syncing := dm_syncing d \<union> fst ` set new, dm_pulls := dm_pulls d @ new\<rparr>)"

lemma moved_on_refl: "moved_on members d d"
  by (auto simp: moved_on_def intro!: exI [of _ "dm_clock d"] exI [of _ "[]"])

lemma moved_on_trans:
  assumes "moved_on members a b" and "moved_on members b c"
  shows "moved_on members a c"
proof -
  obtain t new t' new' where b: "b = a\<lparr>dm_clock := t, dm_syncing := dm_syncing a \<union> fst ` set new, dm_pulls := dm_pulls a @ new\<rparr>"
      "dm_clock a \<le> t" "\<forall>x \<in> set new. GetActivePeers (dm_Gossip a) members = Some (snd x)"
    and c: "c = b\<lparr>dm_clock := t', dm_syncing := dm_syncing b \<union> fst ` set new', dm_pulls := dm_pulls b @ new'\<rparr>" "dm_clock b \<le> t'"
      "\<forall>x \<in> set new'. GetActivePeers (dm_Gossip b) members = Some (snd x)"
    using assms unfolding moved_on_def by blast
  then show ?thesis
    unfolding moved_on_def by (intro exI [of _ t'] exI [of _ "new @ new'"]) (auto simp: image_Un Un_assoc)
qed

lemma moved_on_sel:
  assumes "moved_on members d d'"
  shows "dm_db d' = dm_db d" "dm_Name d' = dm_Name d" "dm_Gossip d' = dm_Gossip d" "dm_syncing d \<subseteq> dm_syncing d'" "dm_clock d \<le> dm_clock d'"
  using assms by (auto simp: moved_on_def)

lemma moved_on_pull:
  assumes "moved_on members d d'" and "i \<in> dm_syncing d'" and "i \<notin> dm_syncing d" and "GetActivePeers (dm_Gossip d) members = Some ps"
  obtains k where "k < length (dm_pulls d')" and "dm_pulls d' ! k = (i, ps)"
proof -
  obtain c new where new: "\<forall>x \<in> set new. GetActivePeers (dm_Gossip d) members = Some (snd x)"
    "d' = d\<lparr>dm_clock := c, dm_syncing := dm_syncing d \<union> fst ` set new, dm_pulls := dm_pulls d @ new\<rparr>"
    using assms(1) unfolding moved_on_def by blast
  then obtain x where "x \<in> set new" "fst x = i" using assms(2,3) by auto
  with new assms(4) have "(i, ps) \<in> set (dm_pulls d')" by (cases x) auto
  then show thesis by (auto simp: in_set_conv_nth intro: that)
qed

lemma triggerSync_moves:
  assumes "gn_list (dm_Gossip d)"
  shows "\<exists>d'. triggerSync members i (d\<lparr>dm_clock := observeTS (dm_clock d) ts\<rparr>) = Some d' \<and> moved_on members d d' \<and>
    i \<in> dm_syncing d' \<and> ts \<le> dm_clock d'"
proof (cases "i \<in> dm_syncing d")
  case True
  then show ?thesis
    unfolding moved_on_def
    by (auto simp: triggerSync_def observeTS_def intro!: exI [of _ "observeTS (dm_clock d) ts"] exI [of _ "[]"])
next
  case False
  let ?ps = "active_peers (gn_name (dm_Gossip d)) members"
  let ?d = "d\<lparr>dm_clock := observeTS (dm_clock d) ts, dm_syncing := insert i (dm_syncing d), dm_pulls := dm_pulls d @ [(i, ?ps)]\<rparr>"
  have "triggerSync members i (d\<lparr>dm_clock := observeTS (dm_clock d) ts\<rparr>) = Some ?d"
    using assms False by (simp add: triggerSync_def GetActivePeers_def)
  moreover have "moved_on members d ?d"
    unfolding moved_on_def using assms
    by (intro exI [of _ "observeTS (dm_clock d) ts"] exI [of _ "[(i, ?ps)]"])
      (auto simp: observeTS_def GetActivePeers_def)
  ultimately show ?thesis by (auto simp: observeTS_def)
qed

lemma reconcile_moves:
  "gn_list (dm_Gossip d) \<Longrightarrow> \<exists>d'. reconcile_entries B members peer es d = Some d' \<and> moved_on members d d' \<and>
     (\<forall>e \<in> set es. wanted B d peer e \<longrightarrow> ce_FileID e \<in> dm_syncing d' \<and> ce_LamportTS e \<le> dm_clock d')"
proof (induction es arbitrary: d)
  case Nil
  show ?case by (simp add: moved_on_refl)
next
  case (Cons e es)
  show ?case
  proof (cases "wanted B d peer e")
    case False
    then have "reconcile_entries B members peer (e # es) d = reconcile_entries B members peer es d"
      by (auto simp: wanted_def split: sum.split)
    with Cons.IH [OF Cons.prems] False show ?thesis by auto
  next
    case True
    obtain d1 where d1: "triggerSync members (ce_FileID e) (d\<lparr>dm_clock := observeTS (dm_clock d) (ce_LamportTS e)\<rparr>) = Some d1"
      "moved_on members d d1" "ce_FileID e \<in> dm_syncing d1" "ce_LamportTS e \<le> dm_clock d1"
      using triggerSync_moves [OF Cons.prems] by blast
    have g1: "gn_list (dm_Gossip d1)" using Cons.prems moved_on_sel(3) [OF d1(2)] by simp
    obtain d' where d': "reconcile_entries B members peer es d1 = Some d'" "moved_on members d1 d'"
      "\<forall>e \<in> set es. wanted B d1 peer e \<longrightarrow> ce_FileID e \<in> dm_syncing d' \<and> ce_LamportTS e \<le> dm_clock d'"
      using Cons.IH [OF g1] by blast
    have "wanted B d1 peer x \<longleftrightarrow> wanted B d peer x" for x
      unfolding wanted_def moved_on_sel(1,2) [OF d1(2)] ..
    moreover have "reconcile_entries B members peer (e # es) d = Some d'"
      using True d1(1) d'(1) by (auto simp: wanted_def split: sum.splits)
    moreover have "ce_FileID e \<in> dm_syncing d'" "ce_LamportTS e \<le> dm_clock d'"
      using d1(3,4) moved_on_sel(4,5) [OF d'(2)] by auto
    ultimately show ?thesis using d'(3) moved_on_trans [OF d1(2) d'(2)] by auto
  qed
qed

lemma reconcile_none: "\<forall>e \<in> set es. \<not> wanted B d peer e \<Longrightarrow> reconcile_entries B members peer es d = Some d"
  by (induction es) (auto simp: wanted_def split: sum.splits)

section \<open>Where the code falls short\<close>

text \<open>C36. Concurrent writes with equal timestamps: a node whose name is above both authors keeps whichever version it
  received first, because the tie is broken by the name of the node that holds the version, not by
  its author.  Two nodes that received the same two announcements can keep different versions.\<close>

theorem tie_depends_on_order:
  assumes "GetFileMeta B (dm_db d1) i = Inr v1" and "GetFileMeta B (dm_db d2) i = Inr v2"
    and "fm_LamportTS v1 = ts" and "fm_LamportTS v2 = ts" and "fm_MerkleRoot v1 \<noteq> fm_MerkleRoot v2"
    and "s1 < dm_Name d2" and "s2 < dm_Name d1"
  shows "\<exists>d1' d2'.
    handleAnnouncement B members \<lparr>an_FileID = i, an_MerkleRoot = fm_MerkleRoot v2, an_LamportTS = ts, an_SourceNode = s2\<rparr> d1 = Some d1' \<and>
    handleAnnouncement B members \<lparr>an_FileID = i, an_MerkleRoot = fm_MerkleRoot v1, an_LamportTS = ts, an_SourceNode = s1\<rparr> d2 = Some d2' \<and>
    dm_pulls d1' = dm_pulls d1 \<and> dm_pulls d2' = dm_pulls d2 \<and>
    GetFileMeta B (dm_db d1') i = Inr v1 \<and> GetFileMeta B (dm_db d2') i = Inr v2"
  using assms by (auto simp: handleAnnouncement_def remoteWins_def Let_def)

theorem tie_depends_on_order_witness:
  "\<exists>d1 d2 :: (bytes \<times> bytes) list Daemon. \<exists>d1' d2' v1 v2. v1 \<noteq> v2 \<and>
     handleAnnouncement list_bolt [] \<lparr>an_FileID = ''a'', an_MerkleRoot = fm_MerkleRoot v2, an_LamportTS = 1, an_SourceNode = ''c''\<rparr> d1 = Some d1' \<and>
     handleAnnouncement list_bolt [] \<lparr>an_FileID = ''a'', an_MerkleRoot = fm_MerkleRoot v1, an_LamportTS = 1, an_SourceNode = ''b''\<rparr> d2 = Some d2' \<and>
     GetFileMeta list_bolt (dm_db d1') ''a'' = Inr v1 \<and> GetFileMeta list_bolt (dm_db d2') ''a'' = Inr v2"
proof (rule demo_started)
  fix f0 d0 and d :: "(bytes \<times> bytes) list Daemon"
  assume "dm_Name d = ''n''"
  let ?r2 = "copy32 [CHR 0x01]"
  let ?v2 = "demo_meta\<lparr>fm_MerkleRoot := ?r2\<rparr>"
  let ?d1 = "d\<lparr>dm_db := demo_db\<rparr>" and ?d2 = "d\<lparr>dm_db := [(''a'', json_print (FileMeta_json ?v2))]\<rparr>"
  have "FileMeta_Unmarshal (json_print (FileMeta_json ?v2)) = Some ?v2"
    by (rule metac.dec_enc) (simp add: demo_meta_def)
  then have g2: "GetFileMeta list_bolt (dm_db ?d2) ''a'' = Inr ?v2" by (simp add: GetFileMeta_def list_bolt_def)
  have g1: "GetFileMeta list_bolt (dm_db ?d1) ''a'' = Inr demo_meta" by (simp add: demo_db_get)
  have "zero32 \<noteq> ?r2" unfolding bytes32_eq_iff zero32_def bytes32_copy32 by (simp add: numeral_eq_Suc)
  then have ne: "fm_MerkleRoot demo_meta \<noteq> fm_MerkleRoot ?v2" by (simp add: demo_meta_def)
  have ts: "fm_LamportTS demo_meta = 1" "fm_LamportTS ?v2 = 1" by (simp_all add: demo_meta_def)
  have nm: "''b'' < dm_Name ?d2" "''c'' < dm_Name ?d1" using \<open>dm_Name d = ''n''\<close> by (simp_all add: less_char_def)
  from tie_depends_on_order [OF g1 g2 ts ne nm, of "[]"] ne show ?thesis by metis
qed

lemma Put_refused: "faulty f OpCreate (tmp_path s f h) \<Longrightarrow> fst (Put s f h x) = f"
  by (simp add: Put_def Let_def os_WriteFile_def create_at_def split: sum.split)

lemma put_chunks_refused: "\<forall>h. faulty f OpCreate (tmp_path s f h) \<Longrightarrow> put_chunks s f cs = f"
  by (induction cs) (simp_all add: Put_refused)

text \<open>C37. Errors of the store are dropped: with a disk that refuses new files, a changed file is indexed and
  announced all the same, although none of its chunks is stored.\<close>

theorem unstored_chunks_announced:
  assumes "fastcdc_spec C" and "bolt_spec B live bucket" and "live (dm_db d)"
    and "readable (dm_fs d) path content" and "content \<noteq> []" and "Ext path \<noteq> ''.db''"
    and "\<not> is_quiet_at (dm_quiet d) (now, path)" and "storable_id (file_id d path)"
    and "\<And>m. GetFileMeta B (dm_db d) (file_id d path) \<noteq> Inr m"
    and "\<And>h. faulty (dm_fs d) OpCreate (tmp_path (dm_CAS d) (dm_fs d) h)" and "\<And>h. stored (dm_CAS d) (dm_fs d) h = None"
  shows "\<exists>d' m. HandleFileChange C B now path d = Some d' \<and> GetFileMeta B (dm_db d') (file_id d path) = Inr m \<and>
    fm_ChunkHashes m \<noteq> [] \<and> (\<forall>h. stored (dm_CAS d') (dm_fs d') h = None) \<and>
    dm_Gossip d' = Broadcast (dm_Gossip d) \<lparr>an_FileID = file_id d path, an_MerkleRoot = fm_MerkleRoot m,
      an_LamportTS = fm_LamportTS m, an_SourceNode = dm_Name d\<rparr>"
proof (rule HandleFileChange_result [OF assms(1,4,6,7), where B = B])
  fix cs
  let ?d = "d\<lparr>dm_quiet := fst (IsQuiet (dm_quiet d) now path)\<rparr>"
  let ?d' = "index_file B (file_id d path) cs ?d"
  assume cs: "concat (map ch_Data cs) = content" "HandleFileChange C B now path d =
    Some (let d1 = ?d in if unchanged B d (file_id d path) cs then d1 else index_file B (file_id d path) cs d1)"
  have "\<not> unchanged B d (file_id d path) cs" using assms(9) by (simp add: unchanged_def)
  with cs(2) have hc: "HandleFileChange C B now path d = Some ?d'" by simp
  have fs: "dm_fs ?d' = dm_fs d" "dm_CAS ?d' = dm_CAS d"
    using put_chunks_refused [of "dm_fs d" "dm_CAS d"] assms(10) by (simp_all add: index_file_fields)
  let ?m = "\<lparr>fm_FileID = file_id d path, fm_MerkleRoot = ComputeRoot cs, fm_LamportTS = dm_clock d + 1,
      fm_ChunkHashes = map ch_Hash cs, fm_SizeBytes = total_size cs\<rparr>"
  have "GetFileMeta B (dm_db ?d') (file_id d path) = Inr ?m"
    using index_file_meta [OF assms(2), of ?d "file_id d path" cs] assms(3,8) by simp
  moreover have "cs \<noteq> []" using cs(1) assms(5) by auto
  ultimately show ?thesis using hc fs assms(11)
    by (intro exI [of _ ?d'] exI [of _ ?m]) (simp add: index_file_fields(5))
qed

text \<open>A disk with the one file \<^verbatim>\<open>/s/a\<close>.\<close>

definition one_file :: "bytes \<Rightarrow> (fsop \<Rightarrow> path \<Rightarrow> nat option) \<Rightarrow> fs" where
  "one_file x flt = \<lparr>ents = (\<lambda>p. if p = [''s'', ''a''] then Some (FFile x) else if p = [] \<or> p = [''s''] then Some FDir else None),
     wd = [], faults = flt\<rparr>"

lemma one_file_facts:
  "resolve f ''/s/a'' = [''s'', ''a'']" "Ext ''/s/a'' \<noteq> ''.db''" "Rel ''/s'' ''/s/a'' = Some ''a''"
  by code_simp+

theorem unstored_chunks_announced_witness:
  "\<exists>d d' m. HandleFileChange fixed_cdc list_bolt 0 ''/s/a'' d = Some d' \<and> GetFileMeta list_bolt (dm_db d') ''a'' = Inr m \<and>
     fm_ChunkHashes m \<noteq> [] \<and> (\<forall>h. stored (dm_CAS d') (dm_fs d') h = None)"
proof (rule demo_started)
  fix f0 d0 and d1 :: "(bytes \<times> bytes) list Daemon"
  assume d1: "dm_BaseDir d1 = ''/s''" "baseDir (dm_CAS d1) = ''/d''" "dm_db d1 = []"
      "\<And>now path. \<not> is_quiet_at (dm_quiet d1) (now, path)"
  let ?f = "one_file ''x'' (\<lambda>op p. if op = OpCreate then Some 0 else None)"
  let ?d = "d1\<lparr>dm_fs := ?f\<rparr>"
  have rd: "readable (dm_fs ?d) ''/s/a'' ''x''" by (simp add: readable_def one_file_facts) (simp add: one_file_def faulty_def)
  have fid: "file_id ?d ''/s/a'' = ''a''" using d1(1) by (simp add: file_id_def one_file_facts)
  have live: "kv_sorted (dm_db ?d)" using d1(3) by (simp add: kv_sorted_def)
  have nq: "\<not> is_quiet_at (dm_quiet ?d) (0, ''/s/a'')" using d1(4) by simp
  have sid: "storable_id (file_id ?d ''/s/a'')" unfolding fid by (simp add: storable_id_def)
  have new: "GetFileMeta list_bolt (dm_db ?d) (file_id ?d ''/s/a'') \<noteq> Inr m" for m
    using d1(3) by (simp add: GetFileMeta_def list_bolt_def)
  have flt: "faulty (dm_fs ?d) OpCreate p" for p by (simp add: one_file_def faulty_def)
  have "resolve ?f ''/d'' = [''d'']" by (rule resolve_demo)
  then have none: "stored (dm_CAS ?d) (dm_fs ?d) h = None" for h
    using d1(2) by (simp add: stored_def obj_path_def) (simp add: one_file_def)
  from unstored_chunks_announced [OF fixed_cdc_spec list_bolt_spec live rd _ one_file_facts(2) nq sid new flt none] fid
  show ?thesis by auto
qed

text \<open>C38. Not every change is noticed: the root of the two chunks with hashes \<open>a\<close> and \<open>b\<close> is also the root of the
  single chunk that consists of these two hashes.  A file with those chunks can be replaced by the 64
  bytes of their hashes, and the change is neither indexed nor announced.\<close>

theorem change_missed:
  assumes "GetFileMeta B (dm_db d) (file_id d path) = Inr m" and "fm_MerkleRoot m = merkle_root [a, b]"
    and "ChunkFile C (NewFastCDCChunker 8192) (dm_fs d) path = Some (Inr [ch])"
    and "ch_Data ch = bytes32 a @ bytes32 b" and "Ext path \<noteq> ''.db''" and "\<not> is_quiet_at (dm_quiet d) (now, path)"
  shows "\<exists>d'. HandleFileChange C B now path d = Some d' \<and> dm_db d' = dm_db d \<and> dm_Gossip d' = dm_Gossip d \<and>
    dm_clock d' = dm_clock d \<and> dm_fs d' = dm_fs d"
proof -
  have "ch_Hash ch = sha256 (bytes32 a @ bytes32 b)" using ChunkFile_hashes [OF assms(3)] assms(4) by simp
  then have "ComputeRoot [ch] = fm_MerkleRoot m"
    using assms(2) by (simp add: ComputeRoot_def merkle_root_def merkle_loop.simps)
  moreover obtain q where "IsQuiet (dm_quiet d) now path = (q, False)"
    using assms(6) IsQuiet_at [of "dm_quiet d" now path] by (metis prod.collapse)
  ultimately show ?thesis using assms(1,3,5) by (simp add: HandleFileChange_def Let_def)
qed

theorem change_missed_witness:
  "\<exists>d d' m. GetFileMeta list_bolt (dm_db d) ''a'' = Inr m \<and> fm_ChunkHashes m = [zero32, zero32] \<and>
     ents (dm_fs d) [''s'', ''a''] = Some (FFile (bytes32 zero32 @ bytes32 zero32)) \<and>
     HandleFileChange fixed_cdc list_bolt 0 ''/s/a'' d = Some d' \<and> dm_db d' = dm_db d"
proof (rule demo_started)
  fix f0 d0 and d1 :: "(bytes \<times> bytes) list Daemon"
  assume d1: "dm_BaseDir d1 = ''/s''" "\<And>now path. \<not> is_quiet_at (dm_quiet d1) (now, path)"
  let ?x = "bytes32 zero32 @ bytes32 zero32"
  let ?m = "\<lparr>fm_FileID = ''a'', fm_MerkleRoot = merkle_root [zero32, zero32], fm_LamportTS = 1,
     fm_ChunkHashes = [zero32, zero32], fm_SizeBytes = 9000\<rparr>"
  let ?d = "d1\<lparr>dm_fs := one_file ?x (\<lambda>_ _. None), dm_db := [(''a'', json_print (FileMeta_json ?m))]\<rparr>"
  have fid: "file_id ?d ''/s/a'' = ''a''" using d1(1) by (simp add: file_id_def one_file_facts)
  have "FileMeta_Unmarshal (json_print (FileMeta_json ?m)) = Some ?m" by (rule metac.dec_enc) simp
  then have g: "GetFileMeta list_bolt (dm_db ?d) (file_id ?d ''/s/a'') = Inr ?m"
    unfolding fid by (simp add: GetFileMeta_def list_bolt_def)
  have rd: "readable (dm_fs ?d) ''/s/a'' ?x" by (simp add: readable_def one_file_facts) (simp add: one_file_def faulty_def)
  have len: "length ?x = 64" by simp
  then have "?x \<noteq> []" by (metis list.size(3) zero_neq_numeral)
  moreover have "take 8192 ?x = ?x" "drop 8192 ?x = []" using len by simp_all
  ultimately have x: "?x \<noteq> []" "take 8192 ?x = ?x" "drop 8192 ?x = []" by blast+
  have "ChunkFile_loop fixed_cdc (0, ?x) [] 0 = Some (Inr [chunk_of 0 \<lparr>part_Offset = 0, part_Length = 64, part_Data = ?x\<rparr>])"
    using x len by (subst ChunkFile_loop.simps, subst ChunkFile_loop.simps)
      (simp add: fixed_cdc_def fixed_Next_def Let_def chunk_of_def)
  then have ch: "ChunkFile fixed_cdc (NewFastCDCChunker 8192) (dm_fs ?d) ''/s/a'' =
      Some (Inr [chunk_of 0 \<lparr>part_Offset = 0, part_Length = 64, part_Data = ?x\<rparr>])"
    unfolding ChunkFile_def readable_Open [OF rd] sum.case readable_ReadAll [OF rd] by (simp add: fixed_cdc_def)
  have dat: "ch_Data (chunk_of 0 \<lparr>part_Offset = 0, part_Length = 64, part_Data = ?x\<rparr>) = ?x" by (simp add: chunk_of_def)
  have nq: "\<not> is_quiet_at (dm_quiet ?d) (0, ''/s/a'')" using d1(2) by simp
  have e: "ents (dm_fs ?d) [''s'', ''a''] = Some (FFile ?x)" by (simp add: one_file_def)
  have "fm_MerkleRoot ?m = merkle_root [zero32, zero32]" by (simp only: FileMeta.simps)
  from change_missed [OF g this ch dat one_file_facts(2) nq] obtain d' where
    h: "HandleFileChange fixed_cdc list_bolt 0 ''/s/a'' ?d = Some d'" "dm_db d' = dm_db ?d" by blast
  have "fm_ChunkHashes ?m = [zero32, zero32]" by (simp only: FileMeta.simps)
  with g [unfolded fid] e h show ?thesis by blast
qed



end
