(* ===== verification/Sync.thy ===== *)
theory Sync
  imports Daemon
begin

text \<open>
  Two nodes: one pulls from the other over the network.  Where \<open>Orchestrator\<close> shows what a pull
  keeps whatever the peers do, this theory shows that it succeeds when the peer is a running node of
  this model: \<open>peer_serves\<close> says that the requests reach it, its clock is in step and it has a free
  stream.  The lemmas follow \<open>Pull\<close>: the source is found, every missing chunk is offered, each worker
  is done after two moves, and assembling goes through.
\<close>

section \<open>Workers on course\<close>

text \<open>A worker whose only source is the address \<open>g\<close>, reached at \<open>http\<close>.\<close>

definition on_course :: "CASBlobStore \<Rightarrow> fs \<Rightarrow> gostring \<Rightarrow> gostring \<Rightarrow> worker \<Rightarrow> bool" where
  "on_course cas f g http w \<longleftrightarrow> (case wk_mode w of
       WNext \<Rightarrow> wk_peers w \<noteq> [] \<and> set (wk_peers w) \<subseteq> {g}
     | WTry a k \<Rightarrow> a = http
     | WDone \<Rightarrow> stored cas f (wk_hash w) \<noteq> None
     | WFail \<Rightarrow> False)"

definition steps_left :: "worker \<Rightarrow> nat" where
  "steps_left w = (case wk_mode w of WNext \<Rightarrow> 2 | WTry _ _ \<Rightarrow> 1 | _ \<Rightarrow> 0)"

lemma on_course_mono:
  "on_course cas f g http w \<Longrightarrow> \<forall>h. stored cas f h \<noteq> None \<longrightarrow> stored cas f' h \<noteq> None \<Longrightarrow> on_course cas f' g http w"
  by (auto simp: on_course_def split: wmode.splits)

lemma worker_on_course:
  assumes "worker_step net e toHTTP now rnd tr f w = (tr', f', w')" and "on_course (en_CAS e) f g http w"
    and "toHTTP g = Some http" and "tr http = None" and "store_ok (en_CAS e) f"
    and "FetchChunk (net now) (en_Client e) now http (wk_hash w) = Inr d" and "sha256 d = wk_hash w"
  shows "tr' = tr \<and> (f' = f \<or> f' = fst (Put (en_CAS e) f (wk_hash w) d)) \<and> wk_hash w' = wk_hash w \<and>
    on_course (en_CAS e) f' g http w' \<and> steps_left w' \<le> steps_left w - 1"
proof (cases "wk_mode w")
  case WNext
  with assms(2) obtain ps where "wk_peers w = g # ps" by (cases "wk_peers w") (auto simp: on_course_def)
  with WNext assms(1,3,4) show ?thesis
    by (auto simp: worker_step_def IsAvailable_def on_course_def steps_left_def)
next
  case (WTry a k)
  with assms(2) have "a = http" by (simp add: on_course_def)
  with WTry assms(1,6) have "tr' = tr" "f' = fst (Put (en_CAS e) f (wk_hash w) d)" "w' = w\<lparr>wk_mode := WDone\<rparr>"
    by (simp_all add: worker_step_def)
  moreover have "stored (en_CAS e) (fst (Put (en_CAS e) f (wk_hash w) d)) (wk_hash w) \<noteq> None"
    using assms(5,7) by (rule store_ok_Put(3))
  ultimately show ?thesis by (simp add: on_course_def steps_left_def WTry)
next
  case WDone
  with assms(1,2) show ?thesis by (simp add: worker_step_def on_course_def steps_left_def)
next
  case WFail
  with assms(2) show ?thesis by (simp add: on_course_def)
qed

text \<open>A run of such workers: nothing fails, the store only gains, nothing outside the data directory
  changes, and every move brings the worker nearer to its end.\<close>

definition data_places :: "CASBlobStore \<Rightarrow> fs \<Rightarrow> path set" where
  "data_places cas f = {p. prefix (resolve f (baseDir cas)) p}"

lemma Put_places: "only_at (data_places cas f) f (fst (Put cas f h d))"
proof -
  have "obj_path cas f h \<in> data_places cas f" "tmp_path cas f h \<in> data_places cas f"
    by (simp_all add: data_places_def obj_path_def tmp_path_def)
  then show ?thesis using Put_effect [of cas f h d] unfolding only_at_def put_effect_def by metis
qed

lemma run_on_course:
  assumes "run_workers net e toHTTP (tr, f, ws, errs) evs = (tr', f', ws', errs')"
    and "toHTTP g = Some http" and "tr http = None" and "store_ok (en_CAS e) f"
    and "\<forall>w \<in> set ws. on_course (en_CAS e) f g http w \<and> wk_hash w \<in> H"
    and "\<forall>ev \<in> set evs. \<forall>h \<in> H. \<exists>d. FetchChunk (net (ev_now ev)) (en_Client e) (ev_now ev) http h = Inr d \<and> sha256 d = h"
  shows "errs' = errs \<and> tr' = tr \<and> map wk_hash ws' = map wk_hash ws \<and> store_ok (en_CAS e) f' \<and>
    only_at (data_places (en_CAS e) f) f f' \<and> (\<forall>h. stored (en_CAS e) f h \<noteq> None \<longrightarrow> stored (en_CAS e) f' h \<noteq> None) \<and>
    (\<forall>h x. stored (en_CAS e) f' h = Some x \<longrightarrow> stored (en_CAS e) f h = Some x \<or>
      (\<exists>ev \<in> set evs. FetchChunk (net (ev_now ev)) (en_Client e) (ev_now ev) http h = Inr x)) \<and>
    (\<forall>w \<in> set ws'. on_course (en_CAS e) f' g http w) \<and>
    (\<forall>i < length ws. steps_left (ws' ! i) \<le> steps_left (ws ! i) - moves i evs)"
  using assms
proof (induction evs arbitrary: tr f ws errs)
  case Nil
  then show ?case by (simp add: moves_def)
next
  case (Cons ev evs)
  let ?i = "ev_worker ev" and ?cas = "en_CAS e"
  have fetch: "\<forall>ev \<in> set evs. \<forall>h \<in> H. \<exists>d. FetchChunk (net (ev_now ev)) (en_Client e) (ev_now ev) http h = Inr d \<and> sha256 d = h"
    using Cons.prems(6) by simp
  show ?case
  proof (cases "?i < length ws")
    case False
    then have mv: "moves i (ev # evs) = moves i evs" if "i < length ws" for i using that by (auto simp: moves_def)
    from Cons.prems(1) False have "run_workers net e toHTTP (tr, f, ws, errs) evs = (tr', f', ws', errs')" by simp
    from Cons.IH [OF this Cons.prems(2-5) fetch] mv show ?thesis
      unfolding list.set(2) bex_simps(5) by (metis (no_types, lifting))
  next
    case True
    obtain t1 f1 w1 where w: "worker_step net e toHTTP (ev_now ev) (ev_rnd ev) tr f (ws ! ?i) = (t1, f1, w1)"
      by (metis prod.exhaust)
    have wi: "on_course ?cas f g http (ws ! ?i)" "wk_hash (ws ! ?i) \<in> H" using Cons.prems(5) True by simp_all
    obtain d where d: "FetchChunk (net (ev_now ev)) (en_Client e) (ev_now ev) http (wk_hash (ws ! ?i)) = Inr d"
      "sha256 d = wk_hash (ws ! ?i)" using Cons.prems(6) wi(2) by auto
    have t1: "t1 = tr" and f1: "f1 = f \<or> f1 = fst (Put ?cas f (wk_hash (ws ! ?i)) d)" and h1: "wk_hash w1 = wk_hash (ws ! ?i)"
      and c1: "on_course ?cas f1 g http w1" and s1: "steps_left w1 \<le> steps_left (ws ! ?i) - 1"
      using worker_on_course [OF w wi(1) Cons.prems(2-4) d] by blast+
    have ok1: "store_ok ?cas f1" and mono1: "\<forall>h. stored ?cas f h \<noteq> None \<longrightarrow> stored ?cas f1 h \<noteq> None"
      and at1: "only_at (data_places ?cas f) f f1"
      using f1 store_ok_Put [OF Cons.prems(4)] Cons.prems(4) Put_places [of ?cas f "wk_hash (ws ! ?i)" d] by auto
    have new1: "stored ?cas f h = Some x \<or> h = wk_hash (ws ! ?i) \<and> x = d" if "stored ?cas f1 h = Some x" for h x
      using f1 that stored_Put_cases [of ?cas f "wk_hash (ws ! ?i)" d h x] stored_Put_other [of h "wk_hash (ws ! ?i)" ?cas f d]
      by (cases "h = wk_hash (ws ! ?i)") auto
    have places: "data_places ?cas f1 = data_places ?cas f"
      using at1 resolve_cong [of f1 f] by (simp add: data_places_def only_at_def)
    have "wk_mode w1 \<noteq> WFail" using c1 by (auto simp: on_course_def)
    then have run: "run_workers net e toHTTP (tr, f1, ws[?i := w1], errs) evs = (tr', f', ws', errs')"
      using Cons.prems(1) True w t1 by simp
    have ws1: "\<forall>w \<in> set (ws[?i := w1]). on_course ?cas f1 g http w \<and> wk_hash w \<in> H"
      using Cons.prems(5) c1 h1 wi(2) on_course_mono [OF _ mono1] set_update_subset_insert [of ws ?i w1] by auto
    have hs: "map wk_hash (ws[?i := w1]) = map wk_hash ws"
      using h1 True by (simp add: map_update list_update_same_conv)
    note IH = Cons.IH [OF run Cons.prems(2,3) ok1 ws1 fetch]
    have left: "steps_left (ws' ! j) \<le> steps_left (ws ! j) - moves j (ev # evs)" if j: "j < length ws" for j
    proof -
      have "steps_left (ws' ! j) \<le> steps_left (ws[?i := w1] ! j) - moves j evs" using IH j by simp
      then show ?thesis using s1 j True by (cases "j = ?i") (auto simp: moves_def)
    qed
    have new: "stored ?cas f h = Some x \<or> (\<exists>ev \<in> set (ev # evs). FetchChunk (net (ev_now ev)) (en_Client e) (ev_now ev) http h = Inr x)"
      if "stored ?cas f' h = Some x" for h x
      using IH that new1 [of h x] d(1) by (metis list.set_intros(1) list.set_intros(2))
    from IH left new hs mono1 only_at_trans [OF at1] places show ?thesis by simp
  qed
qed

section \<open>Assembling goes through\<close>

lemma write_loop_runs:
  assumes "no_faults f" and "\<forall>h \<in> set hs. stored cas f h \<noteq> None" and "\<forall>h. sf_file sp \<noteq> obj_path cas f h"
    and "ents f (sf_file sp) = Some (FFile (P @ zeros (n - length P)))"
    and "length (P @ concat (map (\<lambda>h. the (stored cas f h)) hs)) < 2 ^ 63"
    and "\<forall>j < length (sf_bitmap sp). sf_bitmap sp ! j \<longleftrightarrow> j < i"
    and "sparse_inv sp" and "length (sf_bitmap sp) = i + length hs"
  shows "\<exists>sp'. sf_file sp' = sf_file sp \<and> write_loop cas f sp i (int (length P)) hs =
    (fs_set f (sf_file sp) (Some (FFile ((P @ concat (map (\<lambda>h. the (stored cas f h)) hs)) @
       zeros (n - length (P @ concat (map (\<lambda>h. the (stored cas f h)) hs)))))), Inr sp')"
  using assms
proof (induction hs arbitrary: f sp i P)
  case Nil
  then show ?case by (simp add: fs_set_def fun_upd_idem)
next
  case (Cons h hs)
  obtain d where d: "stored cas f h = Some d" using Cons.prems(2) by auto
  then have g: "Get cas f h = Inr d" using Cons.prems(1) by (intro Get_stored)
  let ?c = "(P @ d) @ zeros (n - length (P @ d))"
  let ?f = "fs_set f (sf_file sp) (Some (FFile ?c))"
  let ?sp = "sp\<lparr>sf_bitmap := (sf_bitmap sp)[i := True], sf_chunksDone := sf_chunksDone sp + 1\<rparr>"
  have i: "i < length (sf_bitmap sp)" "\<not> sf_bitmap sp ! i" using Cons.prems(6,8) by auto
  have w: "WriteChunk sp f (int i) (int (length P)) d = (?sp, ?f, Inr ())"
    using Cons.prems(1,4,7) i write_at_zeros [of P n d]
    by (simp add: WriteChunk_def file_WriteAt_def sparse_inv_def no_faults_def)
  have st: "stored cas (fs_set f (sf_file sp) x) = stored cas f" for x using Cons.prems(3) by (rule stored_fs_set)
  have len: "length (P @ d) < 2 ^ 63" using Cons.prems(5) d by simp
  then have "int (length P) + int (length d) < 2 ^ 63" by simp
  then have off: "wrap64 (int (length P) + int (length d)) = int (length (P @ d))" by (simp add: wrap64_id)
  have "\<exists>sp'. sf_file sp' = sf_file ?sp \<and> write_loop cas ?f ?sp (i + 1) (int (length (P @ d))) hs =
    (fs_set ?f (sf_file ?sp) (Some (FFile (((P @ d) @ concat (map (\<lambda>h. the (stored cas ?f h)) hs)) @
       zeros (n - length ((P @ d) @ concat (map (\<lambda>h. the (stored cas ?f h)) hs)))))), Inr sp')"
  proof (rule Cons.IH)
    show "no_faults ?f" using Cons.prems(1) by simp
    show "\<forall>h \<in> set hs. stored cas ?f h \<noteq> None" using Cons.prems(2) by (simp add: st)
    show "\<forall>h. sf_file ?sp \<noteq> obj_path cas ?f h" using Cons.prems(3) by simp
    show "length ((P @ d) @ concat (map (\<lambda>h. the (stored cas ?f h)) hs)) < 2 ^ 63" using Cons.prems(5) d by (simp add: st)
    show "\<forall>j < length (sf_bitmap ?sp). sf_bitmap ?sp ! j \<longleftrightarrow> j < i + 1"
      using Cons.prems(6) i by (auto simp: nth_list_update)
    show "sparse_inv ?sp" using sparse_inv_Write [OF Cons.prems(7), of f "int i" "int (length P)" d] w by simp
  qed (use Cons.prems(8) in simp_all)
  then show ?case using g w off d by (simp add: st)
qed

lemma finish_pull_runs:
  fixes e :: Engine and s :: "'db pull_state" and fileID :: gostring and rm :: FileMeta
  defines "out \<equiv> resolve (pl_fs s) (out_path e fileID)" and "up \<equiv> resolve (pl_fs s) (Dir (out_path e fileID))"
    and "content \<equiv> concat (map (\<lambda>h. the (stored (en_CAS e) (pl_fs s) h)) (fm_ChunkHashes rm))"
  assumes "no_faults (pl_fs s)" and "\<forall>h \<in> set (fm_ChunkHashes rm). stored (en_CAS e) (pl_fs s) h \<noteq> None"
    and "\<forall>h. obj_path (en_CAS e) (pl_fs s) h \<notin> out_places e fileID (pl_fs s)"
    and "\<And>q. prefix q up \<Longrightarrow> no_file (pl_fs s) q" and "out = up @ [n]" and "ents (pl_fs s) out \<noteq> Some FDir"
    and "length content < 2 ^ 63" and "sint (fm_SizeBytes rm) = int (length content)"
    and "PutFileMeta B (pl_db s) rm = (db', Inr ())"
  shows "\<exists>f'. finish_pull B e fileID rm s = (s\<lparr>pl_fs := f', pl_quiet := pl_quiet s @ [out_path e fileID], pl_db := db',
      pl_announced := pl_announced s @ [(fm_FileID rm, fm_MerkleRoot rm, fm_LamportTS rm)]\<rparr>, Inr Assembled) \<and>
    ents f' out = Some (FFile content)"
proof -
  let ?cas = "en_CAS e" and ?f = "pl_fs s" and ?path = "out_path e fileID"
  obtain f1 where m: "os_MkdirAll ?f (Dir ?path) = (f1, Inr ())"
    using os_MkdirAll_succeeds [OF assms(4), of "Dir ?path"] assms(7) by (auto simp: up_def)
  note g = os_MkdirAll_grown [OF m]
  have r1: "resolve f1 = resolve ?f" using g(1) by (rule grown_resolve)
  have nf1: "no_faults f1" using g(1) assms(4) by (rule grown_no_faults)
  have "\<not> prefix out up" using assms(8) by (auto dest: prefix_length_le)
  then have o1: "ents f1 out \<noteq> Some FDir" using g(1) assms(9) unfolding grown_def up_def by (metis mem_Collect_eq)
  have up1: "ents f1 (butlast out) = Some FDir" using g(2) assms(8) by (simp add: up_def)
  let ?c = "zeros (length content)"
  let ?f2 = "fs_set f1 out (Some (FFile ?c))"
  let ?sp = "\<lparr>sf_file = out, sf_bitmap = replicate (length (fm_ChunkHashes rm)) False, sf_chunksDone = 0,
    sf_total = int (length (fm_ChunkHashes rm))\<rparr>"
  have n: "NewSparseFile f1 ?path (sint (fm_SizeBytes rm)) (int (length (fm_ChunkHashes rm))) = (?f2, Inr ?sp)"
    using o1 up1 nf1 assms(8,11)
    by (simp add: NewSparseFile_def os_Create_def create_at_def r1 out_def [symmetric] file_Truncate_def resize_def)
  have at: "only_at (out_places e fileID ?f) ?f f1" using m by (rule os_MkdirAll_only) (simp add: out_places_def)
  have out_in: "out \<in> out_places e fileID ?f" by (simp add: out_places_def out_def)
  have at2: "only_at (out_places e fileID ?f) ?f ?f2" using only_at_trans [OF at only_at_simps(2) [OF out_in]] .
  have st2: "stored ?cas ?f2 = stored ?cas ?f" using at2 assms(6) by (rule only_at_cas(1))
  have ob2: "obj_path ?cas ?f2 = obj_path ?cas ?f" using at2 assms(6) by (intro cas_frame(2)) (auto simp: only_at_def)
  have "\<exists>sp'. sf_file sp' = sf_file ?sp \<and> write_loop ?cas ?f2 ?sp 0 (int (length ([] :: bytes))) (fm_ChunkHashes rm) =
    (fs_set ?f2 (sf_file ?sp) (Some (FFile (([] @ concat (map (\<lambda>h. the (stored ?cas ?f2 h)) (fm_ChunkHashes rm))) @
       zeros (length content - length ([] @ concat (map (\<lambda>h. the (stored ?cas ?f2 h)) (fm_ChunkHashes rm))))))), Inr sp')"
  proof (rule write_loop_runs)
    show "no_faults ?f2" using nf1 by simp
    show "\<forall>h \<in> set (fm_ChunkHashes rm). stored ?cas ?f2 h \<noteq> None" using assms(5) unfolding st2 .
    show "\<forall>h. sf_file ?sp \<noteq> obj_path ?cas ?f2 h" unfolding ob2 using assms(6) out_in by (metis SparseFile.select_convs(1))
    show "length ([] @ concat (map (\<lambda>h. the (stored ?cas ?f2 h)) (fm_ChunkHashes rm))) < 2 ^ 63"
      unfolding st2 using assms(10) by (simp add: content_def)
    show "sparse_inv ?sp" using n by (rule sparse_inv_New)
  qed simp_all
  then obtain sp' where sp': "sf_file sp' = out"
    and l: "write_loop ?cas ?f2 ?sp 0 0 (fm_ChunkHashes rm) = (fs_set f1 out (Some (FFile content)), Inr sp')"
    unfolding st2 content_def [symmetric] by auto
  have c: "sparse_Close sp' (fs_set f1 out (Some (FFile content))) = Inr ()"
    using nf1 by (simp add: sparse_Close_def file_Close_def)
  show ?thesis
    by (intro exI [of _ "fs_set f1 out (Some (FFile content))"])
      (simp add: finish_pull_def m n l c assms(12))
qed

section \<open>A serving peer\<close>

text \<open>The parts of a node share its secret and its store.\<close>

definition linked :: "bytes \<Rightarrow> 'db Daemon \<Rightarrow> bool" where
  "linked secret d \<longleftrightarrow> sv_cas (dm_Server d) = dm_CAS d \<and> ha_secret (sv_verifier (dm_Server d)) = secret \<and>
     cs_casStore (dm_Control d) = dm_CAS d \<and> ha_secret (cl_signer (dm_Client d)) = secret \<and>
     en_Secret (dm_Engine d) = secret \<and> dm_secret d = secret"

text \<open>The network reaches node \<open>a\<close> at the addresses of \<open>p\<close>: the control plane at time \<open>now\<close>, the data
  plane at all times.  The clock of \<open>a\<close> shows \<open>clk t\<close> at time \<open>t\<close>; it is in step, and a stream is
  free.\<close>

definition peer_serves ::
  "(gostring \<Rightarrow> (gostring, invoker) result) \<Rightarrow> (int \<Rightarrow> net) \<Rightarrow> 'sem semaphore \<Rightarrow> (request \<Rightarrow> fnode \<Rightarrow> response) \<Rightarrow> 'sem
   \<Rightarrow> (int \<Rightarrow> int) \<Rightarrow> 'db bolt \<Rightarrow> 'db Daemon \<Rightarrow> PeerInfo \<Rightarrow> int \<Rightarrow> bool" where
  "peer_serves dial net S partial sem clk B a p now \<longleftrightarrow>
     plain_host (HTTPAddr p) \<and> fst (sem_TryAcquire S sem) \<and>
     (\<exists>invoke. dial (GRPCAddr p) = Inr invoke \<and>
        serves invoke (dm_secret a) (dm_Control a) B (dm_db a) (dm_fs a) (clk now)) \<and>
     (\<forall>t. clock_ok t \<longrightarrow> clock_ok (clk t) \<and> t - 30000000000 \<le> clk t \<and> clk t \<le> t + 29000000000 \<and>
        http_serves (net t) (HTTPAddr p) S partial B (dm_db a) (dm_Server a) sem (dm_fs a) (clk t))"

lemma dialled:
  assumes "peer_serves dial net S partial sem clk B a p now" and "clock_ok now" and "linked secret a"
  shows "\<exists>c. NewControlClient dial (GRPCAddr p) secret n = Inr c \<and>
    Diff c now i r k = Inr (DiffMerkleTree B (dm_db a) \<lparr>dq_FileId = i, dq_LocalMerkleRoot = r, dq_KnownChunkHashes = k\<rparr>) \<and>
    CheckAvailability c now hs = Inr (GetChunkAvailability (dm_CAS a) (dm_fs a) hs)"
proof -
  obtain invoke where d: "dial (GRPCAddr p) = Inr invoke"
    and s: "serves invoke (dm_secret a) (dm_Control a) B (dm_db a) (dm_fs a) (clk now)"
    using assms(1) by (auto simp: peer_serves_def)
  let ?c = "\<lparr>cc_conn = invoke, cc_secret = secret, cc_nodeID = n\<rparr>"
  have "serves (cc_conn ?c) (cc_secret ?c) (dm_Control a) B (dm_db a) (dm_fs a) (clk now)"
    using s assms(3) by (simp add: linked_def)
  note served = Diff_served [OF this assms(2)] CheckAvailability_served [OF this assms(2)]
  have "\<not> skewed (clk now) (now_Unix now)"
    using assms(1,2) by (intro not_skewed_window) (auto simp: peer_serves_def)
  with served d assms(3) show ?thesis by (intro exI [of _ ?c]) (simp add: NewControlClient_def linked_def)
qed

lemma fetched:
  assumes "peer_serves dial net S partial sem clk B a p now" and "clock_ok t" and "linked secret a"
    and "store_ok (dm_CAS a) (dm_fs a)" and "ha_secret (cl_signer c) = secret"
  shows "FetchChunk (net t) c t (HTTPAddr p) h = Inr d \<longleftrightarrow> stored (dm_CAS a) (dm_fs a) h = Some d"
    and "GetFileMeta B (dm_db a) i = Inr m \<Longrightarrow> \<forall>x \<in> set i. query_safe x \<Longrightarrow> valid_utf8 (fm_FileID m) \<Longrightarrow>
      FetchMeta (net t) c t (HTTPAddr p) i = Inr m"
proof -
  have s: "http_serves (net t) (HTTPAddr p) S partial B (dm_db a) (dm_Server a) sem (dm_fs a) (clk t)"
    "plain_host (HTTPAddr p)" "fst (sem_TryAcquire S sem)" and ns: "\<not> skewed (clk t) (now_Unix t)"
    using assms(1,2) not_skewed_window [of t "clk t"] by (auto simp: peer_serves_def)
  have sec: "ha_secret (sv_verifier (dm_Server a)) = ha_secret (cl_signer c)" "sv_cas (dm_Server a) = dm_CAS a"
    using assms(3,5) by (simp_all add: linked_def)
  have ok: "no_faults (dm_fs a)" "cas_inv (sv_cas (dm_Server a)) (dm_fs a)" using assms(4) sec(2) by (simp_all add: store_ok_def)
  show "FetchChunk (net t) c t (HTTPAddr p) h = Inr d \<longleftrightarrow> stored (dm_CAS a) (dm_fs a) h = Some d"
    using s(3) ns sec(2) by (simp add: FetchChunk_served [OF s(1,2) sec(1) assms(2) ok] split: option.split)
  show "FetchMeta (net t) c t (HTTPAddr p) i = Inr m"
    if "GetFileMeta B (dm_db a) i = Inr m" "\<forall>x \<in> set i. query_safe x" "valid_utf8 (fm_FileID m)"
  proof -
    have id: "sent_id i = i" using that(2) by (rule sent_id_safe)
    have safe: "\<forall>x \<in> set i. \<not> ctl_byte x \<and> x \<noteq> CHR ''#'' \<and> x \<noteq> CHR '' ''"
      using that(2) by (auto simp: query_safe_def)
    have utf: "valid_utf8 (fm_FileID m')" if m': "GetFileMeta B (dm_db a) (sent_id i) = Inr m'" for m'
      using m' \<open>GetFileMeta B (dm_db a) i = Inr m\<close> \<open>valid_utf8 (fm_FileID m)\<close> by (simp add: id)
    have "FetchMeta (net t) c t (HTTPAddr p) i = (if skewed (clk t) (now_Unix t) then Inl (ErrStatus 403)
        else case GetFileMeta B (dm_db a) (sent_id i) of Inl _ \<Rightarrow> Inl (ErrStatus 404) | Inr m \<Rightarrow> Inr m)"
      using s(1,2) sec(1) assms(2) safe utf by (rule FetchMeta_served)
    then show ?thesis using that(1) ns by (simp add: id)
  qed
qed

text \<open>Every chunk the source has is offered, by it alone.\<close>

lemma offered:
  assumes "peer_serves dial net S partial sem clk B a p now" and "clock_ok now" and "linked secret a"
    and "store_ok (dm_CAS a) (dm_fs a)" and "sort_spec srt" and "\<forall>h \<in> set hs. stored (dm_CAS a) (dm_fs a) h \<noteq> None"
    and "c \<in> set (BuildRarityMap srt dial now [GRPCAddr p] (map bytes32 hs) secret n)"
  shows "\<exists>h \<in> set hs. cr_Hash c = bytes32 h" and "cr_Peers c \<noteq> []" and "set (cr_Peers c) \<subseteq> {GRPCAddr p}"
proof -
  have ok: "no_faults (dm_fs a)" "cas_inv (dm_CAS a) (dm_fs a)" using assms(4) by (simp_all add: store_ok_def)
  have "ask_peer dial now secret n (map bytes32 hs) (GRPCAddr p) = GetChunkAvailability (dm_CAS a) (dm_fs a) (map bytes32 hs)"
    using dialled [OF assms(1-3), where n = n and hs = "map bytes32 hs" and i = "[]" and r = "[]" and k = "[]"]
    by (auto simp: ask_peer_def)
  also have "\<dots> = map bytes32 hs"
    using assms(6) ok by (auto simp: GetChunkAvailability_def filter_id_conv GetFile_result is_ok_iff)
  finally have ask: "ask_peer dial now secret n (map bytes32 hs) (GRPCAddr p) = map bytes32 hs" .
  note entry = BuildRarityMap_entry [OF assms(5,7)]
  from entry(1) show "\<exists>h \<in> set hs. cr_Hash c = bytes32 h" by auto
  have "0 < count_list (map bytes32 hs) (cr_Hash c)"
    using entry(1) count_list_0_iff [of "map bytes32 hs" "cr_Hash c"] by simp
  then show "cr_Peers c \<noteq> []" "set (cr_Peers c) \<subseteq> {GRPCAddr p}" using entry(2) ask by auto
qed

lemma spawn_all: "\<forall>c \<in> set cs. cr_Peers c \<noteq> [] \<Longrightarrow> spawn started cs = (started @ cs, Inr ())"
  by (induction cs arbitrary: started) simp_all

section \<open>The pull goes through\<close>

text \<open>What the pulling node needs: room for the file in its directory, and no cooldown of the source.\<close>

definition room_for :: "'db Daemon \<Rightarrow> gostring \<Rightarrow> bool" where
  "room_for b i \<longleftrightarrow> (let out = resolve (dm_fs b) (out_path (dm_Engine b) i) in
     ents (dm_fs b) out \<noteq> Some FDir \<and> (\<forall>q. prefix q (butlast out) \<longrightarrow> no_file (dm_fs b) q))"

lemma out_paths:
  assumes "wired b" and "clean_id i"
  obtains cs where "cs \<noteq> []" and "resolve (dm_fs b) (out_path (dm_Engine b) i) = resolve (dm_fs b) (dm_BaseDir b) @ cs"
    and "resolve (dm_fs b) (Dir (out_path (dm_Engine b) i)) = resolve (dm_fs b) (dm_BaseDir b) @ butlast cs"
proof -
  obtain cs where cs: "cs \<noteq> []" "normal_path cs" "i = join_path cs" using assms(2) by (auto simp: clean_id_def)
  with assms(1) show ?thesis
    by (intro that [of cs]) (simp_all add: out_path_def wired_def resolve_Join_normal resolve_Dir_Join)
qed

lemma out_apart_data:
  assumes "wired b" and "clean_id i"
  shows "resolve (dm_fs b) (out_path (dm_Engine b) i) \<notin> data_places (dm_CAS b) (dm_fs b)"
    and "prefix q (resolve (dm_fs b) (Dir (out_path (dm_Engine b) i))) \<Longrightarrow> q \<notin> data_places (dm_CAS b) (dm_fs b)"
proof -
  have "p \<notin> out_places (dm_Engine b) i (dm_fs b)" if "p \<in> data_places (dm_CAS b) (dm_fs b)" for p
    using out_places_apart [OF assms refl] that by (simp add: data_places_def)
  moreover have "prefix q (resolve (dm_fs b) (Dir (out_path (dm_Engine b) i))) \<Longrightarrow> q \<in> out_places (dm_Engine b) i (dm_fs b)"
    by (auto simp: out_places_def prefix_def image_iff intro!: exI [of _ "length q"])
  ultimately show "resolve (dm_fs b) (out_path (dm_Engine b) i) \<notin> data_places (dm_CAS b) (dm_fs b)"
    "prefix q (resolve (dm_fs b) (Dir (out_path (dm_Engine b) i))) \<Longrightarrow> q \<notin> data_places (dm_CAS b) (dm_fs b)"
    by (auto simp: out_places_def)
qed

text \<open>The first peer that has the file is the source, whoever comes after it.\<close>

lemma source_first:
  assumes "peer_serves dial net S partial sem clk A a p now" and "clock_ok now" and "linked secret a"
    and "store_ok (dm_CAS a) (dm_fs a)" and "linked secret b" and "wired b"
    and "GetFileMeta A (dm_db a) i = Inr m" and "\<forall>x \<in> set i. query_safe x" and "valid_utf8 (fm_FileID m)"
    and "toHTTP (GRPCAddr p) = Some (HTTPAddr p)"
  shows "select_source dial (net now) (dm_Engine b) now toHTTP i r k (GRPCAddr p # addrs) lastErr =
    Inr (DiffMerkleTree A (dm_db a) \<lparr>dq_FileId = i, dq_LocalMerkleRoot = r, dq_KnownChunkHashes = k\<rparr>, m)"
proof -
  have cl: "ha_secret (cl_signer (en_Client (dm_Engine b))) = secret" "en_Secret (dm_Engine b) = secret"
    using assms(5,6) by (simp_all add: linked_def wired_def)
  obtain c where c: "NewControlClient dial (GRPCAddr p) secret (en_NodeID (dm_Engine b)) = Inr c"
    "Diff c now i r k = Inr (DiffMerkleTree A (dm_db a) \<lparr>dq_FileId = i, dq_LocalMerkleRoot = r, dq_KnownChunkHashes = k\<rparr>)"
    using dialled [OF assms(1-3), where n = "en_NodeID (dm_Engine b)" and i = i and r = r and k = k and hs = "[]"] by blast
  have "bytes32 (fm_MerkleRoot m) \<noteq> []" using length_bytes32 [of "fm_MerkleRoot m"] by force
  then have "dp_RemoteMerkleRoot (DiffMerkleTree A (dm_db a) \<lparr>dq_FileId = i, dq_LocalMerkleRoot = r, dq_KnownChunkHashes = k\<rparr>) \<noteq> []"
    using assms(7) by (auto simp: DiffMerkleTree_def Let_def)
  then show ?thesis
    using c cl(2) fetched(2) [OF assms(1-4) cl(1) assms(7-9)] by (simp add: assms(10))
qed

text \<open>What is missing at the pulling node is exactly what its index does not mention.\<close>

lemma missing_chunks:
  assumes "GetFileMeta A dba i = Inr m" and "\<And>x. GetFileMeta B db i = Inr x \<Longrightarrow> fm_MerkleRoot x \<noteq> fm_MerkleRoot m"
    and "local_state B db i = (r, k)"
  defines "dr \<equiv> DiffMerkleTree A dba \<lparr>dq_FileId = i, dq_LocalMerkleRoot = r, dq_KnownChunkHashes = k\<rparr>"
  shows "\<not> dp_IsSynced dr"
    and "dp_MissingChunkHashes dr = map bytes32 (filter (\<lambda>h. h \<notin> known_set k) (fm_ChunkHashes m))"
    and "h \<in> known_set k \<Longrightarrow> \<exists>x. GetFileMeta B db i = Inr x \<and> h \<in> set (fm_ChunkHashes x)"
proof -
  have "r \<noteq> bytes32 (fm_MerkleRoot m)"
  proof
    assume "r = bytes32 (fm_MerkleRoot m)"
    moreover have "[] \<noteq> bytes32 (fm_MerkleRoot m)" using length_bytes32 [of "fm_MerkleRoot m"] by force
    ultimately show False using assms(2,3) by (auto simp: local_state_def bytes32_eq_iff [symmetric] split: sum.split_asm)
  qed
  then show "\<not> dp_IsSynced dr"
    "dp_MissingChunkHashes dr = map bytes32 (filter (\<lambda>h. h \<notin> known_set k) (fm_ChunkHashes m))"
    using assms(1) by (auto simp: dr_def DiffMerkleTree_def Let_def)
  show "\<exists>x. GetFileMeta B db i = Inr x \<and> h \<in> set (fm_ChunkHashes x)" if "h \<in> known_set k"
    using that assms(3) by (auto simp: local_state_def known_set_def split: sum.split_asm)
qed

lemma transferred:
  assumes "peer_serves dial net S partial sem clk A a p now" and "clock_ok now" and "linked secret a"
    and "store_ok (dm_CAS a) (dm_fs a)" and "linked secret b" and "wired b" and "store_ok (dm_CAS b) (dm_fs b)"
    and "sort_spec srt" and "\<forall>h \<in> set hs. stored (dm_CAS a) (dm_fs a) h \<noteq> None" and "dm_tracker b (HTTPAddr p) = None"
    and "M = BuildRarityMap srt dial now [GRPCAddr p] (map bytes32 hs) secret n"
    and "run_workers net (dm_Engine b) (grpc_map [p]) (dm_tracker b, dm_fs b, map new_worker M, []) evs = (tr, f, ws, errs)"
    and "\<forall>ev \<in> set evs. clock_ok (ev_now ev)" and "\<forall>j < length hs. 2 \<le> moves j evs"
  shows "errs = [] \<and> list_all finished ws \<and> spawn [] M = (M, Inr ())" and "store_ok (dm_CAS b) f"
    and "only_at (data_places (dm_CAS b) (dm_fs b)) (dm_fs b) f"
    and "stored (dm_CAS b) (dm_fs b) h \<noteq> None \<or> h \<in> set hs \<Longrightarrow> stored (dm_CAS b) f h \<noteq> None"
    and "stored (dm_CAS b) f h = Some x \<Longrightarrow> stored (dm_CAS b) (dm_fs b) h = Some x \<or> stored (dm_CAS a) (dm_fs a) h = Some x"
proof -
  let ?e = "dm_Engine b" and ?g = "GRPCAddr p" and ?http = "HTTPAddr p"
  have e: "en_CAS ?e = dm_CAS b" "ha_secret (cl_signer (en_Client ?e)) = secret" using assms(5,6) by (simp_all add: wired_def linked_def)
  note off = offered [OF assms(1-4,8,9), where n = n, folded assms(11)]
  note fetch = fetched(1) [OF assms(1) _ assms(3,4) e(2)]
  have ms: "mset (map cr_Hash M) = mset (map bytes32 hs)" unfolding assms(11) using assms(8) by (rule BuildRarityMap_mset)
  then have len: "length M = length hs" by (metis length_map size_mset)
  have "\<exists>d. FetchChunk (net (ev_now ev)) (en_Client ?e) (ev_now ev) ?http h = Inr d \<and> sha256 d = h"
    if ev: "ev \<in> set evs" and h: "h \<in> set hs" for ev h
  proof -
    obtain d where "stored (dm_CAS a) (dm_fs a) h = Some d" using assms(9) h by auto
    moreover from this have "sha256 d = h" using assms(4) by (intro cas.content_hash) (simp_all add: store_ok_def)
    ultimately show ?thesis using fetch assms(13) ev by blast
  qed
  then have srv: "\<forall>ev \<in> set evs. \<forall>h \<in> set hs. \<exists>d. FetchChunk (net (ev_now ev)) (en_Client ?e) (ev_now ev) ?http h = Inr d \<and> sha256 d = h"
    by blast
  have course: "\<forall>w \<in> set (map new_worker M). on_course (en_CAS ?e) (dm_fs b) ?g ?http w \<and> wk_hash w \<in> set hs"
    using off by (fastforce simp: on_course_def new_worker_def)
  have "grpc_map [p] ?g = Some ?http" by (simp add: grpc_map_def)
  note run = run_on_course [OF assms(12) this assms(10) _ course srv, unfolded e(1), OF assms(7)]
  have "steps_left (ws ! j) = 0" if j: "j < length ws" for j
  proof -
    have "length ws = length M" using run by (metis length_map)
    then have "j < length (map new_worker M)" "2 \<le> moves j evs" using j len assms(14) by simp_all
    moreover from this have "steps_left (map new_worker M ! j) = 2" by (simp add: steps_left_def new_worker_def)
    ultimately show ?thesis using run by fastforce
  qed
  then have zero: "\<forall>w \<in> set ws. steps_left w = 0" by (metis in_set_conv_nth)
  have oc: "\<forall>w \<in> set ws. on_course (dm_CAS b) f ?g ?http w" using run by blast
  have fin: "\<forall>w \<in> set ws. wk_mode w = WDone"
  proof
    fix w assume "w \<in> set ws"
    with zero oc have "steps_left w = 0" "on_course (dm_CAS b) f ?g ?http w" by blast+
    then show "wk_mode w = WDone" by (cases "wk_mode w") (simp_all add: on_course_def steps_left_def)
  qed
  have "spawn [] M = ([] @ M, Inr ())" using off(2) by (intro spawn_all) blast
  moreover have "errs = []" using run by blast
  ultimately show "errs = [] \<and> list_all finished ws \<and> spawn [] M = (M, Inr ())"
    using fin by (simp add: list_all_iff finished_def)
  show "store_ok (dm_CAS b) f" "only_at (data_places (dm_CAS b) (dm_fs b)) (dm_fs b) f" using run by blast+
  show "stored (dm_CAS b) f h = Some x \<Longrightarrow> stored (dm_CAS b) (dm_fs b) h = Some x \<or> stored (dm_CAS a) (dm_fs a) h = Some x"
    using run fetch assms(13) by blast
  have "stored (dm_CAS b) f h \<noteq> None" if "h \<in> set hs"
  proof -
    have "bytes32 h \<in> set (map cr_Hash M)" using ms that by (metis image_eqI list.set_map set_mset_mset)
    then have "h \<in> set (map wk_hash (map new_worker M))" by (auto simp: new_worker_def image_iff) (metis copy32_bytes32)
    then obtain w where "w \<in> set ws" "wk_hash w = h" using run by (metis (no_types, lifting) imageE list.set_map)
    with oc fin have "on_course (dm_CAS b) f ?g ?http w" "wk_mode w = WDone" by blast+
    with \<open>wk_hash w = h\<close> show ?thesis by (simp add: on_course_def)
  qed
  then show "stored (dm_CAS b) (dm_fs b) h \<noteq> None \<or> h \<in> set hs \<Longrightarrow> stored (dm_CAS b) f h \<noteq> None" using run by blast
qed

text \<open>Assembling at the pulling node, after the transfers.\<close>

lemma finish_at:
  assumes "wired b" and "bolt_spec B live bucket" and "live (dm_db b)" and "clean_id i" and "storable_id i" and "room_for b i"
    and "store_ok (dm_CAS b) (pl_fs s)" and "only_at (data_places (dm_CAS b) (dm_fs b)) (dm_fs b) (pl_fs s)" and "pl_db s = dm_db b"
    and "\<forall>h \<in> set (fm_ChunkHashes m). stored (dm_CAS b) (pl_fs s) h \<noteq> None"
    and "concat (map (\<lambda>h. the (stored (dm_CAS b) (pl_fs s) h)) (fm_ChunkHashes m)) = content"
    and "length content < 2 ^ 63" and "fm_SizeBytes m = word_of_nat (length content)" and "fm_FileID m = i"
  shows "\<exists>s'. finish_pull B (dm_Engine b) i m s = (s', Inr Assembled) \<and>
    ents (pl_fs s') (resolve (dm_fs b) (out_path (dm_Engine b) i)) = Some (FFile content) \<and> GetFileMeta B (pl_db s') i = Inr m \<and>
    pl_announced s' = pl_announced s @ [(i, fm_MerkleRoot m, fm_LamportTS m)] \<and> pl_quiet s' = pl_quiet s @ [out_path (dm_Engine b) i]"
proof -
  let ?e = "dm_Engine b"
  have e: "en_CAS ?e = dm_CAS b" using assms(1) by (simp add: wired_def)
  have res: "resolve (pl_fs s) = resolve (dm_fs b)" using assms(8) by (intro resolve_cong) (simp add: only_at_def)
  obtain cs where cs: "cs \<noteq> []" "resolve (dm_fs b) (out_path ?e i) = resolve (dm_fs b) (dm_BaseDir b) @ cs"
    "resolve (dm_fs b) (Dir (out_path ?e i)) = resolve (dm_fs b) (dm_BaseDir b) @ butlast cs"
    using out_paths [OF assms(1,4)] .
  note apart = out_apart_data [OF assms(1,4)]
  have same: "ents (pl_fs s) q = ents (dm_fs b) q" if "q \<notin> data_places (dm_CAS b) (dm_fs b)" for q
    using assms(8) that by (simp add: only_at_def)
  have "storable_id (fm_FileID m)" using assms(5,14) by simp
  then obtain db' where db': "PutFileMeta B (dm_db b) m = (db', Inr ())" "GetFileMeta B db' i = Inr m"
    using PutFileMeta_spec [OF assms(2,3)] assms(14) by metis
  have "\<exists>f'. finish_pull B ?e i m s = (s\<lparr>pl_fs := f', pl_quiet := pl_quiet s @ [out_path ?e i], pl_db := db',
      pl_announced := pl_announced s @ [(fm_FileID m, fm_MerkleRoot m, fm_LamportTS m)]\<rparr>, Inr Assembled) \<and>
    ents f' (resolve (pl_fs s) (out_path ?e i)) =
      Some (FFile (concat (map (\<lambda>h. the (stored (en_CAS ?e) (pl_fs s) h)) (fm_ChunkHashes m))))"
  proof (rule finish_pull_runs)
    show "no_faults (pl_fs s)" using assms(7) by (simp add: store_ok_def)
    show "\<forall>h. obj_path (en_CAS ?e) (pl_fs s) h \<notin> out_places ?e i (pl_fs s)"
      using out_places_apart [OF assms(1,4) res] by (simp add: e obj_path_def res)
    show "no_file (pl_fs s) q" if "prefix q (resolve (pl_fs s) (Dir (out_path ?e i)))" for q
      using that same [of q] apart(2) [of q] assms(6) cs by (simp add: res no_file_def room_for_def Let_def butlast_append)
    show "resolve (pl_fs s) (out_path ?e i) = resolve (pl_fs s) (Dir (out_path ?e i)) @ [last cs]"
      using cs by (simp add: res)
    show "ents (pl_fs s) (resolve (pl_fs s) (out_path ?e i)) \<noteq> Some FDir"
      using same [OF apart(1)] assms(6) by (simp add: res room_for_def Let_def)
    show "sint (fm_SizeBytes m) = int (length (concat (map (\<lambda>h. the (stored (en_CAS ?e) (pl_fs s) h)) (fm_ChunkHashes m))))"
      using assms(11-13) by (simp add: e signed_of_nat signed_take_bit_int_eq_self)
  qed (use assms(9-12) db'(1) in \<open>simp_all add: e\<close>)
  then obtain f' where "finish_pull B ?e i m s = (s\<lparr>pl_fs := f', pl_quiet := pl_quiet s @ [out_path ?e i], pl_db := db',
      pl_announced := pl_announced s @ [(fm_FileID m, fm_MerkleRoot m, fm_LamportTS m)]\<rparr>, Inr Assembled)"
    "ents f' (resolve (dm_fs b) (out_path ?e i)) = Some (FFile content)" using assms(11) by (auto simp: e res)
  then show ?thesis using db'(2) assms(14) by simp
qed

text \<open>The pull as a whole.  \<open>D h\<close> is the only blob with hash \<open>h\<close> that either node has.\<close>

lemma Pull_runs:
  assumes "peer_serves dial net S partial sem clk A a p now" and "clock_ok now" and "linked secret a" and "daemon_inv A live' a"
    and "linked secret b" and "bolt_spec B live bucket" and "daemon_inv B live b" and "sort_spec srt"
    and "GetFileMeta A (dm_db a) i = Inr m" and "fm_FileID m = i"
    and "storable_id i" and "clean_id i" and "\<forall>x \<in> set i. query_safe x"
    and "\<And>x. GetFileMeta B (dm_db b) i = Inr x \<Longrightarrow> fm_MerkleRoot x \<noteq> fm_MerkleRoot m"
    and "dm_tracker b (HTTPAddr p) = None" and "room_for b i"
    and "\<forall>ev \<in> set evs. clock_ok (ev_now ev)" and "\<forall>j < length (fm_ChunkHashes m). 2 \<le> moves j evs"
    and "\<And>h x. h \<in> set (fm_ChunkHashes m) \<Longrightarrow> stored (dm_CAS b) (dm_fs b) h = Some x \<or> stored (dm_CAS a) (dm_fs a) h = Some x \<Longrightarrow> x = D h"
    and "content = concat (map D (fm_ChunkHashes m))" and "length content < 2 ^ 63" and "fm_SizeBytes m = word_of_nat (length content)"
  shows "\<exists>s'. Pull B dial net srt (dm_Engine b) now [GRPCAddr p] evs i [p] (pull_state_of b) = Some (s', Inr Assembled) \<and>
    ents (pl_fs s') (resolve (dm_fs b) (out_path (dm_Engine b) i)) = Some (FFile content) \<and> GetFileMeta B (pl_db s') i = Inr m \<and>
    pl_announced s' = [(i, fm_MerkleRoot m, fm_LamportTS m)] \<and> pl_quiet s' = [out_path (dm_Engine b) i]"
proof -
  let ?e = "dm_Engine b" and ?s = "pull_state_of b" and ?hs = "fm_ChunkHashes m"
  have a: "store_ok (dm_CAS a) (dm_fs a)" "\<forall>h \<in> set ?hs. stored (dm_CAS a) (dm_fs a) h \<noteq> None"
    using assms(4,9) by (auto simp: daemon_inv_def indexed_def)
  have b: "wired b" "store_ok (dm_CAS b) (dm_fs b)" "live (dm_db b)" "indexed B b" using assms(7) by (simp_all add: daemon_inv_def)
  have e: "en_Secret ?e = secret" using assms(5) by (simp add: linked_def)
  obtain r k where l: "local_state B (dm_db b) i = (r, k)" by (rule prod.exhaust)
  note miss = missing_chunks [OF assms(9,14) l]
  let ?dr = "DiffMerkleTree A (dm_db a) \<lparr>dq_FileId = i, dq_LocalMerkleRoot = r, dq_KnownChunkHashes = k\<rparr>"
  let ?mh = "filter (\<lambda>h. h \<notin> known_set k) ?hs"
  have sel: "select_source dial (net now) ?e now (grpc_map [p]) i r k [GRPCAddr p] None = Inr (?dr, m)"
    using assms(10,11) by (intro source_first [OF assms(1-3) a(1) assms(5) b(1) assms(9,13)]) (simp_all add: storable_id_def grpc_map_def)
  define M where "M = BuildRarityMap srt dial now [GRPCAddr p] (map bytes32 ?mh) secret (en_NodeID ?e)"
  obtain tr f ws errs where run: "run_workers net ?e (grpc_map [p]) (dm_tracker b, dm_fs b, map new_worker M, []) evs = (tr, f, ws, errs)"
    by (rule prod_cases4)
  have mh: "\<forall>h \<in> set ?mh. stored (dm_CAS a) (dm_fs a) h \<noteq> None" using a(2) by simp
  have mv: "\<forall>j < length ?mh. 2 \<le> moves j evs" using assms(18) by (meson length_filter_le order_less_le_trans)
  note tr = transferred [OF assms(1-3) a(1) assms(5) b(1,2) assms(8) mh assms(15) M_def run assms(17) mv]
  let ?s1 = "?s\<lparr>pl_tracker := tr, pl_fs := f\<rparr>"
  have P: "Pull B dial net srt ?e now [GRPCAddr p] evs i [p] ?s = Some (finish_pull B ?e i m ?s1)"
    using l sel miss(1) tr(1) run
    by (simp add: Pull_def pull_state_of_def miss(2) M_def [symmetric] e Let_def del: select_source.simps)
  have st: "\<forall>h \<in> set ?hs. stored (dm_CAS b) f h \<noteq> None"
  proof
    fix h assume h: "h \<in> set ?hs"
    then have "stored (dm_CAS b) (dm_fs b) h \<noteq> None \<or> h \<in> set ?mh"
      using miss(3) b(4) unfolding indexed_def by (cases "h \<in> known_set k") (blast, simp)
    then show "stored (dm_CAS b) f h \<noteq> None" by (rule tr(4))
  qed
  have "the (stored (dm_CAS b) f h) = D h" if h: "h \<in> set ?hs" for h
  proof -
    obtain x where x: "stored (dm_CAS b) f h = Some x" using st h by auto
    with tr(5) assms(19) [OF h] show ?thesis by auto
  qed
  then have c: "concat (map (\<lambda>h. the (stored (dm_CAS b) f h)) ?hs) = content" using assms(20) by (simp cong: map_cong)
  have s1: "pl_fs ?s1 = f" "pl_db ?s1 = dm_db b" "pl_announced ?s1 = []" "pl_quiet ?s1 = []" by (simp_all add: pull_state_of_def)
  show ?thesis
    using finish_at [OF b(1) assms(6) b(3) assms(12,11,16), of ?s1 m content, unfolded s1] tr(2,3) st c assms(10,21,22) P by simp
qed

section \<open>Running nodes\<close>

text \<open>A node that was started on a fresh data directory and has done steps since.\<close>

text \<open>The parts of a node that no step replaces.\<close>

definition parts :: "'db Daemon \<Rightarrow> Server \<times> Client \<times> ControlServer \<times> Engine \<times> CASBlobStore \<times> bytes \<times> gostring \<times> bool" where
  "parts d = (dm_Server d, dm_Client d, dm_Control d, dm_Engine d, dm_CAS d, dm_secret d, dm_Name d, gn_list (dm_Gossip d))"

lemma parts_update [simp]:
  "parts (d\<lparr>dm_fs := f\<rparr>) = parts d" "parts (d\<lparr>dm_clock := c\<rparr>) = parts d" "parts (d\<lparr>dm_quiet := q\<rparr>) = parts d"
  "parts (d\<lparr>dm_syncing := y\<rparr>) = parts d" "parts (d\<lparr>dm_pulls := l\<rparr>) = parts d" "parts (d\<lparr>dm_db := db\<rparr>) = parts d"
  "parts (d\<lparr>dm_tracker := t\<rparr>) = parts d"
  by (simp_all add: parts_def)

lemma parts_ops [simp]:
  "parts (announce i r t d) = parts d" "parts (index_file B i cs d) = parts d"
  "triggerSync members i d = Some d' \<Longrightarrow> parts d' = parts d"
  "parts (after_pull now s d) = parts d"
proof -
  show a: "parts (announce i r t d) = parts d" for i r t and d :: "'a Daemon" by (simp add: announce_def parts_def Broadcast_queue split: option.split)
  show "parts (index_file B i cs d) = parts d" by (simp add: index_file_def a Let_def split: prod.split)
  show "triggerSync members i d = Some d' \<Longrightarrow> parts d' = parts d"
    by (auto simp: triggerSync_def split: if_splits option.splits)
  have "parts (foldl (\<lambda>d (i, r, t). announce i r t d) d xs) = parts d" for xs and d :: "'a Daemon"
    by (induction xs arbitrary: d) (auto simp: a)
  then show "parts (after_pull now s d) = parts d" by (simp add: after_pull_def)
qed

lemma parts_reconcile: "reconcile_entries B members peer es d = Some d' \<Longrightarrow> parts d' = parts d"
  by (induction B members peer es d rule: reconcile_entries.induct) (auto split: if_splits option.splits)

lemma dstep_parts: "dstep C B d d' \<Longrightarrow> parts d' = parts d"
proof (induction rule: dstep.induct)
  case (file_changed d path now d')
  then show ?case by (auto simp: HandleFileChange_def Let_def split: if_splits prod.splits option.splits sum.splits)
next
  case (announced members ann d d')
  then show ?case by (auto simp: handleAnnouncement_def Let_def split: if_splits sum.splits)
next
  case (reconciled net members now peer d d')
  then show ?case by (auto simp: reconcileWithPeer_def parts_reconcile split: sum.splits)
next
  case (api_called r members body d d' status)
  then show ?case
    by (auto simp: api_serve_def api_ingest_def api_sync_def Let_def split: if_splits option.splits sum.splits)
next
  case (synced i d net dial srt now order evs d')
  then show ?case by (auto simp: finish_sync_def Let_def split: prod.splits option.splits)
next
  case (user d f)
  then show ?case by simp
qed

lemma linked_parts: "parts d' = parts d \<Longrightarrow> linked secret d' \<longleftrightarrow> linked secret d"
  by (simp add: parts_def linked_def)

lemma NewDaemon_linked:
  assumes "NewDaemon B watch f now name syncDir dataDir httpPort grpcPort gossipPort secret = (f', Inr d)"
  shows "linked secret d"
  using assms
  by (auto simp: NewDaemon_def linked_def NewServer_def NewClient_def NewAuth_def NewControlServer_def NewEngine_def Let_def
      split: if_split_asm prod.split_asm sum.split_asm option.split_asm)

lemma running_ok:
  assumes "running C B live secret d" and "bolt_spec B live bucket"
  shows "daemon_inv B live d" and "linked secret d"
proof -
  show "daemon_inv B live d" using assms by (rule running_inv)
  have started: "linked secret d'" if "linked secret d0" "daemon_Start create join seeds d0 = Some d'" for create join seeds d0 d'
    using that by (auto simp: daemon_Start_def linked_def split: prod.splits sum.splits)
  show "linked secret d"
    using assms(1)
  proof induction
    case (booted watch f now name syncDir dataDir httpPort grpcPort gossipPort f0 d0 create join seeds d)
    show ?case by (rule started [OF NewDaemon_linked [OF booted(1)] booted(3)])
  next
    case (stepped d d')
    then show ?case using linked_parts [OF dstep_parts [OF stepped(2)]] by blast
  next
    case (restarted d f watch now httpPort grpcPort gossipPort f0 d0 create join seeds d')
    show ?case by (rule started [OF NewDaemon_linked [OF restarted(3)] restarted(5)])
  qed
qed

text \<open>Gossip is up as long as the node runs.\<close>

lemma running_list: "running C B live secret d \<Longrightarrow> gn_list (dm_Gossip d)"
proof (induction rule: running.induct)
  case (stepped d d')
  then show ?case using dstep_parts [OF stepped(2)] by (simp add: parts_def)
qed (auto simp: daemon_Start_def gossip_Start_def Let_def split: prod.splits sum.splits if_splits)

section \<open>Hearing of a pulled file again\<close>

lemma file_id_joined:
  assumes "rooted (dm_BaseDir d)" and "clean_id i"
  shows "file_id d (Join (dm_BaseDir d) i) = i"
proof -
  let ?us = "clean_comps (dm_BaseDir d)"
  obtain cs where cs: "cs \<noteq> []" "\<forall>w \<in> set cs. normal_comp w" "i = join_path cs" using assms(2) by (auto simp: clean_id_def normal_path_def)
  have us: "\<forall>w \<in> set ?us. normal_comp w" using assms(1) by (rule clean_comps_normal)
  have split: "SplitOn slash i = cs" using cs by (auto intro!: SplitOn_join_path simp: normal_comp_def)
  have "Join (dm_BaseDir d) i = abs_path (?us @ cs)" using Join_rooted [OF assms(1), of i] us cs(2) by (simp add: split clean_fold_id)
  moreover have "Rel (dm_BaseDir d) t = Rel (abs_path ?us) t" for t using assms(1) us by (simp add: Rel_def Clean_rooted)
  ultimately show ?thesis using Rel_below [OF us cs(2,1)] cs(3) by (simp add: file_id_def)
qed

lemma ChunkFile_same:
  "readable f path content \<Longrightarrow> readable f' path' content \<Longrightarrow> ChunkFile C opts f path = ChunkFile C opts f' path'"
  by (simp add: ChunkFile_def readable_Open readable_ReadAll)

text \<open>A file with the content that the index has for it: reporting it changes nothing but the record of quiet paths.\<close>

lemma echo_ignored:
  assumes "readable f path content" and "ChunkFile C (NewFastCDCChunker 8192) f path = Some (Inr cs)" and "readable (dm_fs d) path' content"
    and "GetFileMeta B (dm_db d) (file_id d path') = Inr m" and "fm_MerkleRoot m = ComputeRoot cs"
  shows "\<exists>q. HandleFileChange C B t path' d = Some (d\<lparr>dm_quiet := q\<rparr>)"
proof -
  have c: "ChunkFile C (NewFastCDCChunker 8192) (dm_fs d) path' = Some (Inr cs)" unfolding ChunkFile_same [OF assms(3,1)] by (rule assms(2))
  have "HandleFileChange C B t path' d = Some (d\<lparr>dm_quiet := (if Ext path' = ''.db'' then dm_quiet d else fst (IsQuiet (dm_quiet d) t path'))\<rparr>)"
    using assms(4,5) c by (cases "IsQuiet (dm_quiet d) t path'") (auto simp: HandleFileChange_def Let_def)
  then show ?thesis by blast
qed

section \<open>From the change to the pull\<close>

lemma length_concat_pieces: "\<forall>x \<in> set xs. x \<noteq> [] \<Longrightarrow> length xs \<le> length (concat xs)"
proof (induction xs)
  case (Cons x xs)
  then have "1 \<le> length x" by (simp add: Suc_le_eq)
  with Cons show ?case by simp
qed simp

lemma index_file_frame:
  "dm_syncing (index_file B i cs d) = dm_syncing d" "dm_pulls (index_file B i cs d) = dm_pulls d" "dm_Name (index_file B i cs d) = dm_Name d"
  by (simp_all add: index_file_def announce_def Let_def split: prod.split)

lemma change_noted:
  assumes "fastcdc_spec C" and "bolt_spec A live bucket" and "daemon_inv A live a" and "readable (dm_fs a) path content"
    and "Ext path \<noteq> ''.db''" and "\<not> is_quiet_at (dm_quiet a) (t, path)" and "storable_id (file_id a path)"
    and "HandleFileChange C A t path a = Some a'" and "dm_clock a' \<noteq> dm_clock a"
  obtains cs m where "ChunkFile C (NewFastCDCChunker 8192) (dm_fs a) path = Some (Inr cs)" and "concat (map ch_Data cs) = content"
    and "length cs \<le> length content" and "GetFileMeta A (dm_db a') (file_id a path) = Inr m" and "fm_FileID m = file_id a path"
    and "fm_ChunkHashes m = map sha256 (map ch_Data cs)" and "fm_SizeBytes m = word_of_nat (length content)"
    and "dm_Gossip a' = Broadcast (dm_Gossip a) \<lparr>an_FileID = file_id a path, an_MerkleRoot = fm_MerkleRoot m,
      an_LamportTS = fm_LamportTS m, an_SourceNode = dm_Name a\<rparr>"
    and "\<forall>ch \<in> set cs. ch_Data ch \<noteq> []" and "dm_fs a' = put_chunks (dm_CAS a) (dm_fs a) cs"
    and "fm_LamportTS m = dm_clock a + 1" and "dm_syncing a' = dm_syncing a \<and> dm_pulls a' = dm_pulls a \<and> dm_Name a' = dm_Name a"
    and "\<forall>x. GetFileMeta A (dm_db a) (file_id a path) = Inr x \<longrightarrow> fm_MerkleRoot x \<noteq> fm_MerkleRoot m"
    and "fm_MerkleRoot m = ComputeRoot cs" and "chunks_wf cs"
proof (rule HandleFileChange_result [OF assms(1,4,5,6), where B = A])
  fix cs
  let ?a = "a\<lparr>dm_quiet := fst (IsQuiet (dm_quiet a) t path)\<rparr>" and ?i = "file_id a path"
  assume cs: "ChunkFile C (NewFastCDCChunker 8192) (dm_fs a) path = Some (Inr cs)" "concat (map ch_Data cs) = content" "chunks_wf cs"
    "HandleFileChange C A t path a = Some (let d1 = ?a in if unchanged A a ?i cs then d1 else index_file A ?i cs d1)"
  have new: "\<not> unchanged A a ?i cs"
  proof
    assume "unchanged A a ?i cs"
    with cs(4) assms(8) have "a' = ?a" by simp
    with assms(9) show False by simp
  qed
  with cs(4) assms(8) have a': "a' = index_file A ?i cs ?a" by simp
  have hs: "map ch_Hash cs = map sha256 (map ch_Data cs)" using cs(3) chunks_wf_hash by auto
  have ne: "\<forall>ch \<in> set cs. ch_Data ch \<noteq> []" using cs(3) by (auto simp: chunks_wf_def in_set_conv_nth)
  then have len: "length cs \<le> length content" using length_concat_pieces [of "map ch_Data cs"] cs(2) by simp
  let ?m = "\<lparr>fm_FileID = ?i, fm_MerkleRoot = ComputeRoot cs, fm_LamportTS = dm_clock ?a + 1,
    fm_ChunkHashes = map ch_Hash cs, fm_SizeBytes = total_size cs\<rparr>"
  have "live (dm_db ?a)" using assms(3) by (simp add: daemon_inv_def)
  from index_file_meta [OF assms(2) this assms(7), of cs] have g: "GetFileMeta A (dm_db a') ?i = Inr ?m" unfolding a' .
  have sz: "total_size cs = word_of_nat (length content)" using cs(2) by (simp add: total_size_length)
  show thesis
    using new by (intro that [OF cs(1,2) len g _ _ _ _ ne]) (auto simp: hs sz a' index_file_fields unchanged_def index_file_frame intro: cs(3))
qed

text \<open>The blobs a node has, and the pieces a file is split into.\<close>

definition blobs :: "'db Daemon \<Rightarrow> bytes set" where
  "blobs d = {x. \<exists>h. stored (dm_CAS d) (dm_fs d) h = Some x}"

definition pieces :: "'s fastcdc \<Rightarrow> fs \<Rightarrow> gostring \<Rightarrow> bytes set" where
  "pieces C f path = {ch_Data ch | cs ch. ChunkFile C (NewFastCDCChunker 8192) f path = Some (Inr cs) \<and> ch \<in> set cs}"

lemma blob_unique:
  assumes "inj_on sha256 U" and "blobs d \<subseteq> U" and "store_ok (dm_CAS d) (dm_fs d)" and "stored (dm_CAS d) (dm_fs d) h = Some x"
  shows "x = the_inv_into U sha256 h"
proof -
  have "sha256 x = h" using assms(3,4) by (intro cas.content_hash) (simp_all add: store_ok_def)
  moreover have "x \<in> U" using assms(2,4) by (auto simp: blobs_def)
  ultimately show ?thesis using the_inv_into_f_f [OF assms(1)] by metis
qed

text \<open>An announcement of a version that is new or beats the local one starts a pull.\<close>

lemma announcement_pulls:
  assumes "an_SourceNode ann \<noteq> dm_Name b" and "an_FileID ann \<notin> dm_syncing b" and "GetActivePeers (dm_Gossip b) members = Some peers"
    and "\<And>x. GetFileMeta B (dm_db b) (an_FileID ann) = Inr x \<Longrightarrow> fm_MerkleRoot x \<noteq> an_MerkleRoot ann \<and>
      remoteWins (fm_LamportTS x) (dm_Name b) (an_LamportTS ann) (an_SourceNode ann)"
  shows "handleAnnouncement B members ann b = Some (b\<lparr>dm_clock := observeTS (dm_clock b) (an_LamportTS ann),
    dm_syncing := insert (an_FileID ann) (dm_syncing b), dm_pulls := dm_pulls b @ [(an_FileID ann, peers)]\<rparr>)"
  using assms by (auto simp: handleAnnouncement_def triggerSync_def Let_def split: sum.split)

lemma finish_sync_pulled:
  assumes "dm_pulls b ! k = (i, peers)"
    and "Pull B dial net srt (dm_Engine b) now order evs i peers (pull_state_of b) = Some (s, Inr Assembled)"
    and "pl_announced s = [(i, r, t)]" and "pl_quiet s = [out]"
  shows "\<exists>b'. finish_sync B dial net srt now order evs k b = Some b' \<and> dm_fs b' = pl_fs s \<and> dm_db b' = pl_db s \<and> i \<notin> dm_syncing b' \<and>
    dm_Gossip b' = Broadcast (dm_Gossip b) \<lparr>an_FileID = i, an_MerkleRoot = r, an_LamportTS = t, an_SourceNode = dm_Name b\<rparr> \<and>
    dm_quiet b' = Mark (dm_quiet b) now out"
  using assms by (simp add: finish_sync_def after_pull_def announce_def)

text \<open>A pull that has been started ends with the file: what \<open>Pull_runs\<close> shows, for the node.\<close>

lemma pull_delivers:
  assumes "peer_serves dial net S partial sem clk A a p now" and "clock_ok now" and "linked secret a" and "daemon_inv A live a"
    and "linked secret b" and "bolt_spec B live' bucket'" and "daemon_inv B live' b" and "sort_spec srt"
    and "GetFileMeta A (dm_db a) i = Inr m" and "fm_FileID m = i" and "storable_id i" and "clean_id i" and "\<forall>x \<in> set i. query_safe x"
    and "\<And>x. GetFileMeta B (dm_db b) i = Inr x \<Longrightarrow> fm_MerkleRoot x \<noteq> fm_MerkleRoot m"
    and "dm_tracker b (HTTPAddr p) = None" and "room_for b i" and "\<forall>ev \<in> set evs. clock_ok (ev_now ev)"
    and "fm_ChunkHashes m = map sha256 ds" and "\<forall>j < length ds. 2 \<le> moves j evs" and "length (concat ds) < 2 ^ 63"
    and "fm_SizeBytes m = word_of_nat (length (concat ds))" and "inj_on sha256 (set ds \<union> blobs a \<union> blobs b)"
    and "dm_pulls b ! k = (i, [p])"
  shows "\<exists>b'. finish_sync B dial net srt now [GRPCAddr p] evs k b = Some b' \<and>
    ents (dm_fs b') (resolve (dm_fs b) (Join (dm_BaseDir b) i)) = Some (FFile (concat ds)) \<and>
    GetFileMeta B (dm_db b') i = Inr m \<and> i \<notin> dm_syncing b' \<and> dm_Gossip b' = Broadcast (dm_Gossip b)
      \<lparr>an_FileID = i, an_MerkleRoot = fm_MerkleRoot m, an_LamportTS = fm_LamportTS m, an_SourceNode = dm_Name b\<rparr>"
proof -
  let ?U = "set ds \<union> blobs a \<union> blobs b"
  let ?D = "the_inv_into ?U sha256"
  have ok: "store_ok (dm_CAS a) (dm_fs a)" "store_ok (dm_CAS b) (dm_fs b)" "wired b" using assms(4,7) by (simp_all add: daemon_inv_def)
  have uniq: "x = ?D h" if "stored (dm_CAS b) (dm_fs b) h = Some x \<or> stored (dm_CAS a) (dm_fs a) h = Some x" for h x
    using that blob_unique [OF assms(22) _ ok(1)] blob_unique [OF assms(22) _ ok(2)] by auto
  have "?D (sha256 x) = x" if "x \<in> set ds" for x using that by (intro the_inv_into_f_f [OF assms(22)]) simp
  then have content: "concat ds = concat (map ?D (fm_ChunkHashes m))" by (simp add: assms(18) comp_def cong: map_cong)
  have mv: "\<forall>j < length (fm_ChunkHashes m). 2 \<le> moves j evs" using assms(18,19) by simp
  obtain s where s: "Pull B dial net srt (dm_Engine b) now [GRPCAddr p] evs i [p] (pull_state_of b) = Some (s, Inr Assembled)"
    "ents (pl_fs s) (resolve (dm_fs b) (out_path (dm_Engine b) i)) = Some (FFile (concat ds))" "GetFileMeta B (pl_db s) i = Inr m"
    "pl_announced s = [(i, fm_MerkleRoot m, fm_LamportTS m)]" "pl_quiet s = [out_path (dm_Engine b) i]"
    using Pull_runs [OF assms(1-14) assms(15-17) mv uniq content assms(20,21)] by blast
  have "out_path (dm_Engine b) i = Join (dm_BaseDir b) i" using ok(3) by (simp add: out_path_def wired_def)
  with finish_sync_pulled [OF assms(23) s(1,4,5)] s(2,3) show ?thesis by fastforce
qed

section \<open>Two nodes on empty disks\<close>

lemma demo_node:
  obtains d where "running fixed_cdc list_bolt kv_sorted ''k'' d" and "dm_Name d = name" and "dm_BaseDir d = ''/s''"
    and "baseDir (dm_CAS d) = ''/d''" and "dm_db d = []" and "\<And>t path. \<not> is_quiet_at (dm_quiet d) (t, path)"
    and "dm_tracker d = Map.empty" and "gn_list (dm_Gossip d)" and "gn_name (dm_Gossip d) = name" and "dm_pulls d = []"
    and "dm_syncing d = {}" and "\<And>p. no_file (dm_fs d) p" and "ents (dm_fs d) [''s'', ''a''] = None" and "dm_clock d = 0"
proof -
  obtain f0 d0 where n0: "demo_new_as name = (f0, Inr d0)" using demo_new_ok by blast
  then have n: "NewDaemon list_bolt (Inr ()) blank_fs 0 name ''/s'' ''/d'' 9100 9000 7946 ''k'' = (f0, Inr d0)"
    by (simp add: demo_new_as_def)
  let ?d = "d0\<lparr>dm_Gossip := (OnAnnouncement (dm_Gossip d0))\<lparr>gn_queue := Some [], gn_list := True\<rparr>\<rparr>"
  have "daemon_Start (Inr ()) (\<lambda>_. Inr ()) [] d0 = Some ?d" by (simp add: daemon_Start_def gossip_Start_def Let_def)
  with n demo_fresh have run: "running fixed_cdc list_bolt kv_sorted ''k'' ?d" by (rule booted)
  have parts: "dm_quiet d0 = newQuietSet quietWriteTTL" "dm_tracker d0 = NewHealthTracker"
    "dm_Gossip d0 = NewGossipNode name 7946 9100 9000"
    using n by (auto simp: NewDaemon_def Let_def split: if_split_asm prod.split_asm sum.split_asm option.split_asm)
  from n show thesis
  proof (rule NewDaemon_cases)
    fix f1 f2 r1 r2 cas db
    assume a: "os_MkdirAll blank_fs ''/s'' = (f1, r1)" "os_MkdirAll f1 ''/d'' = (f2, r2)"
      "NewCASBlobStore f2 ''/d'' = (f0, Inr cas)" "NewBoltMetaStore list_bolt (Join ''/d'' ''meta.db'') = Inr (db, None)"
      "dm_CAS d0 = cas" "dm_db d0 = db" "dm_fs d0 = f0" "dm_BaseDir d0 = ''/s''" "dm_syncing d0 = {}" "dm_pulls d0 = []" "dm_Name d0 = name"
      "dm_clock d0 = 0"
    have r: "resolve f ''/s'' = [''s'']" "resolve f ''/d'' = [''d'']" for f by code_simp+
    note g = grown_trans [OF grown_trans [OF os_MkdirAll_grown(1) [OF a(1)] os_MkdirAll_grown(1) [OF a(2)]] NewCASBlobStore_ok(3) [OF a(3)], unfolded r]
    have b: "no_file blank_fs p" "ents blank_fs [''s'', ''a''] = None" for p by (simp_all add: blank_fs_def no_file_def)
    from g have "ents f0 p = ents blank_fs p \<or> p \<in> {p. prefix p [''s'']} \<union> {p. prefix p [''d'']} \<union>
        {p. prefix p ([''d''] @ [''objects'']) \<or> prefix p ([''d''] @ [''tmp''])}" for p unfolding grown_def by blast
    from this [of "[''s'', ''a'']"] b(2) have "ents f0 [''s'', ''a''] = None" by simp
    moreover have "db = []" using a(4) by (simp add: NewBoltMetaStore_def list_bolt_def)
    ultimately show thesis
      using a grown_no_file [OF g b(1)] parts NewCASBlobStore_ok(1) [OF a(3)]
      by (intro that [OF run]) (simp_all add: is_quiet_at_def newQuietSet_def OnAnnouncement_def NewGossipNode_def NewHealthTracker_def)
  qed
qed

lemma put_chunks_new:
  "stored cas (put_chunks cas f cs) h = Some x \<Longrightarrow> stored cas f h = Some x \<or> x \<in> ch_Data ` set cs"
proof (induction cs arbitrary: f)
  case (Cons ch cs)
  then show ?case using stored_Put_cases [of cas f "ch_Hash ch" "ch_Data ch" h x] by fastforce
qed simp

lemma concat_single: "concat xs = [c] \<Longrightarrow> \<forall>x \<in> set xs. x \<noteq> [] \<Longrightarrow> xs = [[c]]"
proof (induction xs)
  case (Cons x xs)
  then have "x = [c]" "concat xs = []" by (auto simp: append_eq_Cons_conv)
  with Cons.prems(2) show ?case by (cases xs) auto
qed simp

text \<open>The one-byte file \<^verbatim>\<open>/s/a\<close> appears at such a node and is indexed.\<close>

lemma demo_source:
  obtains a a' where "running fixed_cdc list_bolt kv_sorted ''k'' a" and "dm_Name a = name" and "readable (dm_fs a) ''/s/a'' ''x''"
    and "\<not> is_quiet_at (dm_quiet a) (0, ''/s/a'')" and "file_id a ''/s/a'' = ''a''"
    and "HandleFileChange fixed_cdc list_bolt 0 ''/s/a'' a = Some a'" and "dm_clock a' \<noteq> dm_clock a"
    and "pieces fixed_cdc (dm_fs a) ''/s/a'' \<subseteq> {''x''}" and "blobs a' \<subseteq> {''x''}" and "dm_syncing a = {} \<and> dm_pulls a = [] \<and> dm_clock a = 0 \<and> gn_name (dm_Gossip a) = name"
proof (rule demo_node [where name = name])
  fix d
  assume run: "running fixed_cdc list_bolt kv_sorted ''k'' d" and d: "dm_Name d = name" "dm_BaseDir d = ''/s''" "baseDir (dm_CAS d) = ''/d''"
    "dm_db d = []" "\<And>t path. \<not> is_quiet_at (dm_quiet d) (t, path)" "\<And>p. no_file (dm_fs d) p" "dm_syncing d = {}" "dm_pulls d = []" "dm_clock d = 0" "gn_name (dm_Gossip d) = name"
  let ?a = "d\<lparr>dm_fs := fs_set (dm_fs d) [''s'', ''a''] (Some (FFile ''x''))\<rparr>"
  have inv: "daemon_inv list_bolt kv_sorted d" using running_ok(1) [OF run list_bolt_spec] .
  note edit = demo_user_edit(1,2) [OF inv d(2,3), where x = "''x''"] demo_user_edit(3) [OF inv d(2,3)]
  have ra: "running fixed_cdc list_bolt kv_sorted ''k'' ?a" using user [OF edit(1)] by (rule stepped [OF run])
  have rd: "readable (dm_fs ?a) ''/s/a'' ''x''" using edit(2) by simp
  have nq: "\<not> is_quiet_at (dm_quiet ?a) (0, ''/s/a'')" using d(5) by simp
  have fid: "file_id ?a ''/s/a'' = ''a''" using edit(3) by (simp add: file_id_def)
  have ext: "Ext ''/s/a'' \<noteq> ''.db''" by code_simp
  have st: "stored (dm_CAS ?a) (dm_fs ?a) h = None" for h
    using d(3,6) by (auto simp: stored_def no_file_def obj_path_def split: option.split fnode.split)
  show thesis
  proof (rule HandleFileChange_result [OF fixed_cdc_spec rd ext nq, where B = list_bolt])
    fix cs
    let ?q = "?a\<lparr>dm_quiet := fst (IsQuiet (dm_quiet ?a) 0 ''/s/a'')\<rparr>"
    let ?a' = "index_file list_bolt ''a'' cs ?q"
    assume cs: "ChunkFile fixed_cdc (NewFastCDCChunker 8192) (dm_fs ?a) ''/s/a'' = Some (Inr cs)" "concat (map ch_Data cs) = ''x''" "chunks_wf cs"
      "HandleFileChange fixed_cdc list_bolt 0 ''/s/a'' ?a = Some (let d1 = ?q in
        if unchanged list_bolt ?a (file_id ?a ''/s/a'') cs then d1 else index_file list_bolt (file_id ?a ''/s/a'') cs d1)"
    have "\<not> unchanged list_bolt ?a ''a'' cs" using d(4) by (simp add: unchanged_def GetFileMeta_def list_bolt_def)
    with cs(4) fid have h: "HandleFileChange fixed_cdc list_bolt 0 ''/s/a'' ?a = Some ?a'" by simp
    have "\<forall>x \<in> set (map ch_Data cs). x \<noteq> []" using cs(3) by (auto simp: chunks_wf_def in_set_conv_nth)
    then have one: "map ch_Data cs = [''x'']" using cs(2) concat_single [of "map ch_Data cs"] by simp
    then have img: "ch_Data ` set cs \<subseteq> {''x''}" by (metis list.set_map list.simps(15) set_empty2 order_refl empty_set)
    then have p: "pieces fixed_cdc (dm_fs ?a) ''/s/a'' \<subseteq> {''x''}" using cs(1) by (auto simp: pieces_def)
    have "dm_fs ?a' = put_chunks (dm_CAS ?a) (dm_fs ?a) cs" "dm_CAS ?a' = dm_CAS ?a" by (simp_all add: index_file_fields)
    then have b: "blobs ?a' \<subseteq> {''x''}" using put_chunks_new [of "dm_CAS ?a" "dm_fs ?a" cs] st img unfolding blobs_def by fastforce
    have c: "dm_clock ?a' \<noteq> dm_clock ?a" by (simp add: index_file_fields)
    have nm: "dm_Name ?a = name" "dm_syncing ?a = {} \<and> dm_pulls ?a = [] \<and> dm_clock ?a = 0 \<and> gn_name (dm_Gossip ?a) = name" using d(1,7-10) by simp_all
    from ra nm(1) rd nq fid h c p b nm(2) show thesis by (rule that)
  qed
qed

text \<open>The same node once it has indexed the file.\<close>

definition demo_chunk :: Chunk where
  "demo_chunk = \<lparr>ch_Hash = sha256 ''x'', ch_Offset = 0, ch_Size = 1, ch_Sequence = 0, ch_Data = ''x''\<rparr>"

lemma demo_indexed:
  obtains a m where "running fixed_cdc list_bolt kv_sorted ''k'' a" and "dm_Name a = name" and "dm_syncing a = {}"
    and "GetFileMeta list_bolt (dm_db a) ''a'' = Inr m" and "fm_FileID m = ''a''" and "fm_ChunkHashes m = map sha256 [''x'']"
    and "fm_SizeBytes m = 1" and "blobs a \<subseteq> {''x''}" and "fm_MerkleRoot m = ComputeRoot [demo_chunk]" and "fm_LamportTS m = 1"
    and "gn_list (dm_Gossip a)" and "gn_name (dm_Gossip a) = name" and "dm_pulls a = []"
proof (rule demo_source [where name = name])
  fix a a'
  assume a: "running fixed_cdc list_bolt kv_sorted ''k'' a" "dm_Name a = name" "readable (dm_fs a) ''/s/a'' ''x''"
    "\<not> is_quiet_at (dm_quiet a) (0, ''/s/a'')" "file_id a ''/s/a'' = ''a''" "HandleFileChange fixed_cdc list_bolt 0 ''/s/a'' a = Some a'"
    "dm_clock a' \<noteq> dm_clock a" "blobs a' \<subseteq> {''x''}"
    and idle: "dm_syncing a = {} \<and> dm_pulls a = [] \<and> dm_clock a = 0 \<and> gn_name (dm_Gossip a) = name"
  have ext: "Ext ''/s/a'' \<noteq> ''.db''" by code_simp
  have sid: "storable_id (file_id a ''/s/a'')" using a(5) by (simp add: storable_id_def)
  have "valid_utf8 (file_id a ''/s/a'')" using sid by (simp add: storable_id_def)
  then have run: "running fixed_cdc list_bolt kv_sorted ''k'' a'" using a(6) by (intro stepped [OF a(1)] file_changed)
  show thesis
  proof (rule change_noted [OF fixed_cdc_spec list_bolt_spec running_ok(1) [OF a(1) list_bolt_spec] a(3) ext a(4) sid a(6,7)])
    fix cs m
    assume cs: "concat (map ch_Data cs) = ''x''" "\<forall>ch \<in> set cs. ch_Data ch \<noteq> []"
      and m: "GetFileMeta list_bolt (dm_db a') (file_id a ''/s/a'') = Inr m" "fm_FileID m = file_id a ''/s/a''"
        "fm_ChunkHashes m = map sha256 (map ch_Data cs)" "fm_SizeBytes m = word_of_nat (length ''x'')"
        "fm_LamportTS m = dm_clock a + 1" "fm_MerkleRoot m = ComputeRoot cs" "chunks_wf cs"
      and st: "dm_syncing a' = dm_syncing a \<and> dm_pulls a' = dm_pulls a \<and> dm_Name a' = dm_Name a"
      and ann: "dm_Gossip a' = Broadcast (dm_Gossip a) \<lparr>an_FileID = file_id a ''/s/a'', an_MerkleRoot = fm_MerkleRoot m,
        an_LamportTS = fm_LamportTS m, an_SourceNode = dm_Name a\<rparr>"
    have one: "map ch_Data cs = [''x'']" using cs concat_single [of "map ch_Data cs"] by auto
    then obtain c where "cs = [c]" "ch_Data c = ''x''" by (cases cs) auto
    with m(7) have "cs = [demo_chunk]" by (cases c) (simp add: chunks_wf_def demo_chunk_def)
    moreover have "gn_name (dm_Gossip a') = name" using ann idle by (simp add: Broadcast_def Let_def split: option.split)
    ultimately show thesis using one m st idle a(2,5,8) running_list [OF run] by (intro that [OF run]) simp_all
  qed
qed

text \<open>A network on which every address leads to one node, with the same clock everywhere.\<close>

definition demo_dial_to :: "(bytes \<times> bytes) list Daemon \<Rightarrow> int \<Rightarrow> gostring \<Rightarrow> (gostring, invoker) result" where
  "demo_dial_to a now addr = Inr (\<lambda>meth md req.
     control_dispatch (dm_secret a) (dm_Control a) list_bolt (dm_db a) (dm_fs a) now meth (Some md) req)"

definition demo_net_to :: "(bytes \<times> bytes) list Daemon \<Rightarrow> int \<Rightarrow> net" where
  "demo_net_to a t host req = Inr (snd (mux_serve count_sem (\<lambda>_ _. http_Error no_header [] 416) list_bolt (dm_db a)
     (dm_Server a) 1 (dm_fs a) t req))"

lemma demo_peer_serves:
  "peer_serves (demo_dial_to a now) (demo_net_to a) count_sem (\<lambda>_ _. http_Error no_header [] 416) 1 (\<lambda>t. t) list_bolt a demo_peer now"
proof -
  have "plain_host ''h:1''"
    by (simp add: plain_host_def host_ok_def host_char_def valid_port_def ctl_byte_def digit_val_def)
  then show ?thesis
    by (simp add: peer_serves_def demo_dial_to_def demo_net_to_def serves_def http_serves_def count_sem_def)
qed

definition demo_member :: member where
  "demo_member = \<lparr>mb_Name = ''b'', mb_Addr = ''h'', mb_Meta = [CHR 0x00, CHR 0x01, CHR 0x00, CHR 0x02]\<rparr>"

lemma demo_members: "gn_list g \<Longrightarrow> gn_name g = ''m'' \<Longrightarrow> GetActivePeers g [demo_member] = Some [demo_peer]"
  by (simp add: GetActivePeers_def demo_peer_def demo_member_def be16_val_def)

lemma demo_free:
  assumes "running fixed_cdc list_bolt kv_sorted ''k'' b" and "dm_BaseDir b = ''/s''" and "\<And>p. no_file (dm_fs b) p"
    and "ents (dm_fs b) [''s'', ''a''] = None"
  shows "room_for b ''a''" and "blobs b = {}"
proof -
  have "en_BaseDir (dm_Engine b) = ''/s''" using running_ok(1) [OF assms(1) list_bolt_spec] assms(2) by (simp add: daemon_inv_def wired_def)
  moreover have "resolve f (Join ''/s'' ''a'') = [''s'', ''a'']" for f by code_simp
  ultimately show "room_for b ''a''" using assms(3,4) by (simp add: room_for_def out_path_def Let_def)
  show "blobs b = {}" using assms(3) by (auto simp: blobs_def stored_def no_file_def split: option.splits fnode.splits)
qed

lemma demo_id: "storable_id ''a''" "clean_id ''a''" "\<forall>x \<in> set ''a''. query_safe x"
  by (auto simp: storable_id_def clean_id_def normal_comp_def query_safe_def ctl_byte_def intro!: exI [of _ "[''a'']"])

lemma other_root:
  obtains r where "r \<noteq> ComputeRoot cs"
proof
  have "zero32 \<noteq> copy32 [CHR 0x01]" unfolding bytes32_eq_iff zero32_def bytes32_copy32 by (simp add: numeral_eq_Suc)
  then show "(if ComputeRoot cs = zero32 then copy32 [CHR 0x01] else zero32) \<noteq> ComputeRoot cs" by simp
qed

text \<open>Two moves of one worker.\<close>

definition demo_evs :: "event list" where
  "demo_evs = replicate 2 \<lparr>ev_worker = 0, ev_now = 4, ev_rnd = 0\<rparr>"

lemma demo_evs: "\<forall>ev \<in> set demo_evs. clock_ok (ev_now ev)" "\<forall>j < length ''x''. 2 \<le> moves j demo_evs" "clock_ok 4"
  by (simp_all add: demo_evs_def clock_ok_def moves_def numeral_eq_Suc)

end
