(* ===== verification/Replica.thy ===== *)
theory Replica
  imports Sync
begin

text \<open>
  What a node promises, without disks, databases, messages and schedules: a replica has an index of versions,
  a set of chunks, a clock, a set of files being pulled and a list of announcements.  Its moves are a local
  write, learning a timestamp, and the start and the two outcomes of a pull; a crash sets part of it back.  \<open>replica_of\<close> reads the replica off
  the state of a node, and every step of a node (\<^verbatim>\<open>internal/daemon\<close>) is a sequence of moves of its
  replica.
\<close>

section \<open>The specification\<close>

record replica =
  rp_name :: gostring
  rp_index :: "gostring \<rightharpoonup> FileMeta"
  rp_chunks :: "hash32 set"
  rp_clock :: uint64
  rp_pulls :: "gostring set"
  rp_sent :: "FileAnnouncement list"

definition new_replica :: "gostring \<Rightarrow> replica" where
  "new_replica name = \<lparr>rp_name = name, rp_index = Map.empty, rp_chunks = {}, rp_clock = 0, rp_pulls = {}, rp_sent = []\<rparr>"

definition version_ann :: "gostring \<Rightarrow> FileMeta \<Rightarrow> FileAnnouncement" where
  "version_ann name m = \<lparr>an_FileID = fm_FileID m, an_MerkleRoot = fm_MerkleRoot m, an_LamportTS = fm_LamportTS m,
     an_SourceNode = name\<rparr>"

text \<open>New chunks arrive and a version is announced; with \<open>rp_enter\<close> it also becomes the indexed one.\<close>

definition rp_tell :: "FileMeta \<Rightarrow> hash32 set \<Rightarrow> replica \<Rightarrow> replica" where
  "rp_tell m cs r = r\<lparr>rp_chunks := rp_chunks r \<union> cs, rp_sent := rp_sent r @ [version_ann (rp_name r) m]\<rparr>"

definition rp_enter :: "FileMeta \<Rightarrow> hash32 set \<Rightarrow> replica \<Rightarrow> replica" where
  "rp_enter m cs r = rp_tell m cs (r\<lparr>rp_index := (rp_index r)(fm_FileID m \<mapsto> m)\<rparr>)"

text \<open>A version is entered only with all its chunks.  A version whose identifier the database refuses
  (\<open>unindexed\<close>) is announced nevertheless: the code ignores that error.\<close>

inductive rstep :: "replica \<Rightarrow> replica \<Rightarrow> bool" where
  written: "storable_id (fm_FileID m) \<Longrightarrow> fm_LamportTS m = rp_clock r + 1 \<Longrightarrow> set (fm_ChunkHashes m) \<subseteq> rp_chunks r \<union> cs \<Longrightarrow>
    rstep r (rp_enter m cs (r\<lparr>rp_clock := rp_clock r + 1\<rparr>))"
| unindexed: "\<not> storable_id (fm_FileID m) \<Longrightarrow> fm_LamportTS m = rp_clock r + 1 \<Longrightarrow> set (fm_ChunkHashes m) \<subseteq> rp_chunks r \<union> cs \<Longrightarrow>
    rstep r (rp_tell m cs (r\<lparr>rp_clock := rp_clock r + 1\<rparr>))"
| learnt: "rstep r (r\<lparr>rp_clock := max (rp_clock r) ts\<rparr>)"
| pull_wanted: "i \<notin> rp_pulls r \<Longrightarrow> rstep r (r\<lparr>rp_pulls := insert i (rp_pulls r)\<rparr>)"
| installed: "i \<in> rp_pulls r \<Longrightarrow> storable_id (fm_FileID m) \<Longrightarrow> set (fm_ChunkHashes m) \<subseteq> rp_chunks r \<union> cs \<Longrightarrow>
    rstep r (rp_enter m cs (r\<lparr>rp_pulls := rp_pulls r - {i}\<rparr>))"
| given_up: "i \<in> rp_pulls r \<Longrightarrow> rstep r (r\<lparr>rp_chunks := rp_chunks r \<union> cs, rp_pulls := rp_pulls r - {i}\<rparr>)"

text \<open>A crash loses the clock, the pulls and the announcements, not the index and the chunks.\<close>

definition rp_reboot :: "hash32 set \<Rightarrow> replica \<Rightarrow> replica" where
  "rp_reboot cs r = r\<lparr>rp_chunks := rp_chunks r \<union> cs, rp_clock := 0, rp_pulls := {}, rp_sent := []\<rparr>"

inductive replica_reaches :: "gostring \<Rightarrow> replica \<Rightarrow> bool" for name where
  created: "replica_reaches name (new_replica name)"
| moved: "replica_reaches name r \<Longrightarrow> rstep r r' \<Longrightarrow> replica_reaches name r'"
| rebooted: "replica_reaches name r \<Longrightarrow> replica_reaches name (rp_reboot cs r)"

text \<open>What the specification guarantees: the index names versions by their identifier, each with its chunks, and
  versions that are new since some earlier state have been announced.\<close>

definition replica_ok :: "replica \<Rightarrow> bool" where
  "replica_ok r \<longleftrightarrow> (\<forall>i m. rp_index r i = Some m \<longrightarrow> fm_FileID m = i \<and> storable_id i \<and>
     set (fm_ChunkHashes m) \<subseteq> rp_chunks r)"

definition told_since :: "replica \<Rightarrow> replica \<Rightarrow> bool" where
  "told_since r0 r \<longleftrightarrow> rp_name r = rp_name r0 \<and>
     (\<forall>i m. rp_index r i = Some m \<and> rp_index r0 i \<noteq> Some m \<longrightarrow> version_ann (rp_name r) m \<in> set (rp_sent r))"

lemma replica_ok_enter:
  assumes "replica_ok r" and "storable_id (fm_FileID m)" and "set (fm_ChunkHashes m) \<subseteq> rp_chunks r \<union> cs"
  shows "replica_ok (rp_enter m cs r)"
  using assms by (auto simp: replica_ok_def rp_enter_def rp_tell_def)

lemma rstep_ok: "rstep r r' \<Longrightarrow> replica_ok r \<Longrightarrow> replica_ok r'"
proof (induction rule: rstep.induct)
  case (written m r cs)
  then show ?case by (intro replica_ok_enter) (simp_all add: replica_ok_def)
next
  case (installed i r m cs)
  then show ?case by (intro replica_ok_enter) (simp_all add: replica_ok_def)
qed (fastforce simp: replica_ok_def rp_tell_def)+

lemma reaches_ok: "replica_reaches name r \<Longrightarrow> replica_ok r"
proof (induction rule: replica_reaches.induct)
  case created
  show ?case by (simp add: replica_ok_def new_replica_def)
next
  case (moved r r')
  then show ?case by (blast intro: rstep_ok)
next
  case (rebooted r cs)
  then show ?case by (fastforce simp: replica_ok_def rp_reboot_def)
qed

lemma reaches_moves: "rstep\<^sup>*\<^sup>* r r' \<Longrightarrow> replica_reaches name r \<Longrightarrow> replica_reaches name r'"
  by (induction rule: rtranclp_induct) (auto intro: moved)

lemma rstep_told: "rstep r r' \<Longrightarrow> told_since r0 r \<Longrightarrow> told_since r0 r'"
  by (induction rule: rstep.induct) (auto simp: told_since_def rp_enter_def rp_tell_def split: if_splits)

section \<open>The replica of a node\<close>

definition sent_of :: "GossipNode \<Rightarrow> FileAnnouncement list" where
  "sent_of g = (case gn_queue g of None \<Rightarrow> [] | Some q \<Rightarrow> List.map_filter FileAnnouncement_Unmarshal q)"

definition replica_of :: "'db bolt \<Rightarrow> 'db Daemon \<Rightarrow> replica" where
  "replica_of B d =
     \<lparr>rp_name = dm_Name d, rp_index = (\<lambda>i. case GetFileMeta B (dm_db d) i of Inl e \<Rightarrow> None | Inr m \<Rightarrow> Some m),
      rp_chunks = {h. stored (dm_CAS d) (dm_fs d) h \<noteq> None}, rp_clock = dm_clock d, rp_pulls = dm_syncing d,
      rp_sent = sent_of (dm_Gossip d)\<rparr>"

lemma replica_of_sel [simp]:
  "rp_name (replica_of B d) = dm_Name d" "rp_clock (replica_of B d) = dm_clock d" "rp_pulls (replica_of B d) = dm_syncing d"
  "rp_chunks (replica_of B d) = {h. stored (dm_CAS d) (dm_fs d) h \<noteq> None}" "rp_sent (replica_of B d) = sent_of (dm_Gossip d)"
  by (simp_all add: replica_of_def)

lemma replica_of_index: "rp_index (replica_of B d) i = Some m \<longleftrightarrow> GetFileMeta B (dm_db d) i = Inr m"
  by (simp add: replica_of_def split: sum.split)

lemma replica_of_update [simp]:
  "replica_of B (d\<lparr>dm_clock := c\<rparr>) = (replica_of B d)\<lparr>rp_clock := c\<rparr>"
  "replica_of B (d\<lparr>dm_quiet := q\<rparr>) = replica_of B d" "replica_of B (d\<lparr>dm_tracker := t\<rparr>) = replica_of B d"
  "replica_of B (d\<lparr>dm_pulls := l\<rparr>) = replica_of B d" "replica_of B (d\<lparr>dm_syncing := y\<rparr>) = (replica_of B d)\<lparr>rp_pulls := y\<rparr>"
  by (simp_all add: replica_of_def)

text \<open>Gossip is up, and the name of the node can be written in JSON.\<close>

definition talking :: "'db Daemon \<Rightarrow> bool" where
  "talking d \<longleftrightarrow> gn_queue (dm_Gossip d) \<noteq> None \<and> valid_utf8 (dm_Name d)"

lemma talking_update [simp]:
  "talking (d\<lparr>dm_clock := c\<rparr>) = talking d" "talking (d\<lparr>dm_quiet := q\<rparr>) = talking d" "talking (d\<lparr>dm_tracker := t\<rparr>) = talking d"
  "talking (d\<lparr>dm_pulls := l\<rparr>) = talking d" "talking (d\<lparr>dm_syncing := y\<rparr>) = talking d" "talking (d\<lparr>dm_fs := f\<rparr>) = talking d"
  "talking (d\<lparr>dm_db := db\<rparr>) = talking d"
  by (simp_all add: talking_def)

lemma talking_announce [simp]: "talking (announce i r t d) = talking d"
  by (simp add: talking_def announce_def Broadcast_queue split: option.split)

lemma announce_replica:
  assumes "talking d" and "valid_utf8 (fm_FileID m)"
  shows "replica_of B (announce (fm_FileID m) (fm_MerkleRoot m) (fm_LamportTS m) d) =
    (replica_of B d)\<lparr>rp_sent := sent_of (dm_Gossip d) @ [version_ann (dm_Name d) m]\<rparr>"
proof -
  obtain q where "gn_queue (dm_Gossip d) = Some q" using assms(1) by (auto simp: talking_def)
  moreover have "FileAnnouncement_Unmarshal (json_print (FileAnnouncement_json (version_ann (dm_Name d) m))) =
      Some (version_ann (dm_Name d) m)"
    using assms by (intro annc.dec_enc) (simp add: version_ann_def talking_def)
  ultimately have "sent_of (Broadcast (dm_Gossip d) (version_ann (dm_Name d) m)) = sent_of (dm_Gossip d) @ [version_ann (dm_Name d) m]"
    by (simp add: sent_of_def Broadcast_queue List.map_filter_def)
  then show ?thesis by (simp add: replica_of_def announce_def version_ann_def)
qed

lemma PutFileMeta_replica:
  assumes "bolt_spec B live bucket" and "live (dm_db d)" and "valid_utf8 (fm_FileID m)"
  shows "rp_index (replica_of B (d\<lparr>dm_fs := f, dm_db := fst (PutFileMeta B (dm_db d) m)\<rparr>)) =
    (if storable_id (fm_FileID m) then (rp_index (replica_of B d))(fm_FileID m \<mapsto> m) else rp_index (replica_of B d))"
proof (cases "storable_id (fm_FileID m)")
  case True
  show ?thesis
  proof (rule PutFileMeta_spec [OF assms(1,2) True])
    fix db'
    assume "PutFileMeta B (dm_db d) m = (db', Inr ())"
      "\<And>i. GetFileMeta B db' i = (if i = fm_FileID m then Inr m else GetFileMeta B (dm_db d) i)"
    with True show ?thesis by (simp add: replica_of_def fun_eq_iff)
  qed
next
  case False
  then have "fm_FileID m = [] \<or> 32768 < length (fm_FileID m)" using assms(3) by (auto simp: storable_id_def)
  then obtain e where "bolt_Put B (dm_db d) (fm_FileID m) (json_print (FileMeta_json m)) = Inl e"
    using bolt_Put_refused [OF assms(1,2)] by blast
  with False show ?thesis by (simp add: replica_of_def PutFileMeta_def)
qed

section \<open>Every step of a node is a sequence of moves\<close>

lemma index_file_replica:
  assumes "bolt_spec B live bucket" and "daemon_inv B live d" and "talking d" and "valid_utf8 i"
    and "\<forall>ch \<in> set chunks. sha256 (ch_Data ch) = ch_Hash ch"
  shows "rstep (replica_of B d) (replica_of B (index_file B i chunks d))" and "talking (index_file B i chunks d)"
proof -
  let ?f = "put_chunks (dm_CAS d) (dm_fs d) chunks"
  let ?m = "\<lparr>fm_FileID = i, fm_MerkleRoot = ComputeRoot chunks, fm_LamportTS = dm_clock d + 1,
     fm_ChunkHashes = map ch_Hash chunks, fm_SizeBytes = total_size chunks\<rparr>"
  let ?d = "d\<lparr>dm_fs := ?f, dm_db := fst (PutFileMeta B (dm_db d) ?m)\<rparr>" and ?C = "{h. stored (dm_CAS d) ?f h \<noteq> None}"
  let ?r = "replica_of B d"
  have ok: "store_ok (dm_CAS d) (dm_fs d)" "live (dm_db d)" using assms(2) by (simp_all add: daemon_inv_def)
  note p = put_chunks_ok [OF ok(1) assms(5)]
  have idx: "rp_index (replica_of B ?d) = (if storable_id i then (rp_index ?r)(i \<mapsto> ?m) else rp_index ?r)"
    using PutFileMeta_replica [OF assms(1) ok(2), of ?m ?f] assms(4) by simp
  have C: "rp_chunks ?r \<union> ?C = ?C" "set (fm_ChunkHashes ?m) \<subseteq> rp_chunks ?r \<union> ?C" using p by auto
  have i: "index_file B i chunks d = announce (fm_FileID ?m) (fm_MerkleRoot ?m) (fm_LamportTS ?m) (?d\<lparr>dm_clock := dm_clock d + 1\<rparr>)"
    by (simp add: index_file_def nextTS_def Let_def split_def)
  then show "talking (index_file B i chunks d)" using assms(3) by simp
  have "replica_of B (index_file B i chunks d) =
      (replica_of B (?d\<lparr>dm_clock := dm_clock d + 1\<rparr>))\<lparr>rp_sent := sent_of (dm_Gossip d) @ [version_ann (dm_Name d) ?m]\<rparr>"
    unfolding i using assms(3,4) by (subst announce_replica) simp_all
  then have "replica_of B (index_file B i chunks d) =
      (if storable_id i then rp_enter ?m ?C (?r\<lparr>rp_clock := rp_clock ?r + 1\<rparr>) else rp_tell ?m ?C (?r\<lparr>rp_clock := rp_clock ?r + 1\<rparr>))"
    using idx C(1) by (simp add: rp_enter_def rp_tell_def replica_of_def)
  then show "rstep ?r (replica_of B (index_file B i chunks d))"
    using written [of ?m ?r ?C] unindexed [of ?m ?r ?C] C(2) by (cases "storable_id i") simp_all
qed

text \<open>One or no move, and gossip stays up.\<close>

definition moves_to :: "'db bolt \<Rightarrow> 'db Daemon \<Rightarrow> 'db Daemon \<Rightarrow> bool" where
  "moves_to B d d' \<longleftrightarrow> rstep\<^sup>*\<^sup>* (replica_of B d) (replica_of B d') \<and> (talking d \<longrightarrow> talking d')"

lemma moves_to_refl [simp]: "moves_to B d d"
  by (simp add: moves_to_def)

lemma moves_to_trans: "moves_to B d d' \<Longrightarrow> moves_to B d' d'' \<Longrightarrow> moves_to B d d''"
  unfolding moves_to_def by (meson rtranclp_trans)

lemma moves_to_quiet [simp]: "moves_to B (d\<lparr>dm_quiet := q\<rparr>) d' \<longleftrightarrow> moves_to B d d'" "moves_to B d (d'\<lparr>dm_quiet := q\<rparr>) \<longleftrightarrow> moves_to B d d'"
  by (simp_all add: moves_to_def)

lemma index_file_moves:
  assumes "bolt_spec B live bucket" and "daemon_inv B live d" and "talking d" and "valid_utf8 i"
    and "\<forall>ch \<in> set chunks. sha256 (ch_Data ch) = ch_Hash ch"
  shows "moves_to B d (index_file B i chunks d)"
  using index_file_replica [OF assms] by (simp add: moves_to_def)

lemma observe_moves: "moves_to B d (d\<lparr>dm_clock := observeTS (dm_clock d) ts\<rparr>)"
proof -
  have "observeTS (dm_clock d) ts = max (rp_clock (replica_of B d)) ts"
    using linear [of ts "dm_clock d"] by (auto simp: observeTS_def max_def)
  then show ?thesis using learnt [of "replica_of B d" ts] by (simp add: moves_to_def)
qed

lemma trigger_moves: "triggerSync members i d = Some d' \<Longrightarrow> moves_to B d d'"
  using pull_wanted [of i "replica_of B d"]
  by (auto simp: triggerSync_def moves_to_def split: if_splits option.splits)

lemma announcement_moves:
  assumes "handleAnnouncement B members ann d = Some d'"
  shows "moves_to B d d'"
proof -
  let ?d = "d\<lparr>dm_clock := observeTS (dm_clock d) (an_LamportTS ann)\<rparr>"
  have "d' = d \<or> d' = ?d \<or> triggerSync members (an_FileID ann) ?d = Some d'"
    using assms by (auto simp: handleAnnouncement_def Let_def split: if_splits sum.splits)
  then show ?thesis using observe_moves moves_to_trans [OF observe_moves trigger_moves] by (metis moves_to_refl)
qed

lemma catalog_moves: "reconcile_entries B members peer es d = Some d' \<Longrightarrow> moves_to B d d'"
proof (induction es arbitrary: d)
  case (Cons entry es)
  let ?d = "d\<lparr>dm_clock := observeTS (dm_clock d) (ce_LamportTS entry)\<rparr>"
  show ?case
  proof (cases "reconcile_entries B members peer es d = Some d'")
    case False
    with Cons.prems obtain d1 where t: "triggerSync members (ce_FileID entry) ?d = Some d1" and r: "reconcile_entries B members peer es d1 = Some d'"
      by (auto split: if_splits option.splits)
    have "moves_to B d d1" by (rule moves_to_trans [OF observe_moves trigger_moves [OF t]])
    then show ?thesis using Cons.IH [OF r] by (rule moves_to_trans)
  qed (rule Cons.IH)
qed simp

lemma finish_pull_announced:
  "finish_pull B e fileID rm s = (s', Inl err) \<Longrightarrow> pl_announced s' = pl_announced s"
  "finish_pull B e fileID rm s = (s', Inr ok) \<Longrightarrow>
    pl_announced s' = pl_announced s @ [(fm_FileID rm, fm_MerkleRoot rm, fm_LamportTS rm)] \<and> PutFileMeta B (pl_db s) rm = (pl_db s', Inr ())"
proof -
  show "finish_pull B e fileID rm s = (s', Inl err) \<Longrightarrow> pl_announced s' = pl_announced s"
    by (auto simp: finish_pull_def Let_def split: prod.split_asm sum.split_asm)
qed (elim finish_pull_parts; simp)

text \<open>A pull saves and announces one version, or nothing.\<close>

lemma Pull_outcome:
  assumes "daemon_inv B live d" and "fits net d"
    and "Pull B dial net srt (dm_Engine d) now order evs fileID peers (pull_state_of d) = Some (s', r)"
  obtains (unchanged) "pl_db s' = dm_db d" and "pl_announced s' = []"
  | (got) rm where "PutFileMeta B (dm_db d) rm = (pl_db s', Inr ())" and "valid_utf8 (fm_FileID rm)"
      and "pl_announced s' = [(fm_FileID rm, fm_MerkleRoot rm, fm_LamportTS rm)]"
proof -
  have sel: "pl_db (pull_state_of d) = dm_db d" "pl_announced (pull_state_of d) = []" by (simp_all add: pull_state_of_def)
  show thesis
    using assms(3)
  proof (cases rule: Pull_cases)
    case early
    with sel show thesis by (intro unchanged) simp_all
  next
    case (failed tr f ws errs started)
    with sel show thesis by (intro unchanged) simp_all
  next
    case (assembled tr f ws started localRoot known dr rm)
    have "\<And>a. a \<in> set (map GRPCAddr peers) \<Longrightarrow> grpc_map peers a \<noteq> None" using grpc_map_dom by auto
    from select_source_ok [OF assembled(1) this]
    obtain h where "FetchMeta (net now) (en_Client (dm_Engine d)) now h fileID = Inr rm" by blast
    then have u: "valid_utf8 (fm_FileID rm)" using assms(1,2) by (auto simp: fits_def daemon_inv_def wired_def)
    show thesis
    proof (cases r)
      case (Inl err)
      note fin = assembled(3) [unfolded Inl]
      show thesis using finish_pull_failed_db [OF fin] finish_pull_announced(1) [OF fin] sel by (intro unchanged) simp_all
    next
      case (Inr ok)
      show thesis using finish_pull_announced(2) [OF assembled(3) [unfolded Inr]] u sel by (intro got) simp_all
    qed
  qed
qed

lemma after_pull_replica:
  assumes "bolt_spec B live bucket" and "daemon_inv B live d" and "talking d" and "fits net d" and "clean_id fileID"
    and "Pull B dial net srt (dm_Engine d) now order evs fileID peers (pull_state_of d) = Some (s', r)"
    and "fileID \<in> dm_syncing d"
  shows "rstep (replica_of B d) ((replica_of B (after_pull now s' d))\<lparr>rp_pulls := dm_syncing d - {fileID}\<rparr>)"
    and "talking (after_pull now s' d)"
proof -
  let ?r = "replica_of B d" and ?C = "{h. stored (dm_CAS d) (pl_fs s') h \<noteq> None}"
  let ?q = "foldl (\<lambda>q p. Mark q now p) (dm_quiet d) (pl_quiet s')"
  let ?d = "d\<lparr>dm_fs := pl_fs s', dm_db := pl_db s'\<rparr>"
  have k: "pull_keeps B live d (pl_fs s') (pl_db s')" using assms(6) by (rule Pull_keeps [OF assms(1,2,5,4)])
  then have C: "rp_chunks ?r \<union> ?C = ?C" by (auto simp: pull_keeps_def)
  have live: "live (dm_db d)" using assms(2) by (simp add: daemon_inv_def)
  have "rstep ?r ((replica_of B (after_pull now s' d))\<lparr>rp_pulls := dm_syncing d - {fileID}\<rparr>) \<and> talking (after_pull now s' d)"
    using assms(2,4,6)
  proof (cases rule: Pull_outcome)
    case unchanged
    then have "(replica_of B (after_pull now s' d))\<lparr>rp_pulls := dm_syncing d - {fileID}\<rparr> =
        ?r\<lparr>rp_chunks := rp_chunks ?r \<union> ?C, rp_pulls := rp_pulls ?r - {fileID}\<rparr>"
      unfolding C by (simp add: after_pull_def replica_of_def)
    moreover have "talking (after_pull now s' d)" using unchanged assms(3) by (simp add: after_pull_def)
    ultimately show ?thesis using given_up [of fileID ?r ?C] assms(7) by simp
  next
    case (got rm)
    have st: "storable_id (fm_FileID rm)"
    proof (rule ccontr)
      assume "\<not> storable_id (fm_FileID rm)"
      then have "fm_FileID rm = [] \<or> 32768 < length (fm_FileID rm)" using got(2) by (auto simp: storable_id_def)
      then obtain e where "bolt_Put B (dm_db d) (fm_FileID rm) (json_print (FileMeta_json rm)) = Inl e"
        using bolt_Put_refused [OF assms(1) live] by blast
      with got(1) show False by (simp add: PutFileMeta_def)
    qed
    have idx: "rp_index (replica_of B ?d) = (rp_index ?r)(fm_FileID rm \<mapsto> rm)"
      using PutFileMeta_replica [OF assms(1) live got(2), of "pl_fs s'"] got(1) st by simp
    then have "GetFileMeta B (pl_db s') (fm_FileID rm) = Inr rm" using replica_of_index [of B ?d "fm_FileID rm" rm] by simp
    moreover have "indexed B d" using assms(2) by (simp add: daemon_inv_def)
    ultimately have cs: "set (fm_ChunkHashes rm) \<subseteq> rp_chunks ?r \<union> ?C"
      unfolding C using k unfolding pull_keeps_def indexed_def by blast
    have "after_pull now s' d = announce (fm_FileID rm) (fm_MerkleRoot rm) (fm_LamportTS rm)
        (?d\<lparr>dm_tracker := pl_tracker s'\<rparr>\<lparr>dm_quiet := ?q\<rparr>)"
      using got(3) by (simp add: after_pull_def)
    then have "replica_of B (after_pull now s' d) = (replica_of B ?d)\<lparr>rp_sent := sent_of (dm_Gossip d) @ [version_ann (dm_Name d) rm]\<rparr>"
      and t: "talking (after_pull now s' d)"
      using assms(3) got(2) by (simp_all add: announce_replica)
    then have "(replica_of B (after_pull now s' d))\<lparr>rp_pulls := dm_syncing d - {fileID}\<rparr> = rp_enter rm ?C (?r\<lparr>rp_pulls := rp_pulls ?r - {fileID}\<rparr>)"
      using idx C by (simp add: rp_enter_def rp_tell_def replica_of_def)
    then show ?thesis using installed [of fileID ?r rm ?C] assms(7) st cs t by simp
  qed
  then show "rstep ?r ((replica_of B (after_pull now s' d))\<lparr>rp_pulls := dm_syncing d - {fileID}\<rparr>)"
    "talking (after_pull now s' d)" by simp_all
qed

lemma finish_sync_moves:
  assumes "bolt_spec B live bucket" and "daemon_inv B live d" and "talking d" and "i < length (dm_pulls d)"
    and "clean_id (fst (dm_pulls d ! i))" and "fits net d"
    and "finish_sync B dial net srt now order evs i d = Some d'"
  shows "moves_to B d d'"
proof -
  obtain fileID peers where p: "dm_pulls d ! i = (fileID, peers)" by (rule prod.exhaust)
  with assms(7) obtain s r where
    pull: "Pull B dial net srt (dm_Engine d) now order evs fileID peers (pull_state_of d) = Some (s, r)"
    and d': "d' = (after_pull now s d)\<lparr>dm_syncing := dm_syncing (after_pull now s d) - {fileID},
        dm_pulls := take i (dm_pulls (after_pull now s d)) @ drop (Suc i) (dm_pulls (after_pull now s d))\<rparr>"
    by (auto simp: finish_sync_def Let_def split: option.splits)
  have sync: "dm_syncing (after_pull now s d) = dm_syncing d" by (simp add: after_pull_def foldl_announce)
  have c: "clean_id fileID" using assms(5) p by simp
  have "dm_pulls d ! i \<in> set (dm_pulls d)" using assms(4) by simp
  then have "fileID \<in> dm_syncing d" using assms(2) p by (force simp: daemon_inv_def)
  note m = after_pull_replica [OF assms(1-3,6) c pull this]
  then show ?thesis by (simp add: d' moves_to_def sync r_into_rtranclp)
qed

lemma dstep_moves:
  assumes "dstep C B d d'" and "bolt_spec B live bucket" and "daemon_inv B live d" and "talking d"
  shows "moves_to B d d'"
  using assms(1)
proof (cases rule: dstep.cases)
  case (file_changed path now)
  then obtain q where "d' = d \<or> d' = d\<lparr>dm_quiet := q\<rparr> \<or> (\<exists>chunks. ChunkFile C (NewFastCDCChunker 8192) (dm_fs d) path =
      Some (Inr chunks) \<and> d' = index_file B (file_id d path) chunks (d\<lparr>dm_quiet := q\<rparr>))"
    unfolding HandleFileChange_def Let_def by (auto split: if_split_asm prod.split_asm option.split_asm sum.split_asm)
  moreover have "moves_to B (d\<lparr>dm_quiet := q\<rparr>) (index_file B (file_id d path) chunks (d\<lparr>dm_quiet := q\<rparr>))"
    if "ChunkFile C (NewFastCDCChunker 8192) (dm_fs d) path = Some (Inr chunks)" for chunks
    using assms(3,4) file_changed(1) ChunkFile_hashes [OF that] by (intro index_file_moves [OF assms(2)]) simp_all
  ultimately show ?thesis by auto
next
  case (announced members ann)
  then show ?thesis by (rule announcement_moves)
next
  case (reconciled net members now peer)
  then show ?thesis by (auto simp: reconcileWithPeer_def split: sum.splits intro: catalog_moves)
next
  case (api_called r members body status)
  let ?path = "query_Get (uri_query (rq_URI r)) ''path''"
  have "d' = d \<or> (\<exists>chunks. ChunkFile C (NewFastCDCChunker 8192) (dm_fs d) ?path = Some (Inr chunks) \<and>
      d' = index_file B ?path chunks d) \<or> (\<exists>fileID. triggerSync members fileID d = Some d')"
    using api_called(2)
    by (auto simp: api_serve_def api_ingest_def api_sync_def Let_def split: if_split_asm option.split_asm sum.split_asm)
  then show ?thesis
    using index_file_moves [OF assms(2-4) api_called(1)] ChunkFile_hashes trigger_moves moves_to_refl by blast
next
  case (synced i net dial srt now order evs)
  then show ?thesis by (intro finish_sync_moves [OF assms(2-4)])
next
  case (user f)
  then have "same_data (dm_CAS d) (dm_fs d) f" by (simp add: user_change_def same_data_def)
  from same_data_keeps(2) [OF this] user show ?thesis by (simp add: moves_to_def replica_of_def)
qed

lemma started_replica:
  assumes "NewDaemon B watch f now name syncDir dataDir httpPort grpcPort gossipPort secret = (f0, Inr d0)"
    and "daemon_Start create join seeds d0 = Some d" and "valid_utf8 name"
  shows "replica_of B d = \<lparr>rp_name = name, rp_index = rp_index (replica_of B d0), rp_chunks = rp_chunks (replica_of B d0),
      rp_clock = 0, rp_pulls = {}, rp_sent = []\<rparr>"
    and "talking d" and "dm_Name d = name"
proof -
  have n: "dm_clock d0 = 0" "dm_syncing d0 = {}" "dm_Name d0 = name" using NewDaemon_cases [OF assms(1)] by blast+
  have g: "\<exists>g. d = d0\<lparr>dm_Gossip := g\<rparr> \<and> gn_queue g = Some []"
    using assms(2) by (auto simp: daemon_Start_def gossip_Start_def OnAnnouncement_def Let_def split: if_splits sum.splits prod.splits)
  then show "replica_of B d = \<lparr>rp_name = name, rp_index = rp_index (replica_of B d0), rp_chunks = rp_chunks (replica_of B d0),
      rp_clock = 0, rp_pulls = {}, rp_sent = []\<rparr>"
    by (auto simp: replica_of_def n sent_of_def List.map_filter_simps)
  from g show "talking d" "dm_Name d = name" using assms(3) n by (auto simp: talking_def)
qed

text \<open>The contract between an implementation and its specification: a step that starts in a good state is a
  sequence of moves of the specification and ends in a good state.\<close>

locale simulation =
  fixes step :: "'c \<Rightarrow> 'c \<Rightarrow> bool" and move :: "'a \<Rightarrow> 'a \<Rightarrow> bool" and abs_of :: "'c \<Rightarrow> 'a" and good :: "'c \<Rightarrow> bool"
  assumes sim_step: "good c \<Longrightarrow> step c c' \<Longrightarrow> move\<^sup>*\<^sup>* (abs_of c) (abs_of c')"
    and sim_good: "good c \<Longrightarrow> step c c' \<Longrightarrow> good c'"
begin

lemma sim_runs:
  assumes "step\<^sup>*\<^sup>* c c'" and "good c"
  shows "move\<^sup>*\<^sup>* (abs_of c) (abs_of c') \<and> good c'"
  using assms(1)
proof (induction rule: rtranclp_induct)
  case (step c1 c2)
  then show ?case using sim_step sim_good by (meson rtranclp_trans)
qed (simp add: assms(2))

lemma sim_invariant:
  assumes "step\<^sup>*\<^sup>* c c'" and "good c" and "P (abs_of c)" and "\<And>a a'. move a a' \<Longrightarrow> P a \<Longrightarrow> P a'"
  shows "P (abs_of c')"
proof -
  have "move\<^sup>*\<^sup>* (abs_of c) (abs_of c')" using sim_runs [OF assms(1,2)] ..
  then show ?thesis using assms(3) by (induction rule: rtranclp_induct) (use assms(4) in blast)+
qed

end

definition good_node :: "'db bolt \<Rightarrow> ('db \<Rightarrow> bool) \<Rightarrow> 'db Daemon \<Rightarrow> bool" where
  "good_node B live d \<longleftrightarrow> (\<exists>bucket. bolt_spec B live bucket) \<and> daemon_inv B live d \<and> talking d"

interpretation node: simulation "dstep C B" rstep "replica_of B" "good_node B live" for C B live
proof
  fix d d'
  assume "good_node B live d" and step: "dstep C B d d'"
  then obtain bucket where g: "bolt_spec B live bucket" "daemon_inv B live d" "talking d" by (auto simp: good_node_def)
  note m = dstep_moves [OF step g]
  show "rstep\<^sup>*\<^sup>* (replica_of B d) (replica_of B d')" using m by (simp add: moves_to_def)
  have "talking d'" using m g(3) by (simp add: moves_to_def)
  then show "good_node B live d'" using dstep_inv [OF step g(1,2)] g(1) by (auto simp: good_node_def)
qed

lemma running_replica:
  assumes "running C B live secret d" and "bolt_spec B live bucket" and "valid_utf8 (dm_Name d)"
  shows "replica_reaches (dm_Name d) (replica_of B d) \<and> talking d"
  using assms(1,3)
proof induction
  case (booted watch f now name syncDir dataDir httpPort grpcPort gossipPort f0 d0 create join seeds d)
  have n: "dm_Name d = name" using booted(3) NewDaemon_cases [OF booted(1)] by (force simp: daemon_Start_def split: prod.splits sum.splits)
  note st = started_replica [OF booted(1,3)]
  have "GetFileMeta B (dm_db d0) i \<noteq> Inr m" for i m
    using booted(2) NewDaemon_cases [OF booted(1)] unfolding fresh_start_def by metis
  then have "rp_index (replica_of B d0) = Map.empty" by (auto simp: replica_of_def fun_eq_iff split: sum.split)
  with st booted(4) n NewDaemon_inv(2) [OF booted(1,2)] have "replica_of B d = new_replica name" by (simp add: new_replica_def)
  then show ?case using st(2) booted(4) n created by simp
next
  case (stepped d d')
  have "dm_Name d' = dm_Name d" using dstep_parts [OF stepped(2)] by (simp add: parts_def)
  then have IH: "replica_reaches (dm_Name d') (replica_of B d)" "talking d" using stepped by simp_all
  have m: "moves_to B d d'" by (rule dstep_moves [OF stepped(2) assms(2) running_inv [OF stepped(1) assms(2)] IH(2)])
  show ?case using m IH reaches_moves by (auto simp: moves_to_def)
next
  case (restarted d f watch now httpPort grpcPort gossipPort f0 d0 create join seeds d')
  have n: "dm_Name d' = dm_Name d"
    using restarted(5) NewDaemon_cases [OF restarted(3)] by (force simp: daemon_Start_def split: prod.splits sum.splits)
  have u: "valid_utf8 (dm_Name d)" using restarted(7) n by simp
  note st = started_replica [OF restarted(3,5) u]
  have "stored (dm_CAS d0) (dm_fs d0) = stored (dm_CAS d) f"
    by (rule restart_inv(2) [OF running_inv [OF restarted(1) assms(2)] restarted(2,4,3)])
  then have c: "rp_chunks (replica_of B d0) = rp_chunks (replica_of B d) \<union> {h. stored (dm_CAS d) f h \<noteq> None}"
    using restarted(2) by (auto simp: survives_def)
  have "rp_index (replica_of B d0) = rp_index (replica_of B d)" using restarted(4) by (simp add: replica_of_def reopened_def)
  then have "replica_of B d' = rp_reboot {h. stored (dm_CAS d) f h \<noteq> None} (replica_of B d)"
    using st(1) c by (simp add: rp_reboot_def replica_of_def)
  then show ?case using st(2) n restarted(6) u rebooted by simp
qed

lemma running_index:
  assumes "running C B live secret d" and "bolt_spec B live bucket" and "valid_utf8 (dm_Name d)" and "GetFileMeta B (dm_db d) i = Inr m"
  shows "fm_FileID m = i \<and> storable_id i"
proof -
  have "replica_ok (replica_of B d)" using running_replica [OF assms(1-3)] reaches_ok by blast
  with assms(4) show ?thesis unfolding replica_ok_def replica_of_index by blast
qed

section \<open>Properties\<close>

text \<open>C5. A node implements the replica.  Every state a node reaches, through crashes and restarts, is one the specification
  reaches; every sequence of steps (a change on disk, an announcement, a catalog, an API call, the end of a pull under any
  schedule and any behaviour of the peers, an edit by the user) is a sequence of moves of its replica; every version in the
  index is filed under its own identifier, which the database can hold; and every version that entered the index on the way has been announced.\<close>

theorem replica_refinement:
  assumes "bolt_spec B live bucket" and "running C B live secret d" and "valid_utf8 (dm_Name d)"
  shows "replica_reaches (dm_Name d) (replica_of B d) \<and>
    ((dstep C B)\<^sup>*\<^sup>* d d' \<longrightarrow> rstep\<^sup>*\<^sup>* (replica_of B d) (replica_of B d')) \<and>
    (GetFileMeta B (dm_db d) i = Inr m \<longrightarrow> fm_FileID m = i \<and> storable_id i) \<and>
    ((dstep C B)\<^sup>*\<^sup>* d d' \<and> GetFileMeta B (dm_db d') i = Inr m \<and> GetFileMeta B (dm_db d) i \<noteq> Inr m \<longrightarrow>
      version_ann (dm_Name d) m \<in> set (sent_of (dm_Gossip d')))"
proof -
  note r = running_replica [OF assms(2,1,3)]
  have good: "good_node B live d" using r assms(1) running_inv [OF assms(2,1)] by (auto simp: good_node_def)
  have "fm_FileID m = i \<and> storable_id i" if "GetFileMeta B (dm_db d) i = Inr m"
    using running_index [OF assms(2,1,3) that] .
  moreover have "version_ann (dm_Name d) m \<in> set (sent_of (dm_Gossip d'))"
    if s: "(dstep C B)\<^sup>*\<^sup>* d d'" and m: "GetFileMeta B (dm_db d') i = Inr m" "GetFileMeta B (dm_db d) i \<noteq> Inr m"
  proof -
    have "told_since (replica_of B d) (replica_of B d)" by (simp add: told_since_def)
    then have "told_since (replica_of B d) (replica_of B d')"
      using rstep_told by (rule node.sim_invariant [OF s good, where P = "told_since (replica_of B d)"])
    with m show ?thesis unfolding told_since_def replica_of_index by auto
  qed
  ultimately show ?thesis using r node.sim_runs [OF _ good] by blast
qed

theorem replica_refinement_witness:
  "\<exists>d d'. running fixed_cdc list_bolt kv_sorted ''k'' d \<and> HandleFileChange fixed_cdc list_bolt 0 ''/s/a'' d = Some d' \<and>
     dm_clock d' \<noteq> dm_clock d \<and> replica_reaches ''n'' (replica_of list_bolt d) \<and>
     rstep\<^sup>*\<^sup>* (replica_of list_bolt d) (replica_of list_bolt d')"
proof (rule demo_source [where name = "''n''"])
  fix d d'
  assume d: "running fixed_cdc list_bolt kv_sorted ''k'' d" "dm_Name d = ''n''" "file_id d ''/s/a'' = ''a''"
    "HandleFileChange fixed_cdc list_bolt 0 ''/s/a'' d = Some d'" "dm_clock d' \<noteq> dm_clock d"
  have u: "valid_utf8 (dm_Name d)" "valid_utf8 (file_id d ''/s/a'')" using d(2,3) by (simp_all add: ascii_valid_utf8)
  have "dstep fixed_cdc list_bolt d d'" using u(2) d(4) by (rule file_changed)
  then have "(dstep fixed_cdc list_bolt)\<^sup>*\<^sup>* d d'" by simp
  with replica_refinement [OF list_bolt_spec d(1) u(1), of d'] d show ?thesis by (intro exI [of _ d] exI [of _ d']) simp
qed

end
