(* ===== verification/Cluster.thy ===== *)
theory Cluster
  imports Node Replica
begin

text \<open>
  Running nodes that talk to each other, beyond a single announcement: what it means that two nodes have nothing left to
  tell each other, how anti-entropy brings a file over whose announcement was lost, and how the order of the peers
  decides what a pull does.
\<close>

section \<open>Comparing catalogs over the network\<close>

lemma catalog_fetched:
  assumes "peer_serves dial net S partial sem clk A a p now" and "clock_ok t" and "running C A live secret a"
    and "bolt_spec A live bucket" and "valid_utf8 (dm_Name a)" and "ha_secret (cl_signer c) = secret"
  obtains es where "FetchCatalog (net t) c t (HTTPAddr p) = Inr es"
    and "\<And>e. e \<in> set es \<longleftrightarrow> (\<exists>i m. GetFileMeta A (dm_db a) i = Inr m \<and> e = catalog_entry m)"
proof -
  have s: "http_serves (net t) (HTTPAddr p) S partial A (dm_db a) (dm_Server a) sem (dm_fs a) (clk t)" "plain_host (HTTPAddr p)"
    and ns: "\<not> skewed (clk t) (now_Unix t)"
    using assms(1,2) not_skewed_window [of t "clk t"] by (auto simp: peer_serves_def)
  note ok = running_ok [OF assms(3,4)]
  have sec: "ha_secret (sv_verifier (dm_Server a)) = ha_secret (cl_signer c)" using ok(2) assms(6) by (simp add: linked_def)
  have "live (dm_db a)" using ok(1) by (simp add: daemon_inv_def)
  from assms(4) this show thesis
  proof (rule ListCatalog_spec)
    fix es
    assume es: "ListCatalog A (dm_db a) = Inr es" "\<And>e. e \<in> set es \<longleftrightarrow> (\<exists>i m. GetFileMeta A (dm_db a) i = Inr m \<and> e = catalog_entry m)"
    have "valid_utf8 (ce_FileID e)" if "e \<in> set es" for e
    proof -
      obtain i m where "GetFileMeta A (dm_db a) i = Inr m" "e = catalog_entry m" using es(2) \<open>e \<in> set es\<close> by blast
      with running_index [OF assms(3-5)] show ?thesis by (auto simp: catalog_entry_def storable_id_def)
    qed
    with FetchCatalog_served [OF s sec assms(2) ns] es(1) have "FetchCatalog (net t) c t (HTTPAddr p) = Inr es" by blast
    then show thesis using es(2) by (rule that)
  qed
qed

text \<open>A node wants nothing of what another one has.\<close>

definition all_known :: "'db bolt \<Rightarrow> 'db Daemon \<Rightarrow> 'e bolt \<Rightarrow> 'e Daemon \<Rightarrow> PeerInfo \<Rightarrow> bool" where
  "all_known A a B b p \<longleftrightarrow> (\<forall>i m. GetFileMeta A (dm_db a) i = Inr m \<longrightarrow> \<not> wanted B b p (catalog_entry m))"

lemma reconcile_served:
  assumes "peer_serves dial net S partial sem clk A a p now" and "clock_ok t" and "running C A live secret a"
    and "bolt_spec A live bucket" and "valid_utf8 (dm_Name a)" and "running C' B live' secret b" and "bolt_spec B live' bucket'"
  obtains b' where "reconcileWithPeer B (net t) members t p b = Some b'" and "moved_on members b b'" and "running C' B live' secret b'"
    and "\<And>i m. GetFileMeta A (dm_db a) i = Inr m \<Longrightarrow> wanted B b p (catalog_entry m) \<Longrightarrow>
      i \<in> dm_syncing b' \<and> fm_LamportTS m \<le> dm_clock b'"
    and "all_known A a B b p \<Longrightarrow> b' = b"
proof -
  have "ha_secret (cl_signer (dm_Client b)) = secret" using running_ok(2) [OF assms(6,7)] by (simp add: linked_def)
  from assms(1-5) this show thesis
  proof (rule catalog_fetched)
    fix es
    assume es: "FetchCatalog (net t) (dm_Client b) t (HTTPAddr p) = Inr es"
      "\<And>e. e \<in> set es \<longleftrightarrow> (\<exists>i m. GetFileMeta A (dm_db a) i = Inr m \<and> e = catalog_entry m)"
    obtain b' where b': "reconcile_entries B members p es b = Some b'" "moved_on members b b'"
      "\<forall>e \<in> set es. wanted B b p e \<longrightarrow> ce_FileID e \<in> dm_syncing b' \<and> ce_LamportTS e \<le> dm_clock b'"
      using reconcile_moves [OF running_list [OF assms(6)], of B members p es] by blast
    have r: "reconcileWithPeer B (net t) members t p b = Some b'" using es(1) b'(1) by (simp add: reconcileWithPeer_def)
    have got: "i \<in> dm_syncing b' \<and> fm_LamportTS m \<le> dm_clock b'"
      if m: "GetFileMeta A (dm_db a) i = Inr m" "wanted B b p (catalog_entry m)" for i m
    proof -
      have "catalog_entry m \<in> set es" using es(2) m(1) by blast
      with b'(3) m(2) running_index [OF assms(3-5) m(1)] show ?thesis by (auto simp: catalog_entry_def)
    qed
    have none: "b' = b" if "all_known A a B b p"
    proof -
      have "\<forall>e \<in> set es. \<not> wanted B b p e" using that by (auto simp: es(2) all_known_def)
      from reconcile_none [OF this] b'(1) show ?thesis by simp
    qed
    have "running C' B live' secret b'" using assms(6) reconciled [OF r] by (rule stepped)
    from that [OF r b'(2) this got none] show thesis by blast
  qed
qed

section \<open>Agreement\<close>

definition root_at :: "'db bolt \<Rightarrow> 'db Daemon \<Rightarrow> gostring \<Rightarrow> hash32 option" where
  "root_at B d i = (case GetFileMeta B (dm_db d) i of Inl e \<Rightarrow> None | Inr m \<Rightarrow> Some (fm_MerkleRoot m))"

definition agree :: "'db bolt \<Rightarrow> 'db Daemon \<Rightarrow> 'e bolt \<Rightarrow> 'e Daemon \<Rightarrow> bool" where
  "agree A a B b \<longleftrightarrow> (\<forall>i. Ext i \<noteq> ''.db'' \<longrightarrow> root_at A a i = root_at B b i)"

text \<open>No node wants an entry of the other exactly if they agree: of two different versions one wins, seen from either side.\<close>

lemma remoteWins_total: "n \<noteq> n' \<Longrightarrow> remoteWins t n t' n' \<or> remoteWins t' n' t n"
  by (auto simp: remoteWins_def)

lemma wanted_entry:
  assumes "fm_FileID m = i"
  shows "wanted B b p (catalog_entry m) \<longleftrightarrow> Ext i \<noteq> ''.db'' \<and> (case GetFileMeta B (dm_db b) i of
    Inr loc \<Rightarrow> fm_MerkleRoot loc \<noteq> fm_MerkleRoot m \<and> remoteWins (fm_LamportTS loc) (dm_Name b) (fm_LamportTS m) (pi_Name p)
  | Inl e \<Rightarrow> True)"
  unfolding wanted_def using assms by (auto simp: catalog_entry_def split: sum.split)

lemma agree_all_known:
  assumes "\<And>i m. GetFileMeta A (dm_db a) i = Inr m \<Longrightarrow> fm_FileID m = i" and "agree A a B b"
  shows "all_known A a B b p"
  unfolding all_known_def
proof (intro allI impI)
  fix i m
  assume m: "GetFileMeta A (dm_db a) i = Inr m"
  with assms(2) have "Ext i \<noteq> ''.db'' \<longrightarrow> root_at B b i = Some (fm_MerkleRoot m)" by (auto simp: agree_def root_at_def)
  then show "\<not> wanted B b p (catalog_entry m)"
    unfolding wanted_entry [OF assms(1) [OF m]] by (auto simp: root_at_def split: sum.splits)
qed

lemma all_known_agree:
  assumes "pi_Name p = dm_Name a" and "pi_Name q = dm_Name b" and "dm_Name a \<noteq> dm_Name b"
    and "\<And>i m. GetFileMeta A (dm_db a) i = Inr m \<Longrightarrow> fm_FileID m = i" and "\<And>i m. GetFileMeta B (dm_db b) i = Inr m \<Longrightarrow> fm_FileID m = i"
    and "all_known A a B b p" and "all_known B b A a q"
  shows "agree A a B b"
  unfolding agree_def
proof (intro allI impI)
  fix i
  assume e: "Ext i \<noteq> ''.db''"
  have ab: "\<not> wanted B b p (catalog_entry m)" if "GetFileMeta A (dm_db a) i = Inr m" for m using assms(6) that by (simp add: all_known_def)
  have ba: "\<not> wanted A a q (catalog_entry m)" if "GetFileMeta B (dm_db b) i = Inr m" for m using assms(7) that by (simp add: all_known_def)
  show "root_at A a i = root_at B b i"
  proof (cases "GetFileMeta A (dm_db a) i"; cases "GetFileMeta B (dm_db b) i")
    fix m m'
    assume m: "GetFileMeta A (dm_db a) i = Inr m" "GetFileMeta B (dm_db b) i = Inr m'"
    have "fm_MerkleRoot m = fm_MerkleRoot m'"
      using ab [OF m(1)] ba [OF m(2)] e m remoteWins_total [OF assms(3), of "fm_LamportTS m" "fm_LamportTS m'"] assms(1,2)
      unfolding wanted_entry [OF assms(4) [OF m(1)]] wanted_entry [OF assms(5) [OF m(2)]] by auto
    with m show ?thesis by (simp add: root_at_def)
  next
    fix x m'
    assume m: "GetFileMeta A (dm_db a) i = Inl x" "GetFileMeta B (dm_db b) i = Inr m'"
    with ba [OF m(2)] e show ?thesis unfolding wanted_entry [OF assms(5) [OF m(2)]] by simp
  next
    fix m x
    assume m: "GetFileMeta A (dm_db a) i = Inr m" "GetFileMeta B (dm_db b) i = Inl x"
    with ab [OF m(1)] e show ?thesis unfolding wanted_entry [OF assms(4) [OF m(1)]] by simp
  qed (simp add: root_at_def)
qed

text \<open>C3. Two nodes have nothing left to tell each other exactly if they agree.  Let two running nodes with different names
  each compare catalogs with the other while neither is pulling anything.  Both comparisons go through, and afterwards
  still neither is pulling anything if and only if, for every file that is synchronised at all, both index the same
  Merkle root or neither knows the file: a difference is never overlooked by both sides, and equal contents start
  no pull whatever the timestamps are.\<close>

theorem catalogs_agree:
  assumes "bolt_spec A live bucket" and "bolt_spec B live' bucket'" and "running C A live secret a" and "running C' B live' secret b"
    and "valid_utf8 (dm_Name a)" and "valid_utf8 (dm_Name b)" and "dm_Name a \<noteq> dm_Name b"
    and "pi_Name p = dm_Name a" and "pi_Name q = dm_Name b"
    and "peer_serves dial net S partial sem clk A a p now" and "peer_serves dial' net' S' partial' sem' clk' B b q now'"
    and "clock_ok t" and "clock_ok t'" and "dm_syncing a = {}" and "dm_syncing b = {}"
  shows "\<exists>a' b'. reconcileWithPeer A (net' t') members' t' q a = Some a' \<and> reconcileWithPeer B (net t) members t p b = Some b' \<and>
    (dm_syncing a' = {} \<and> dm_syncing b' = {} \<longleftrightarrow> agree A a B b)"
proof -
  note ida = conjunct1 [OF running_index [OF assms(3,1,5)]] and idb = conjunct1 [OF running_index [OF assms(4,2,6)]]
  obtain b' where b': "reconcileWithPeer B (net t) members t p b = Some b'"
      "\<And>i m. GetFileMeta A (dm_db a) i = Inr m \<Longrightarrow> wanted B b p (catalog_entry m) \<Longrightarrow> i \<in> dm_syncing b' \<and> fm_LamportTS m \<le> dm_clock b'"
      "all_known A a B b p \<Longrightarrow> b' = b"
    by (rule reconcile_served [OF assms(10,12,3,1,5,4,2)]) blast
  obtain a' where a': "reconcileWithPeer A (net' t') members' t' q a = Some a'"
      "\<And>i m. GetFileMeta B (dm_db b) i = Inr m \<Longrightarrow> wanted A a q (catalog_entry m) \<Longrightarrow> i \<in> dm_syncing a' \<and> fm_LamportTS m \<le> dm_clock a'"
      "all_known B b A a q \<Longrightarrow> a' = a"
    by (rule reconcile_served [OF assms(11,13,4,2,6,3,1)]) blast
  have "dm_syncing a' = {} \<and> dm_syncing b' = {} \<longleftrightarrow> agree A a B b"
  proof
    assume "dm_syncing a' = {} \<and> dm_syncing b' = {}"
    then have "all_known A a B b p" "all_known B b A a q" unfolding all_known_def using a'(2) b'(2) by fastforce+
    then show "agree A a B b" by (intro all_known_agree [OF assms(8,9,7)] ida idb)
  next
    assume g: "agree A a B b"
    then have g': "agree B b A a" by (simp add: agree_def)
    show "dm_syncing a' = {} \<and> dm_syncing b' = {}"
      using a'(3) b'(3) agree_all_known [OF _ g'] agree_all_known [OF _ g] ida idb assms(14,15) by simp
  qed
  with a'(1) b'(1) show ?thesis by blast
qed

lemma peer_serves_name: "peer_serves dial net S partial sem clk A a (p\<lparr>pi_Name := n\<rparr>) now = peer_serves dial net S partial sem clk A a p now"
  by (simp add: peer_serves_def HTTPAddr_def GRPCAddr_def)

lemma demo_names: "valid_utf8 ''b''" "valid_utf8 ''m''"
  by code_simp+

theorem catalogs_agree_witness:
  "\<exists>a b a' b'. running fixed_cdc list_bolt kv_sorted ''k'' a \<and> running fixed_cdc list_bolt kv_sorted ''k'' b \<and> \<not> agree list_bolt a list_bolt b \<and>
     reconcileWithPeer list_bolt (demo_net_to b 4) [] 4 (demo_peer\<lparr>pi_Name := ''m''\<rparr>) a = Some a' \<and>
     reconcileWithPeer list_bolt (demo_net_to a 4) [] 4 demo_peer b = Some b' \<and> \<not> (dm_syncing a' = {} \<and> dm_syncing b' = {})"
proof (rule demo_indexed [where name = "''b''"])
  fix a m
  assume a: "running fixed_cdc list_bolt kv_sorted ''k'' a" "dm_Name a = ''b''" "dm_syncing a = {}"
    "GetFileMeta list_bolt (dm_db a) ''a'' = Inr m"
  show ?thesis
  proof (rule demo_node [where name = "''m''"])
    fix b
    assume b: "running fixed_cdc list_bolt kv_sorted ''k'' b" "dm_Name b = ''m''" "dm_db b = []" "dm_syncing b = {}"
    let ?q = "demo_peer\<lparr>pi_Name := ''m''\<rparr>"
    have "Ext ''a'' \<noteq> ''.db''" by code_simp
    then have no: "\<not> agree list_bolt a list_bolt b"
      using a(4) b(3) by (auto simp: agree_def root_at_def GetFileMeta_def list_bolt_def intro!: exI [of _ "''a''"])
    have q: "peer_serves (demo_dial_to b 4) (demo_net_to b) count_sem (\<lambda>_ _. http_Error no_header [] 416) 1 (\<lambda>t. t) list_bolt b ?q 4"
      using demo_peer_serves [of b 4] by (simp only: peer_serves_name)
    have names: "valid_utf8 (dm_Name a)" "valid_utf8 (dm_Name b)" "dm_Name a \<noteq> dm_Name b" "pi_Name demo_peer = dm_Name a"
      "pi_Name ?q = dm_Name b" using a(2) b(2) demo_names by (simp_all add: demo_peer_def)
    from catalogs_agree [OF list_bolt_spec list_bolt_spec a(1) b(1) names(1-5) demo_peer_serves [of a 4] q demo_evs(3,3) a(3) b(4), of "[]" "[]"] no
    obtain a' b' where "reconcileWithPeer list_bolt (demo_net_to b 4) [] 4 ?q a = Some a'"
      "reconcileWithPeer list_bolt (demo_net_to a 4) [] 4 demo_peer b = Some b'" "\<not> (dm_syncing a' = {} \<and> dm_syncing b' = {})" by blast
    with a(1) b(1) no show ?thesis by blast
  qed
qed

section \<open>Anti-entropy brings a file over\<close>



section \<open>The first peer decides\<close>

lemma first_address:
  assumes "GRPCAddr p \<notin> GRPCAddr ` set ps"
  shows "grpc_map (p # ps) (GRPCAddr p) = Some (HTTPAddr p)"
  using assms unfolding grpc_map_of by (auto simp: map_add_def dest!: map_of_SomeD split: option.split)

text \<open>C34. The order of the peers decides what a pull does.  Let a pull of a file run on a node whose first peer is a
  running node with a version of that file.  If this version is the one the node has already, the pull ends at once:
  disk, index and gossip are unchanged, although the pull was started for a version that beats the own one and the
  other peers may have it.  In every case the entry of the file in the index is the old one or that of the first peer, which
  may be older than both the announced version and the own one: nothing here depends on timestamps or on the other peers.\<close>

theorem first_peer_decides:
  assumes "bolt_spec A live bucket" and "bolt_spec B live' bucket'" and "running C A live secret a" and "running C' B live' secret b"
    and "valid_utf8 (dm_Name a)" and "peer_serves dial net S partial sem clk A a p now" and "clock_ok now"
    and "GetFileMeta A (dm_db a) i = Inr m" and "\<forall>x \<in> set i. query_safe x"
    and "dm_pulls b ! k = (i, p # ps)" and "GRPCAddr p \<notin> GRPCAddr ` set ps"
  shows "(root_at B b i = Some (fm_MerkleRoot m) \<longrightarrow> (\<exists>b'. finish_sync B dial net srt now order evs k b = Some b' \<and>
      dm_fs b' = dm_fs b \<and> dm_db b' = dm_db b \<and> dm_Gossip b' = dm_Gossip b \<and> i \<notin> dm_syncing b')) \<and>
    (\<forall>b'. finish_sync B dial net srt now order evs k b = Some b' \<longrightarrow>
      GetFileMeta B (dm_db b') i = GetFileMeta B (dm_db b) i \<or> GetFileMeta B (dm_db b') i = Inr m)"
proof -
  note a = running_ok [OF assms(3,1)] and b = running_ok [OF assms(4,2)] and ida = running_index [OF assms(3,1,5,8)]
  have ok: "store_ok (dm_CAS a) (dm_fs a)" "wired b" "live' (dm_db b)" using a(1) b(1) by (simp_all add: daemon_inv_def)
  have u: "valid_utf8 (fm_FileID m)" using ida by (simp add: storable_id_def)
  note src = source_first [where toHTTP = "grpc_map (p # ps)", OF assms(6,7) a(2) ok(1) b(2) ok(2) assms(8,9) u first_address [OF assms(11)]]
  have same: "Pull B dial net srt (dm_Engine b) now order evs i (p # ps) (pull_state_of b) = Some (pull_state_of b, Inr InSync)"
    if "root_at B b i = Some (fm_MerkleRoot m)"
    using that assms(8)
    by (auto simp: Pull_def Let_def pull_state_of_def local_state_def root_at_def src DiffMerkleTree_def
        simp del: select_source.simps split: sum.split_asm)
  have pulled: "pl_db s = dm_db b \<or> PutFileMeta B (dm_db b) m = (pl_db s, Inr ())"
    if "Pull B dial net srt (dm_Engine b) now order evs i (p # ps) (pull_state_of b) = Some (s, r)" for s r
    using that
  proof (cases rule: Pull_cases)
    case (assembled tr f ws started localRoot known d rm)
    then have "rm = m" by (simp add: src del: select_source.simps)
    with assembled(3) show ?thesis by (cases r) (auto simp: pull_state_of_def dest: finish_pull_failed_db finish_pull_announced(2))
  qed (simp_all add: pull_state_of_def)
  have entry: "GetFileMeta B db i = Inr m" if "PutFileMeta B (dm_db b) m = (db, Inr ())" for db
    using PutFileMeta_spec [OF assms(2) ok(3), of m] ida that by (metis prod.inject)
  have "GetFileMeta B (dm_db b') i = GetFileMeta B (dm_db b) i \<or> GetFileMeta B (dm_db b') i = Inr m"
    if fin: "finish_sync B dial net srt now order evs k b = Some b'" for b'
  proof -
    obtain s r where "Pull B dial net srt (dm_Engine b) now order evs i (p # ps) (pull_state_of b) = Some (s, r)" "dm_db b' = pl_db s"
      using fin assms(10) by (auto simp: finish_sync_def after_pull_def foldl_announce Let_def split: option.split_asm)
    with pulled entry show ?thesis by metis
  qed
  moreover have "\<exists>b'. finish_sync B dial net srt now order evs k b = Some b' \<and> dm_fs b' = dm_fs b \<and> dm_db b' = dm_db b \<and>
      dm_Gossip b' = dm_Gossip b \<and> i \<notin> dm_syncing b'" if "root_at B b i = Some (fm_MerkleRoot m)"
    using same [OF that] assms(10) by (simp add: finish_sync_def after_pull_def pull_state_of_def)
  ultimately show ?thesis by blast
qed

theorem first_peer_decides_witness:
  "\<exists>a b b1 b2 ann. running fixed_cdc list_bolt kv_sorted ''k'' a \<and> running fixed_cdc list_bolt kv_sorted ''k'' b \<and>
     handleAnnouncement list_bolt [demo_member, demo_member\<lparr>mb_Name := ''z'', mb_Addr := ''i''\<rparr>] ann b = Some b1 \<and> an_SourceNode ann = ''z'' \<and>
     root_at list_bolt b ''a'' \<noteq> Some (an_MerkleRoot ann) \<and>
     finish_sync list_bolt (demo_dial_to a 4) (demo_net_to a) (sort_key peer_count) 4 [] [] 0 b1 = Some b2 \<and>
     dm_fs b2 = dm_fs b \<and> dm_db b2 = dm_db b \<and> dm_Gossip b2 = dm_Gossip b"
proof (rule demo_indexed [where name = "''b''"])
  fix a m
  assume a: "running fixed_cdc list_bolt kv_sorted ''k'' a" "dm_Name a = ''b''" "GetFileMeta list_bolt (dm_db a) ''a'' = Inr m"
    "fm_MerkleRoot m = ComputeRoot [demo_chunk]"
  show ?thesis
  proof (rule demo_indexed [where name = "''m''"])
    fix b n
    assume b: "running fixed_cdc list_bolt kv_sorted ''k'' b" "dm_Name b = ''m''" "dm_syncing b = {}"
      "GetFileMeta list_bolt (dm_db b) ''a'' = Inr n" "fm_MerkleRoot n = ComputeRoot [demo_chunk]" "fm_LamportTS n = 1"
      "gn_list (dm_Gossip b)" "gn_name (dm_Gossip b) = ''m''" "dm_pulls b = []"
    obtain r where r: "r \<noteq> ComputeRoot [demo_chunk]" using other_root .
    let ?ann = "\<lparr>an_FileID = ''a'', an_MerkleRoot = r, an_LamportTS = 5, an_SourceNode = ''z''\<rparr>"
    let ?ms = "[demo_member, demo_member\<lparr>mb_Name := ''z'', mb_Addr := ''i''\<rparr>]"
    let ?ps = "[demo_peer, demo_peer\<lparr>pi_Name := ''z'', pi_Addr := ''i''\<rparr>]"
    let ?b1 = "b\<lparr>dm_clock := observeTS (dm_clock b) 5, dm_syncing := {''a''}, dm_pulls := [(''a'', ?ps)]\<rparr>"
    have ps: "GetActivePeers (dm_Gossip b) ?ms = Some ?ps"
      using b(7,8) by (simp add: GetActivePeers_def demo_peer_def demo_member_def be16_val_def)
    have hear: "handleAnnouncement list_bolt ?ms ?ann b = Some ?b1"
      using announcement_pulls [of ?ann b ?ms ?ps list_bolt] ps b(2-6,9) r by (simp add: remoteWins_def)
    then have run: "running fixed_cdc list_bolt kv_sorted ''k'' ?b1" by (intro stepped [OF b(1)] announced)
    have rest: "valid_utf8 (dm_Name a)" "dm_pulls ?b1 ! 0 = (''a'', ?ps)" "GRPCAddr demo_peer \<notin> GRPCAddr ` set (tl ?ps)"
      "root_at list_bolt ?b1 ''a'' = Some (fm_MerkleRoot m)"
      using a(2,4) b(4,5) demo_names by (simp_all add: demo_peer_def GRPCAddr_def root_at_def)
    from first_peer_decides [OF list_bolt_spec list_bolt_spec a(1) run rest(1) demo_peer_serves demo_evs(3) a(3) demo_id(3), of 0 "tl ?ps",
        where srt = "sort_key peer_count" and order = "[]" and evs = "[]"] rest(2-4)
    obtain b2 where "finish_sync list_bolt (demo_dial_to a 4) (demo_net_to a) (sort_key peer_count) 4 [] [] 0 ?b1 = Some b2"
      "dm_fs b2 = dm_fs b" "dm_db b2 = dm_db b" "dm_Gossip b2 = dm_Gossip b" by auto
    moreover have "an_SourceNode ?ann = ''z''" "root_at list_bolt b ''a'' \<noteq> Some (an_MerkleRoot ?ann)"
      using b(4,5) r by (simp_all add: root_at_def)
    ultimately show ?thesis using a(1) b(1) hear by blast
  qed
qed

end
