(* ===== verification/Lifecycle.thy ===== *)
theory Lifecycle
  imports Node Sync
begin

text \<open>
  The life of the process, from the daemon that \<open>NewDaemon\<close> has built to its exit: \<open>main\<close> in \<open>nusyncd\<close>, \<open>Daemon.Start\<close> and
  \<open>Daemon.Stop\<close>, \<open>GossipNode.Start\<close> statement by statement, \<open>Server.Start\<close> and \<open>StartLocalAPI\<close>.  The goroutines interleave:
  the main one, the two listeners, the signal handler, the anti-entropy loop and the handlers of \<open>Daemon\<close>.
  What memberlist, the listeners and the file watcher answer is chosen by the steps.  A panic in a goroutine ends the
  process with status 2, \<open>log.Fatalf\<close> with status 1; net/http recovers a panic in a request handler, so that
  a request of the local API whose handler panics is not a step.
\<close>

section \<open>The process\<close>

text \<open>Where the main goroutine is: in \<open>Daemon.Start\<close>, within it in \<open>GossipNode.Start\<close>, or serving the local API.\<close>

datatype main_at = InSpawn | InQueue | InCreate | InList | InJoin | InWatch | InLoop | InApi

text \<open>Where the signal handler is: waiting, or about to cancel the context, stop gossip, stop the gRPC server, or
  close the index and exit.\<close>

datatype signal_at = SigWait | SigCancel | SigGossip | SigGrpc | SigClose

datatype listener = Unopened | Opening | Listening | Closed

record 'db process =
  ps_node :: "'db Daemon"
  ps_main :: main_at
  ps_sig :: signal_at
  ps_http :: listener
  ps_grpc :: listener
  ps_receiving :: bool
  ps_watching :: bool
  ps_loop :: bool
  ps_reconciles :: "PeerInfo list"
  ps_cancelled :: bool
  ps_open :: bool
  ps_end :: "nat option"

definition launched :: "'db Daemon \<Rightarrow> 'db process" where
  "launched d = \<lparr>ps_node = d, ps_main = InSpawn, ps_sig = SigWait, ps_http = Unopened, ps_grpc = Unopened, ps_receiving = False,
     ps_watching = False, ps_loop = False, ps_reconciles = [], ps_cancelled = False, ps_open = True, ps_end = None\<rparr>"

lemma launched_sel [simp]:
  "ps_node (launched d) = d" "ps_main (launched d) = InSpawn" "ps_sig (launched d) = SigWait" "ps_http (launched d) = Unopened"
  "ps_grpc (launched d) = Unopened" "\<not> ps_receiving (launched d)" "\<not> ps_loop (launched d)" "ps_reconciles (launched d) = []"
  "\<not> ps_cancelled (launched d)" "ps_open (launched d)" "ps_end (launched d) = None"
  by (simp_all add: launched_def)

definition on_gossip :: "(GossipNode \<Rightarrow> GossipNode) \<Rightarrow> 'db process \<Rightarrow> 'db process" where
  "on_gossip h p = p\<lparr>ps_node := (ps_node p)\<lparr>dm_Gossip := h (dm_Gossip (ps_node p))\<rparr>\<rparr>"

text \<open>\<open>StartLocalAPI\<close> serves until its listener fails, or fails to listen at all; it logs that and returns, and with it \<open>main\<close>.\<close>

definition api_exits :: "'db process \<Rightarrow> 'db process" where
  "api_exits p = p\<lparr>ps_end := Some 0\<rparr>"

text \<open>The main goroutine.  \<open>create\<close>, \<open>join\<close> and \<open>watch\<close> are the outcomes of \<open>memberlist.Create\<close>, \<open>Join\<close> and \<open>Watcher.Start\<close>.
  From \<open>Create\<close> on, memberlist listens and delivers messages.  \<open>Join\<close> is called through the field \<open>g.list\<close>, which
  the signal handler may have reset.\<close>

definition main_move ::
  "(gostring, unit) result \<Rightarrow> (gostring list \<Rightarrow> (gostring, unit) result) \<Rightarrow> (gostring, unit) result \<Rightarrow> gostring list
   \<Rightarrow> 'db process \<Rightarrow> 'db process" where
  "main_move create join watch seedPeers p =
     (case ps_main p of
        InSpawn \<Rightarrow> on_gossip OnAnnouncement (p\<lparr>ps_http := Opening, ps_grpc := Opening, ps_main := InQueue\<rparr>)
      | InQueue \<Rightarrow> on_gossip (\<lambda>g. g\<lparr>gn_queue := Some []\<rparr>) (p\<lparr>ps_main := InCreate\<rparr>)
      | InCreate \<Rightarrow> (case create of Inl _ \<Rightarrow> p\<lparr>ps_end := Some 1\<rparr> | Inr _ \<Rightarrow> p\<lparr>ps_receiving := True, ps_main := InList\<rparr>)
      | InList \<Rightarrow> on_gossip (\<lambda>g. g\<lparr>gn_list := True\<rparr>) (p\<lparr>ps_main := InJoin\<rparr>)
      | InJoin \<Rightarrow>
          if seedPeers = [] then p\<lparr>ps_main := InWatch\<rparr>
          else if \<not> gn_list (dm_Gossip (ps_node p)) then p\<lparr>ps_end := Some 2\<rparr>
          else (case join seedPeers of Inl _ \<Rightarrow> p\<lparr>ps_end := Some 1\<rparr> | Inr _ \<Rightarrow> p\<lparr>ps_main := InWatch\<rparr>)
      | InWatch \<Rightarrow> p\<lparr>ps_watching := (watch = Inr ()), ps_main := InLoop\<rparr>
      | InLoop \<Rightarrow> p\<lparr>ps_loop := True, ps_main := InApi\<rparr>
      | InApi \<Rightarrow> api_exits p)"

text \<open>\<open>BoltMetaStore.Close\<close>, and the handler of SIGINT and SIGTERM with the calls of \<open>Daemon.Stop\<close>; the exit directly after
  closing the index is one step with it.\<close>

definition meta_Close :: "'db process \<Rightarrow> 'db process" where
  "meta_Close p = p\<lparr>ps_open := False\<rparr>"

definition signal_move :: "'db process \<Rightarrow> 'db process" where
  "signal_move p =
     (case ps_sig p of
        SigWait \<Rightarrow> p\<lparr>ps_sig := SigCancel\<rparr>
      | SigCancel \<Rightarrow> p\<lparr>ps_cancelled := True, ps_sig := SigGossip\<rparr>
      | SigGossip \<Rightarrow> p\<lparr>ps_node := daemon_Stop (ps_node p), ps_sig := SigGrpc\<rparr>
      | SigGrpc \<Rightarrow> p\<lparr>ps_grpc := (if ps_grpc p = Listening then Closed else ps_grpc p), ps_sig := SigClose\<rparr>
      | SigClose \<Rightarrow> (meta_Close p)\<lparr>ps_end := Some 0\<rparr>)"

text \<open>\<open>Server.Start\<close> of the data plane: a listener that cannot be opened is only logged; a cancelled context shuts the
  server down, also before it listens.  The gRPC listener: not being able to listen is fatal, and a server
  that has been stopped does not serve.\<close>

definition http_listen :: "(gostring, unit) result \<Rightarrow> 'db process \<Rightarrow> 'db process" where
  "http_listen res p = (case res of Inl _ \<Rightarrow> p\<lparr>ps_http := Closed\<rparr> | Inr _ \<Rightarrow> p\<lparr>ps_http := Listening\<rparr>)"

definition http_shutdown :: "'db process \<Rightarrow> 'db process" where
  "http_shutdown p = p\<lparr>ps_http := Closed\<rparr>"

definition grpc_listen :: "(gostring, unit) result \<Rightarrow> 'db process \<Rightarrow> 'db process" where
  "grpc_listen res p = (case res of Inl _ \<Rightarrow> p\<lparr>ps_end := Some 1\<rparr> | Inr _ \<Rightarrow> p\<lparr>ps_grpc := (if ps_sig p = SigClose then Closed else Listening)\<rparr>)"

text \<open>A handler on its own goroutine returns or panics.\<close>

definition handled :: "'db Daemon option \<Rightarrow> 'db process \<Rightarrow> 'db process" where
  "handled r p = (case r of None \<Rightarrow> p\<lparr>ps_end := Some 2\<rparr> | Some d \<Rightarrow> p\<lparr>ps_node := d\<rparr>)"

definition ticked :: "PeerInfo list option \<Rightarrow> 'db process \<Rightarrow> 'db process" where
  "ticked r p = (case r of None \<Rightarrow> p\<lparr>ps_end := Some 2\<rparr> | Some peers \<Rightarrow> p\<lparr>ps_reconciles := ps_reconciles p @ peers\<rparr>)"

text \<open>One step of the process while it lives.\<close>

inductive move :: "'s fastcdc \<Rightarrow> 'db bolt \<Rightarrow> gostring list \<Rightarrow> 'db process \<Rightarrow> 'db process \<Rightarrow> bool" for C B seeds where
  main: "move C B seeds p (main_move create join watch seeds p)"
| signal: "move C B seeds p (signal_move p)"
| http: "ps_http p = Opening \<Longrightarrow> move C B seeds p (http_listen res p)"
| shutdown: "ps_http p \<noteq> Unopened \<Longrightarrow> ps_cancelled p \<Longrightarrow> move C B seeds p (http_shutdown p)"
| grpc: "ps_grpc p = Opening \<Longrightarrow> move C B seeds p (grpc_listen res p)"
| loop_ends: "ps_cancelled p \<Longrightarrow> move C B seeds p (p\<lparr>ps_loop := False\<rparr>)"
| message: "ps_receiving p \<Longrightarrow> move C B seeds p (handled (handleAnnouncement B members ann (ps_node p)) p)"
| tick: "ps_loop p \<Longrightarrow> move C B seeds p (ticked (antiEntropy_tick shuffle members (ps_node p)) p)"
| reconcile: "peer \<in> set (ps_reconciles p) \<Longrightarrow> move C B seeds p
    (handled (reconcileWithPeer B net members now peer (ps_node p)) (p\<lparr>ps_reconciles := remove1 peer (ps_reconciles p)\<rparr>))"
| change: "ps_watching p \<Longrightarrow> valid_utf8 (file_id (ps_node p) path) \<Longrightarrow> HandleFileChange C B now path (ps_node p) = Some d \<Longrightarrow>
    move C B seeds p (p\<lparr>ps_node := d\<rparr>)"
| api: "ps_main p = InApi \<Longrightarrow> valid_utf8 (query_Get (uri_query (rq_URI r)) ''path'') \<Longrightarrow>
    api_serve C B members r body (ps_node p) = Some (d, status) \<Longrightarrow> move C B seeds p (p\<lparr>ps_node := d\<rparr>)"
| pull: "i < length (dm_pulls (ps_node p)) \<Longrightarrow> clean_id (fst (dm_pulls (ps_node p) ! i)) \<Longrightarrow> fits net (ps_node p) \<Longrightarrow>
    finish_sync B dial net srt now order evs i (ps_node p) = Some d \<Longrightarrow> move C B seeds p (p\<lparr>ps_node := d\<rparr>)"
| user: "user_change (ps_node p) f \<Longrightarrow> move C B seeds p (p\<lparr>ps_node := (ps_node p)\<lparr>dm_fs := f\<rparr>\<rparr>)"

inductive alive :: "'s fastcdc \<Rightarrow> 'db bolt \<Rightarrow> gostring list \<Rightarrow> 'db Daemon \<Rightarrow> 'db process \<Rightarrow> bool" for C B seeds d where
  launch: "alive C B seeds d (launched d)"
| moved: "alive C B seeds d p \<Longrightarrow> ps_end p = None \<Longrightarrow> move C B seeds p q \<Longrightarrow> alive C B seeds d q"

section \<open>What a step keeps\<close>

text \<open>While gossip is up no handler panics.\<close>

lemma triggerSync_returns: "gn_list (dm_Gossip d) \<Longrightarrow> triggerSync members i d \<noteq> None"
  by (simp add: triggerSync_def GetActivePeers_def)

lemma handlers_return:
  assumes "gn_list (dm_Gossip d)"
  shows "handleAnnouncement B members ann d \<noteq> None" and "reconcileWithPeer B net members now peer d \<noteq> None"
    and "antiEntropy_tick shuffle members d \<noteq> None"
proof -
  show "handleAnnouncement B members ann d \<noteq> None"
    using assms triggerSync_returns [of "d\<lparr>dm_clock := observeTS (dm_clock d) (an_LamportTS ann)\<rparr>" members "an_FileID ann"]
    by (auto simp: handleAnnouncement_def Let_def split: sum.split)
  show "reconcileWithPeer B net members now peer d \<noteq> None"
    using reconcile_moves [OF assms, of B members peer] by (auto simp: reconcileWithPeer_def split: sum.split)
  show "antiEntropy_tick shuffle members d \<noteq> None"
    using assms by (simp add: antiEntropy_tick_def GetActivePeers_def Let_def)
qed

text \<open>A step of the process is one of a goroutine that leaves the daemon alone but for gossip, a panic, or a step of
  the daemon.\<close>

lemma daemon_inv_gossip [simp]: "daemon_inv B live (d\<lparr>dm_Gossip := g\<rparr>) \<longleftrightarrow> daemon_inv B live d"
  by (simp add: daemon_inv_def wired_def indexed_def)

definition past_list :: "main_at \<Rightarrow> bool" where
  "past_list m \<longleftrightarrow> m \<in> {InJoin, InWatch, InLoop, InApi}"

definition gossip_up :: "signal_at \<Rightarrow> bool" where
  "gossip_up s \<longleftrightarrow> s \<in> {SigWait, SigCancel, SigGossip}"

text \<open>How a process can have ended: by the signal handler, with the index closed; because the local API could not be
  served any more; because a listener, memberlist or joining failed; or by a panic, while memberlist delivers
  messages before its handle is stored or after gossip has been stopped.\<close>

definition ended_ok :: "'db process \<Rightarrow> bool" where
  "ended_ok p \<longleftrightarrow> (case ps_end p of
      None \<Rightarrow> ps_open p
    | Some n \<Rightarrow> n = 0 \<and> ps_sig p = SigClose \<and> \<not> ps_open p \<or> ps_open p \<and>
        (n = 0 \<and> ps_main p = InApi \<or> n = 1 \<and> (ps_main p \<in> {InCreate, InJoin} \<or> ps_grpc p = Opening) \<or>
         n = 2 \<and> (ps_main p = InList \<or> \<not> gossip_up (ps_sig p))))"

definition process_ok :: "'db process \<Rightarrow> bool" where
  "process_ok p \<longleftrightarrow> ended_ok p \<and>
     (past_list (ps_main p) \<and> gossip_up (ps_sig p) \<longrightarrow> gn_list (dm_Gossip (ps_node p))) \<and>
     (ps_receiving p \<longrightarrow> ps_main p = InList \<or> past_list (ps_main p)) \<and>
     (ps_loop p \<or> ps_reconciles p \<noteq> [] \<longrightarrow> ps_main p = InApi) \<and>
     (ps_cancelled p \<longleftrightarrow> ps_sig p \<notin> {SigWait, SigCancel})"

lemma move_node:
  assumes "move C B seeds p q"
  shows "(\<exists>g. ps_node q = (ps_node p)\<lparr>dm_Gossip := g\<rparr>) \<or> dstep C B (ps_node p) (ps_node q)"
proof -
  have same: ?thesis if "ps_node q = ps_node p"
    using that by (intro disjI1 exI [of _ "dm_Gossip (ps_node p)"]) simp
  show ?thesis
    using assms
  proof cases
    case (main create join watch)
    show ?thesis by (rule disjI1)
      (auto simp: main main_move_def api_exits_def on_gossip_def split: main_at.split sum.split intro: exI [of _ "dm_Gossip (ps_node p)"])
  next
    case signal
    show ?thesis by (rule disjI1)
      (auto simp: signal signal_move_def daemon_Stop_def meta_Close_def split: signal_at.split intro: exI [of _ "dm_Gossip (ps_node p)"])
  next
    case (http res)
    then show ?thesis by (intro same) (simp add: http_listen_def split: sum.split)
  next
    case shutdown
    then show ?thesis by (intro same) (simp add: http_shutdown_def)
  next
    case (grpc res)
    then show ?thesis by (intro same) (simp add: grpc_listen_def split: sum.split)
  next
    case loop_ends
    then show ?thesis by (intro same) simp
  next
    case (message members ann)
    then show ?thesis using same by (cases "handleAnnouncement B members ann (ps_node p)") (auto simp: handled_def intro: announced)
  next
    case (tick shuffle members)
    then show ?thesis by (intro same) (simp add: ticked_def split: option.split)
  next
    case (reconcile peer net members now)
    then show ?thesis using same by (cases "reconcileWithPeer B net members now peer (ps_node p)") (auto simp: handled_def intro: reconciled)
  qed (auto intro: dstep.intros)
qed

lemma move_keeps_inv:
  "move C B seeds p q \<Longrightarrow> bolt_spec B live bucket \<Longrightarrow> daemon_inv B live (ps_node p) \<Longrightarrow> daemon_inv B live (ps_node q)"
  by (drule move_node) (auto dest: dstep_inv)

lemma process_ok_node:
  assumes "process_ok p" and "ps_end p = None" and "dstep C B (ps_node p) d"
  shows "process_ok (p\<lparr>ps_node := d\<rparr>)"
  using assms dstep_parts [OF assms(3)] by (simp add: process_ok_def ended_ok_def parts_def)

lemma process_ok_panic:
  assumes "process_ok p" and "ps_end p = None" and "\<not> gn_list (dm_Gossip (ps_node p))" and "ps_main p = InList \<or> past_list (ps_main p)"
  shows "process_ok (p\<lparr>ps_end := Some 2\<rparr>)"
  using assms by (auto simp: process_ok_def ended_ok_def)

lemma process_ok_main:
  assumes "process_ok p" and "ps_end p = None"
  shows "process_ok (main_move create join watch seeds p)"
  using assms
  by (cases "ps_main p") (auto simp: process_ok_def ended_ok_def main_move_def api_exits_def on_gossip_def past_list_def split: sum.split)

lemma process_ok_signal:
  assumes "process_ok p" and "ps_end p = None"
  shows "process_ok (signal_move p)"
  using assms
  by (cases "ps_sig p") (auto simp: process_ok_def ended_ok_def signal_move_def meta_Close_def daemon_Stop_def gossip_Stop_def gossip_up_def)

lemma move_keeps_ok:
  assumes "move C B seeds p q" and "process_ok p" and "ps_end p = None"
  shows "process_ok q"
  using assms(1)
proof cases
  case (message members ann)
  have up: "ps_main p = InList \<or> past_list (ps_main p)" using message(2) assms(2) by (simp add: process_ok_def)
  show ?thesis
  proof (cases "handleAnnouncement B members ann (ps_node p)")
    case None
    then have "\<not> gn_list (dm_Gossip (ps_node p))" using handlers_return(1) by blast
    with None up assms(2,3) show ?thesis by (simp add: message(1) handled_def process_ok_panic)
  next
    case (Some d)
    then show ?thesis using process_ok_node [OF assms(2,3) announced [OF Some]] by (simp add: message(1) handled_def)
  qed
next
  case (tick shuffle members)
  have up: "ps_main p = InApi" using tick(2) assms(2) by (simp add: process_ok_def)
  show ?thesis
  proof (cases "antiEntropy_tick shuffle members (ps_node p)")
    case None
    then have "\<not> gn_list (dm_Gossip (ps_node p))" using handlers_return(3) by blast
    with None up assms(2,3) show ?thesis by (simp add: tick(1) ticked_def process_ok_panic past_list_def)
  next
    case (Some peers)
    then show ?thesis using assms(2,3) up by (simp add: tick(1) ticked_def process_ok_def ended_ok_def)
  qed
next
  case (reconcile peer net members now)
  let ?p = "p\<lparr>ps_reconciles := remove1 peer (ps_reconciles p)\<rparr>"
  have up: "ps_main p = InApi" using reconcile(2) assms(2) by (auto simp: process_ok_def)
  then have ok: "process_ok ?p" "ps_end ?p = None" using assms(2,3) by (simp_all add: process_ok_def ended_ok_def)
  show ?thesis
  proof (cases "reconcileWithPeer B net members now peer (ps_node p)")
    case None
    then have "\<not> gn_list (dm_Gossip (ps_node p))" using handlers_return(2) by blast
    with None up ok show ?thesis using process_ok_panic [OF ok] by (simp add: reconcile(1) handled_def past_list_def)
  next
    case (Some d)
    then have "dstep C B (ps_node ?p) d" using reconciled by fastforce
    from process_ok_node [OF ok this] Some show ?thesis by (simp add: reconcile(1) handled_def)
  qed
next
  case (main create join watch)
  then show ?thesis using process_ok_main [OF assms(2,3)] by simp
next
  case signal
  then show ?thesis using process_ok_signal [OF assms(2,3)] by simp
next
  case (change path now d)
  then show ?thesis using process_ok_node [OF assms(2,3) file_changed] by simp
next
  case (api r members body d status)
  then show ?thesis using process_ok_node [OF assms(2,3) api_called] by simp
next
  case (pull i net dial srt now order evs d)
  then show ?thesis using process_ok_node [OF assms(2,3) synced] by simp
next
  case (user f)
  then show ?thesis using process_ok_node [OF assms(2,3) dstep.user] by simp
next
  case (http res)
  then show ?thesis using assms(2,3) by (simp add: process_ok_def ended_ok_def http_listen_def split: sum.split)
next
  case (grpc res)
  then show ?thesis using assms(2,3) by (simp add: process_ok_def ended_ok_def grpc_listen_def split: sum.split)
qed (use assms(2,3) in \<open>simp_all add: process_ok_def ended_ok_def http_shutdown_def\<close>)

section \<open>The life of a process\<close>

lemma alive_ok:
  assumes "alive C B seeds d p" and "bolt_spec B live bucket" and "daemon_inv B live d"
  shows "daemon_inv B live (ps_node p) \<and> process_ok p"
  using assms(1)
proof induction
  case launch
  show ?case using assms(3) by (simp add: launched_def process_ok_def ended_ok_def past_list_def)
next
  case (moved p q)
  then show ?case using move_keeps_inv [OF _ assms(2)] move_keeps_ok by blast
qed

lemma alive_run:
  assumes "alive C B seeds d p" and "\<And>p. move C B seeds p (h p)" and "\<forall>k < n. ps_end ((h ^^ k) p) = None"
  shows "alive C B seeds d ((h ^^ n) p)"
  using assms(3)
proof (induction n)
  case 0
  show ?case using assms(1) by simp
next
  case (Suc n)
  then show ?case using moved [OF _ _ assms(2)] by simp
qed

text \<open>The signal handler on its own: five moves from the signal to the exit.\<close>

lemma signal_steps:
  fixes p :: "'db process"
  assumes "ps_sig p = SigWait" and "ps_end p = None"
  defines "q \<equiv> \<lambda>n. (signal_move ^^ n) p"
  shows "q 3 = p\<lparr>ps_cancelled := True, ps_node := daemon_Stop (ps_node p), ps_sig := SigGrpc\<rparr>"
    and "ps_end (q 5) = Some 0 \<and> \<not> ps_open (q 5) \<and> ps_cancelled (q 5) \<and> ps_node (q 5) = daemon_Stop (ps_node p)"
    and "alive C B seeds d p \<Longrightarrow> n \<le> 5 \<Longrightarrow> alive C B seeds d (q n)"
proof -
  have q: "q 0 = p" "q (Suc n) = signal_move (q n)" for n by (simp_all add: q_def)
  have q1: "q 1 = p\<lparr>ps_sig := SigCancel\<rparr>" using assms(1) by (simp add: q signal_move_def)
  have q2: "q 2 = p\<lparr>ps_cancelled := True, ps_sig := SigGossip\<rparr>" using q(2) [of 1] q1 by (simp add: signal_move_def numeral_2_eq_2)
  show q3: "q 3 = p\<lparr>ps_cancelled := True, ps_node := daemon_Stop (ps_node p), ps_sig := SigGrpc\<rparr>"
    using q(2) [of 2] q2 by (simp add: signal_move_def)
  have q4: "q 4 = (q 3)\<lparr>ps_grpc := (if ps_grpc p = Listening then Closed else ps_grpc p), ps_sig := SigClose\<rparr>"
    using q(2) [of 3] q3 by (simp add: signal_move_def)
  have "q 5 = (q 4)\<lparr>ps_open := False, ps_end := Some 0\<rparr>" using q(2) [of 4] q4 by (simp add: signal_move_def meta_Close_def)
  then show "ps_end (q 5) = Some 0 \<and> \<not> ps_open (q 5) \<and> ps_cancelled (q 5) \<and> ps_node (q 5) = daemon_Stop (ps_node p)" by (simp add: q4 q3)
  assume a: "alive C B seeds d p" "n \<le> 5"
  have "ps_end (q k) = None" if "k < n" for k
  proof -
    have "k \<in> {0, 1, 2, 3, 4}" using that a(2) by auto
    then show ?thesis using assms(2) by (elim insertE) (simp_all add: q(1) q1 q2 q3 q4 del: One_nat_def)
  qed
  then show "alive C B seeds d (q n)" unfolding q_def using alive_run [OF a(1) signal] by blast
qed

lemma demo_built:
  obtains f0 d where "NewDaemon list_bolt (Inr ()) blank_fs 0 ''n'' ''/s'' ''/d'' 9100 9000 7946 ''k'' = (f0, Inr d)" and "dm_Name d = ''n''"
    and "dm_db d = []" and "dm_syncing d = {}" and "\<not> gn_list (dm_Gossip d)"
proof -
  obtain f0 d where n: "NewDaemon list_bolt (Inr ()) blank_fs 0 ''n'' ''/s'' ''/d'' 9100 9000 7946 ''k'' = (f0, Inr d)"
    using demo_new_ok [of "''n''"] by (auto simp: demo_new_as_def)
  then have g: "\<not> gn_list (dm_Gossip d)"
    by (auto simp: NewDaemon_def Let_def NewGossipNode_def split: if_split_asm prod.split_asm sum.split_asm option.split_asm)
  from n show thesis
    by (rule NewDaemon_cases) (auto intro!: that [OF n] g simp: NewBoltMetaStore_def list_bolt_def)
qed



text \<open>The states of the main goroutine when nothing fails.\<close>

lemma main_steps:
  fixes d :: "'db Daemon" and watch :: "(gostring, unit) result"
  assumes "create = Inr ()" and "seeds = [] \<or> join seeds = Inr ()"
  defines "q \<equiv> \<lambda>n. (main_move create join watch seeds ^^ n) (launched d)"
    and "g \<equiv> (OnAnnouncement (dm_Gossip d))\<lparr>gn_queue := Some []\<rparr>"
  shows "q 3 = (launched d)\<lparr>ps_node := d\<lparr>dm_Gossip := g\<rparr>, ps_main := InList, ps_http := Opening, ps_grpc := Opening, ps_receiving := True\<rparr>"
    and "q 4 = (q 3)\<lparr>ps_node := d\<lparr>dm_Gossip := g\<lparr>gn_list := True\<rparr>\<rparr>, ps_main := InJoin\<rparr>"
    and "q 7 = (q 4)\<lparr>ps_main := InApi, ps_watching := (watch = Inr ()), ps_loop := True\<rparr>"
    and "k < 7 \<Longrightarrow> ps_end (q k) = None"
proof -
  have q: "q 0 = launched d" "q (Suc n) = main_move create join watch seeds (q n)" for n by (simp_all add: q_def)
  have q1: "q 1 = on_gossip OnAnnouncement ((launched d)\<lparr>ps_http := Opening, ps_grpc := Opening, ps_main := InQueue\<rparr>)"
    by (simp add: q main_move_def api_exits_def launched_def)
  have q2: "q 2 = (launched d)\<lparr>ps_node := d\<lparr>dm_Gossip := g\<rparr>, ps_http := Opening, ps_grpc := Opening, ps_main := InCreate\<rparr>"
    using q(2) [of 1] q1 by (simp add: main_move_def api_exits_def on_gossip_def launched_def g_def numeral_2_eq_2)
  show q3: "q 3 = (launched d)\<lparr>ps_node := d\<lparr>dm_Gossip := g\<rparr>, ps_main := InList, ps_http := Opening, ps_grpc := Opening, ps_receiving := True\<rparr>"
    using q(2) [of 2] q2 assms(1) by (simp add: main_move_def api_exits_def launched_def)
  show q4: "q 4 = (q 3)\<lparr>ps_node := d\<lparr>dm_Gossip := g\<lparr>gn_list := True\<rparr>\<rparr>, ps_main := InJoin\<rparr>"
    using q(2) [of 3] q3 by (simp add: main_move_def api_exits_def on_gossip_def launched_def)
  have q5: "q 5 = (q 4)\<lparr>ps_main := InWatch\<rparr>"
    using q(2) [of 4] q4 q3 assms(2) by (auto simp: main_move_def api_exits_def launched_def split: sum.split)
  have q6: "q 6 = (q 5)\<lparr>ps_watching := (watch = Inr ()), ps_main := InLoop\<rparr>" using q(2) [of 5] q5 by (simp add: main_move_def api_exits_def)
  show "q 7 = (q 4)\<lparr>ps_main := InApi, ps_watching := (watch = Inr ()), ps_loop := True\<rparr>"
    using q(2) [of 6] q6 q5 by (simp add: main_move_def api_exits_def)
  assume "k < 7"
  then have "k \<in> {0, 1, 2, 3, 4, 5, 6}" by auto
  then show "ps_end (q k) = None"
    by (elim insertE) (simp_all add: q(1) q1 q2 q3 q4 q5 q6 on_gossip_def launched_def del: One_nat_def)
qed

lemma daemon_Start_iff:
  "daemon_Start create join seeds d = Some d' \<longleftrightarrow> create = Inr () \<and> (seeds = [] \<or> join seeds = Inr ()) \<and>
    d' = d\<lparr>dm_Gossip := (OnAnnouncement (dm_Gossip d))\<lparr>gn_queue := Some [], gn_list := True\<rparr>\<rparr>"
  by (auto simp: daemon_Start_def gossip_Start_def Let_def split: sum.split)

text \<open>C28. Starting up step by step is starting up.  Left alone, the main goroutine takes \<open>launched\<close> to the point where the local API
  is served, with the daemon as \<open>Daemon.Start\<close> leaves it, if \<open>Start\<close> succeeds, and ends with status 1 if it does not.  The
  next move of the main goroutine is that the local API cannot be served, because its port is taken, say: then
  the whole node ends, with status 0, without leaving the cluster and without closing the index.\<close>

theorem main_runs:
  "(\<forall>d'. daemon_Start create join seeds d = Some d' \<longrightarrow>
      (\<exists>p. (main_move create join watch seeds ^^ 7) (launched d) = p \<and> alive C B seeds d p \<and> ps_node p = d' \<and> ps_main p = InApi \<and>
        ps_end p = None \<and> ps_loop p \<and> (ps_watching p \<longleftrightarrow> watch = Inr ()) \<and>
        (let q = main_move create join watch seeds p in alive C B seeds d q \<and> ps_end q = Some 0 \<and> ps_open q \<and> \<not> ps_cancelled q \<and>
          gn_list (dm_Gossip (ps_node q))))) \<and>
   (daemon_Start create join seeds d = None \<longrightarrow>
      (\<exists>n. ps_end ((main_move create join watch seeds ^^ n) (launched d)) = Some 1))"
proof (intro conjI allI impI)
  fix d'
  assume st: "daemon_Start create join seeds d = Some d'"
  let ?p = "(main_move create join watch seeds ^^ 7) (launched d)"
  note c = st [unfolded daemon_Start_iff]
  note steps = main_steps [where seeds = seeds and join = join and d = d and watch = watch, OF conjunct1 [OF c] conjunct1 [OF conjunct2 [OF c]]]
  have al: "alive C B seeds d ?p" using steps(4) by (intro alive_run [OF launch main]) blast
  have p: "ps_node ?p = d' \<and> ps_main ?p = InApi \<and> ps_end ?p = None \<and> ps_loop ?p \<and> (ps_watching ?p \<longleftrightarrow> watch = Inr ()) \<and> ps_open ?p \<and> \<not> ps_cancelled ?p"
    unfolding steps(1-3) using c by (simp add: launched_def)
  have "alive C B seeds d (main_move create join watch seeds ?p)" using moved [OF al _ main] p by blast
  moreover have "main_move create join watch seeds ?p = ?p\<lparr>ps_end := Some 0\<rparr>" using p by (simp add: main_move_def api_exits_def)
  moreover have "gn_list (dm_Gossip d')" using c by simp
  ultimately show "\<exists>p. (main_move create join watch seeds ^^ 7) (launched d) = p \<and> alive C B seeds d p \<and> ps_node p = d' \<and> ps_main p = InApi \<and>
      ps_end p = None \<and> ps_loop p \<and> (ps_watching p \<longleftrightarrow> watch = Inr ()) \<and>
      (let q = main_move create join watch seeds p in alive C B seeds d q \<and> ps_end q = Some 0 \<and> ps_open q \<and> \<not> ps_cancelled q \<and>
        gn_list (dm_Gossip (ps_node q)))"
    using al p by (intro exI [of _ ?p]) (simp add: Let_def)
next
  assume st: "daemon_Start create join seeds d = None"
  show "\<exists>n. ps_end ((main_move create join watch seeds ^^ n) (launched d)) = Some 1"
  proof (cases create)
    case (Inl e)
    then have "ps_end ((main_move create join watch seeds ^^ 3) (launched d)) = Some 1"
      by (simp add: numeral_3_eq_3 main_move_def api_exits_def on_gossip_def launched_def)
    then show ?thesis by blast
  next
    case (Inr u)
    then have "seeds \<noteq> [] \<and> (\<exists>e. join seeds = Inl e)"
      using st by (auto simp: daemon_Start_def gossip_Start_def Let_def split: sum.split_asm if_split_asm)
    then have "ps_end ((main_move create join watch seeds ^^ 5) (launched d)) = Some 1"
      using Inr by (auto simp: numeral_eq_Suc main_move_def api_exits_def on_gossip_def launched_def)
    then show ?thesis by blast
  qed
qed

theorem main_runs_witness:
  "\<exists>(d :: (bytes \<times> bytes) list Daemon) d' p. daemon_Start (Inr ()) (\<lambda>_. Inr ()) [''s:1''] d = Some d' \<and> ps_node p = d' \<and>
     (main_move (Inr ()) (\<lambda>_. Inr ()) (Inr ()) [''s:1''] ^^ 7) (launched d) = p \<and> alive fixed_cdc list_bolt [''s:1''] d p \<and>
     ps_end (main_move (Inr ()) (\<lambda>_. Inr ()) (Inr ()) [''s:1''] p) = Some 0"
proof (rule demo_built)
  fix d :: "(bytes \<times> bytes) list Daemon"
  obtain d' where st: "daemon_Start (Inr ()) (\<lambda>_. Inr ()) [''s:1''] d = Some d'" by (simp add: daemon_Start_iff)
  from conjunct1 [OF main_runs [where create = "Inr ()" and join = "\<lambda>_. Inr ()" and seeds = "[''s:1'']" and d = d and watch = "Inr ()"
      and C = fixed_cdc and B = list_bolt]] st
  show ?thesis unfolding Let_def by blast
qed

section \<open>The windows for a panic\<close>

lemma message_panics:
  assumes "an_SourceNode ann \<noteq> dm_Name d" and "GetFileMeta B (dm_db d) (an_FileID ann) = Inl e" and "an_FileID ann \<notin> dm_syncing d"
    and "\<not> gn_list (dm_Gossip d)"
  shows "handleAnnouncement B members ann d = None"
  using assms by (simp add: handleAnnouncement_def triggerSync_def GetActivePeers_def Let_def)

text \<open>C35. Gossip can bring the process down at its start and at its end.  Let an announcement of another node tell of a file that
  is not in the index.  If it arrives after \<open>memberlist.Create\<close> has started to listen and before its result is stored in \<open>g.list\<close>, or
  is still being handled when the signal handler has reset that field, then the handler calls a method of a nil pointer.  So
  does the anti-entropy loop when its ticker is served then, which Go may prefer to the cancelled context, and the
  main goroutine itself when the signal arrives before it joins the seeds.  The process ends with status 2, and the
  index is not closed.  All these states are reached.\<close>

theorem panic_windows:
  assumes "an_SourceNode ann \<noteq> dm_Name d" and "GetFileMeta B (dm_db d) (an_FileID ann) = Inl e" and "an_FileID ann \<notin> dm_syncing d"
    and "\<not> gn_list (dm_Gossip d)"
  shows "(\<exists>p. alive C B seeds d p \<and> ps_sig p = SigWait \<and> ps_main p = InList \<and>
      (let q = handled (handleAnnouncement B members ann (ps_node p)) p in alive C B seeds d q \<and> ps_end q = Some 2 \<and> ps_open q)) \<and>
    (\<exists>p. alive C B seeds d p \<and> ps_sig p = SigGrpc \<and> ps_main p = InApi \<and>
      (let q = handled (handleAnnouncement B members ann (ps_node p)) p in alive C B seeds d q \<and> ps_end q = Some 2 \<and> ps_open q) \<and>
      (let q = ticked (antiEntropy_tick shuffle members (ps_node p)) p in alive C B seeds d q \<and> ps_end q = Some 2 \<and> ps_open q)) \<and>
    (seeds \<noteq> [] \<longrightarrow> (\<exists>p. alive C B seeds d p \<and> ps_sig p = SigGrpc \<and> ps_main p = InJoin \<and>
      (let q = main_move create join watch seeds p in alive C B seeds d q \<and> ps_end q = Some 2 \<and> ps_open q)))"
proof -
  let ?m = "main_move (Inr ()) (\<lambda>_. Inr ()) (Inr ()) seeds"
  let ?p = "\<lambda>n. (?m ^^ n) (launched d)" and ?s = "\<lambda>n. (signal_move ^^ 3) ((?m ^^ n) (launched d))"
  note steps = main_steps [where create = "Inr ()" and join = "\<lambda>_. Inr ()" and watch = "Inr ()" and seeds = seeds and d = d, simplified]
  have al: "alive C B seeds d (?p n)" if "n \<le> 7" for n using steps(4) that by (intro alive_run [OF launch main]) simp
  have p: "ps_sig (?p n) = SigWait" "ps_end (?p n) = None" if "n \<in> {3, 4, 7}" for n
    using that by (auto simp: steps(1-3))
  have s: "?s n = (?p n)\<lparr>ps_cancelled := True, ps_node := daemon_Stop (ps_node (?p n)), ps_sig := SigGrpc\<rparr> \<and> alive C B seeds d (?s n)"
    if "n \<in> {4, 7}" for n
    using that p [of n] al [of n] by (intro conjI signal_steps(1) signal_steps(3)) auto
  have s7: "alive C B seeds d (?s 7)" "ps_main (?s 7) = InApi \<and> ps_sig (?s 7) = SigGrpc"
      "ps_end (?s 7) = None" "ps_receiving (?s 7)" "ps_open (?s 7)" "\<exists>g. ps_node (?s 7) = d\<lparr>dm_Gossip := g\<rparr> \<and> \<not> gn_list g" "ps_loop (?s 7)"
    using conjunct2 [OF s [of 7]] unfolding conjunct1 [OF s [of 7], simplified]
    by (auto simp: steps(1-3) daemon_Stop_def gossip_Stop_def)
  have s4: "alive C B seeds d (?s 4)" "ps_main (?s 4) = InJoin \<and> ps_sig (?s 4) = SigGrpc" "ps_end (?s 4) = None" "ps_open (?s 4)"
      "\<not> gn_list (dm_Gossip (ps_node (?s 4)))"
    using conjunct2 [OF s [of 4]] unfolding conjunct1 [OF s [of 4], simplified]
    by (auto simp: steps(1,2) daemon_Stop_def gossip_Stop_def)
  have panics: "let q = handled (handleAnnouncement B members ann (ps_node p)) p in alive C B seeds d q \<and> ps_end q = Some 2 \<and> ps_open q"
    if "alive C B seeds d p" "ps_end p = None" "ps_receiving p" "ps_open p" "\<exists>g. ps_node p = d\<lparr>dm_Gossip := g\<rparr> \<and> \<not> gn_list g" for p
  proof -
    have "handleAnnouncement B members ann (ps_node p) = None" using that(5) assms(1-3) by (auto intro!: message_panics)
    with moved [OF that(1,2) message [OF that(3)], of members ann] that(4) show ?thesis by (simp add: handled_def Let_def)
  qed
  have "let q = handled (handleAnnouncement B members ann (ps_node (?p 3))) (?p 3) in alive C B seeds d q \<and> ps_end q = Some 2 \<and> ps_open q"
    using al [of 3] assms(4) by (intro panics) (auto simp: steps(1) OnAnnouncement_def)
  moreover have "let q = handled (handleAnnouncement B members ann (ps_node (?s 7))) (?s 7) in alive C B seeds d q \<and> ps_end q = Some 2 \<and> ps_open q"
    using s7(1,3-6) by (rule panics)
  moreover have "let q = ticked (antiEntropy_tick shuffle members (ps_node (?s 7))) (?s 7) in alive C B seeds d q \<and> ps_end q = Some 2 \<and> ps_open q"
  proof -
    have "antiEntropy_tick shuffle members (ps_node (?s 7)) = None" using s7(6) by (auto simp: antiEntropy_tick_def GetActivePeers_def)
    with moved [OF s7(1,3) tick [OF s7(7)], of shuffle members] s7(5) show ?thesis by (simp add: ticked_def Let_def)
  qed
  moreover have "let q = main_move create join watch seeds (?s 4) in alive C B seeds d q \<and> ps_end q = Some 2 \<and> ps_open q" if "seeds \<noteq> []"
    using moved [OF s4(1,3) main, of create join watch] that s4(2-5) by (simp add: Let_def main_move_def api_exits_def)
  moreover have "ps_sig (?p 3) = SigWait" "ps_main (?p 3) = InList" by (simp_all add: steps(1))
  ultimately show ?thesis using al [of 3] s7(1,2) s4(1,2) by (intro conjI impI exI [of _ "?p 3"] exI [of _ "?s 7"] exI [of _ "?s 4"]) simp_all
qed

theorem panic_windows_witness:
  "\<exists>(d :: (bytes \<times> bytes) list Daemon) p q. dm_Name d = ''n'' \<and> alive fixed_cdc list_bolt [''s:1''] d p \<and> ps_sig p = SigWait \<and> ps_main p = InList \<and>
     q = handled (handleAnnouncement list_bolt [] \<lparr>an_FileID = ''a'', an_MerkleRoot = zero32, an_LamportTS = 1, an_SourceNode = ''z''\<rparr> (ps_node p)) p \<and>
     ps_end q = Some 2 \<and> ps_open q"
proof (rule demo_built)
  fix f0 and d :: "(bytes \<times> bytes) list Daemon"
  let ?ann = "\<lparr>an_FileID = ''a'', an_MerkleRoot = zero32, an_LamportTS = 1, an_SourceNode = ''z''\<rparr>"
  assume d: "dm_Name d = ''n''" "dm_db d = []" "dm_syncing d = {}" "\<not> gn_list (dm_Gossip d)"
  have "an_SourceNode ?ann \<noteq> dm_Name d" "GetFileMeta list_bolt (dm_db d) (an_FileID ?ann) = Inl MetaNotFound" "an_FileID ?ann \<notin> dm_syncing d"
    using d(1-3) by (simp_all add: GetFileMeta_def list_bolt_def)
  from conjunct1 [OF panic_windows [OF this d(4), where C = fixed_cdc and seeds = "[''s:1'']" and members = "[]"]] d(1)
  show ?thesis unfolding Let_def by blast
qed

end
