(* ===== verification/Spec2Isabelle.thy ===== *)
theory Spec2Isabelle
  imports MainCmd PutRace Cluster Lifecycle
begin

text \<open>
  NuSync is a peer-to-peer daemon that keeps a directory in sync between nodes.  A node watches its directory; a changed
  file is cut into chunks, the chunks go into a content-addressed store, their hashes and Merkle root with a
  Lamport timestamp into an index, and an announcement goes out by gossip.  A node that hears of a newer version pulls it: over
  the control plane (gRPC) it asks which chunks differ and who has them, over the data plane (HTTP) it fetches
  metadata and chunks, rarest first, with one goroutine per chunk; it writes the file, saves the metadata and announces it in
  turn.  Anti-entropy compares catalogs with random peers to make up for lost announcements.  Requests on both planes carry
  an HMAC over a shared secret.

  \<^bold>\<open>Theories and sources\<close> (paths below \<^verbatim>\<open>src/\<close>).

  \<^item> The language and its library: \<open>Prelude\<close> (bytes, strings, \<^verbatim>\<open>[32]byte\<close>, results, locale \<open>codec\<close>), \<open>Sha256\<close>
    (\<^verbatim>\<open>crypto/sha256\<close>, \<^verbatim>\<open>crypto/hmac\<close>), \<open>GoCodec\<close> (hex, base64, strconv, strings), \<open>GoPath\<close> (\<^verbatim>\<open>path/filepath\<close>),
    \<open>GoOs\<close> (a file system with injected faults), \<open>GoFloat\<close> (float64 rounding), \<open>Json\<close> and \<open>JsonStruct\<close>
    (\<^verbatim>\<open>encoding/json\<close>).
  \<^item> \<open>Merkle\<close>: \<^verbatim>\<open>internal/merkle/tree.go\<close>; \<open>Chunker\<close>: \<^verbatim>\<open>internal/chunker/chunker.go\<close>; \<open>Cas\<close> and
    \<open>PutRace\<close>: \<^verbatim>\<open>internal/store/cas.go\<close>; \<open>MetaStore\<close>: \<^verbatim>\<open>internal/store/meta.go\<close>; \<open>Assembler\<close>:
    \<^verbatim>\<open>internal/assembler\<close>.
  \<^item> \<open>Auth\<close>: \<^verbatim>\<open>internal/auth\<close>; \<open>Control\<close>: \<^verbatim>\<open>internal/control\<close> and the stubs of
    \<^verbatim>\<open>proto/control_grpc.pb.go\<close>; \<open>Dataplane\<close>: \<^verbatim>\<open>internal/dataplane\<close>; \<open>Discovery\<close>: \<^verbatim>\<open>internal/discovery/gossip.go\<close>;
    \<open>Scheduler\<close>: \<^verbatim>\<open>internal/scheduler\<close>; \<open>Orchestrator\<close>: \<^verbatim>\<open>internal/orchestrator/sync.go\<close>.
  \<^item> \<open>Clock\<close>, \<open>Quiet\<close>, \<open>Daemon\<close>, \<open>Node\<close>: \<^verbatim>\<open>internal/daemon\<close> (clock and conflict rule; quiet set; constructor,
    handlers, local API and step relation; properties of the handlers); \<open>Watcher\<close>: \<^verbatim>\<open>internal/watcher/watcher.go\<close>;
    \<open>MainCmd\<close>: \<^verbatim>\<open>cmd/nusyncd/main.go\<close>.
  \<^item> \<open>Replica\<close>: an abstract specification of a node and the refinement; \<open>Sync\<close>: two nodes over the network; \<open>Cluster\<close>: nodes that
    compare catalogs, and pulls with several peers; \<open>Lifecycle\<close>: the process with its goroutines from start to exit (\<^verbatim>\<open>cmd/nusyncd/main.go\<close>,
    \<^verbatim>\<open>Daemon.Start\<close> and \<^verbatim>\<open>Stop\<close>, \<^verbatim>\<open>Server.Start\<close>, \<^verbatim>\<open>StartLocalAPI\<close>); this theory:
    a file on its way from one node to the other, and an edit that gets lost.

  \<^bold>\<open>Correspondence.\<close>  A definition has the name of the Go function or type it models (constructors of records carry a prefix, such as
  \<open>fm_\<close> for \<^verbatim>\<open>FileMeta\<close>; \<open>gossip_Start\<close>, \<open>daemon_Start\<close> and similar names tell equal method names apart).  Structs are
  records, unsigned integers are words of their width, errors are values on the left of a sum, and a function that may not
  return or that panics has result \<open>None\<close>.  What a method changes it takes and returns: the file system, the database, the node
  (record \<open>Daemon\<close>).  Clocks, random numbers, the outcomes of library calls and the order in which goroutines run are
  arguments.

  \<^bold>\<open>Concurrency.\<close>  Goroutines are explicit where their interleaving matters: the workers of a pull (\<open>run_workers\<close>), calls of the
  Lamport clock down to the compare-and-swap (\<open>run_clock\<close>), the timers and goroutines of the watcher (\<open>wstep\<close>), and concurrent
  \<open>Put\<close>s of one chunk down to the system call (\<open>put_race\<close>).  In the step relation of a node (\<open>dstep\<close>) a step is a whole handler
  or a whole pull, so \<open>Put\<close> is atomic there and in \<open>run_workers\<close>; \<open>concurrent_puts\<close> shows when that makes no difference in the
  end, and \<open>put_race_corrupts\<close> shows when it does.  The process (\<open>move\<close>) interleaves the statements of starting and stopping, the listeners, the
  signal handler and the anti-entropy loop with whole handlers.

  \<^bold>\<open>Parameters\<close>, with their documented behaviour as hypotheses where a statement needs it, and an instance that has it:
  the splitter of \<^verbatim>\<open>jotfs/fastcdc-go\<close> (\<open>fastcdc_spec\<close>, instance \<open>fixed_cdc\<close>), the database \<^verbatim>\<open>bbolt\<close> (\<open>bolt_spec\<close>, instance
  \<open>list_bolt\<close>), \<^verbatim>\<open>sort.Slice\<close> (\<open>sort_spec\<close>), \<^verbatim>\<open>memberlist\<close> (member list, outcome of create and join, choice of queued
  messages), \<^verbatim>\<open>fsnotify\<close> (events), the semaphore of \<^verbatim>\<open>x/sync\<close>, the gRPC transport (\<open>dial\<close>) and the HTTP
  transport (\<open>net\<close>), both of which may answer anything unless a hypothesis (\<open>peer_serves\<close>) says that a request reaches its node.

  \<^bold>\<open>Interfaces.\<close>  \<open>codec\<close> (what is encoded can be decoded; the encodings of \<open>GoCodec\<close>, JSON values, metadata, announcements, ports,
  flags), \<open>blob_store\<close> (what the other components rely on in \<open>Put\<close> and \<open>Get\<close>), \<open>signed_channel\<close> (HTTP and gRPC), \<open>lww\<close> (the
  conflict rule) and \<open>simulation\<close> (a node and its replica).

  \<^bold>\<open>What is shown.\<close>  Storage: a chunk read back hashes to its name, under any fault; the index and the assembled file are
  what was put in.  Splitting: \<open>chunk_file_wf\<close>.  Merkle tree: the loop is the tree, and the root binds the list up to
  collisions.  Authentication: exact time window and binding.  Planes: calls from end to end.  Pull: what it keeps and delivers whatever the
  peers, the disk and the schedule do, that it returns, and that it succeeds with a serving peer.  Clock: Lamport's condition
  under concurrent calls, and termination.  Watcher: no change is lost, and debouncing.  Node: the index is complete
  (\<open>daemon_index_complete\<close>) and every step is one of the specification (\<open>replica_refinement\<close>), both through crashes and
  restarts, and a change on one node
  becomes the same file on another and does not echo (\<open>sync_end_to_end\<close>).  Cluster: nodes that compare catalogs find every
  difference and only differences (\<open>catalogs_agree\<close>), and anti-entropy delivers a file whose announcement was lost
  (\<open>anti_entropy_end_to_end\<close>).  Process: in any interleaving, what its exit status means, that a signal ends it cleanly and that
  no handler panics in between (\<open>process_lifetime\<close>), and that the steps of the main goroutine are \<open>Start\<close> (\<open>main_runs\<close>).  The last group shows where the code does not do what it means
  to: ties, lost edits, missed changes, ignored errors, identifiers that are not escaped or lead out of the directory,
  pulls that the first peer decides, panics while gossip starts or stops.

  \<^bold>\<open>Fuel and bounds.\<close>  The JSON parser has the length of its input as fuel, which is enough (\<open>jval_fuel\<close>).  The loop of
  \<open>ChunkFile\<close> is a \<open>partial_function\<close>, and \<open>chunk_file_wf\<close> shows that it returns.  A pull returns once each worker has had a
  number of moves bounded by its peers (\<open>pull_returns\<close>), \<open>observeTS\<close> after a number bounded by the other calls (\<open>observe_returns\<close>), a
  \<open>Put\<close> after six, the signal handler after five.  Sizes are below \<open>2 ^ 63\<close> where the code converts to a signed integer.

  \<^bold>\<open>Not modelled\<close>: the sockets below the listeners and the timeouts of the servers; handlers that run between closing
  the index and the exit; a panic inside a request handler, which net/http recovers; the wire form of protobuf messages
  (\<^verbatim>\<open>proto/control.pb.go\<close>, generated); log output and the text of HTTP bodies of errors; two handlers of one node
  interleaved inside each other, other than above; symbolic links and permissions of the file
  system; the shell scripts and container files.
\<close>

section \<open>From a change on one node to the file on another\<close>

text \<open>C1. Two running nodes with the same secret: the first notices that a file has changed.  When the second hears the
  announcement and the first is the peer it knows, it starts a pull.  However the transfers are interleaved, once every
  worker has had two moves the pull ends with exactly the content of the file at the same place in the directory of the
  second node, the same metadata in its index, and a further announcement.  When its watcher then reports the file it has
  written itself, the node changes nothing: a pull does not echo.  This needs a reachable first node
  with its clock in step, room for the file, a name that is a clean relative path of bytes that are safe in a
  URL, and no SHA-256 collision among the pieces of the file and the chunks of the two nodes.\<close>

theorem sync_end_to_end:
  assumes "fastcdc_spec C" and "bolt_spec A live bucket" and "bolt_spec B live' bucket'" and "sort_spec srt"
    and "running C A live secret a" and "running C B live' secret b"
    and "readable (dm_fs a) path content" and "length content < 2 ^ 63" and "Ext path \<noteq> ''.db''"
    and "\<not> is_quiet_at (dm_quiet a) (t, path)" and "i = file_id a path" and "storable_id i" and "clean_id i"
    and "\<forall>x \<in> set i. query_safe x" and "HandleFileChange C A t path a = Some a'" and "dm_clock a' \<noteq> dm_clock a"
    and "dm_Name b \<noteq> dm_Name a" and "i \<notin> dm_syncing b" and "GetActivePeers (dm_Gossip b) members = Some [p]"
    and "\<forall>x y. GetFileMeta B (dm_db b) i = Inr x \<and> GetFileMeta A (dm_db a') i = Inr y \<longrightarrow> fm_MerkleRoot x \<noteq> fm_MerkleRoot y \<and>
      remoteWins (fm_LamportTS x) (dm_Name b) (fm_LamportTS y) (dm_Name a)"
    and "dm_tracker b (HTTPAddr p) = None" and "room_for b i"
    and "peer_serves dial net S partial sem clk A a' p now" and "clock_ok now"
    and "\<forall>ev \<in> set evs. clock_ok (ev_now ev)" and "\<forall>j < length content. 2 \<le> moves j evs"
    and "inj_on sha256 (pieces C (dm_fs a) path \<union> blobs a' \<union> blobs b)"
  shows "\<exists>m ann b1 b2. GetFileMeta A (dm_db a') i = Inr m \<and> dm_Gossip a' = Broadcast (dm_Gossip a) ann \<and>
    handleAnnouncement B members ann b = Some b1 \<and>
    finish_sync B dial net srt now [GRPCAddr p] evs (length (dm_pulls b)) b1 = Some b2 \<and>
    ents (dm_fs b2) (resolve (dm_fs b) (Join (dm_BaseDir b) i)) = Some (FFile content) \<and> GetFileMeta B (dm_db b2) i = Inr m \<and>
    i \<notin> dm_syncing b2 \<and> dm_Gossip b2 = Broadcast (dm_Gossip b) (ann\<lparr>an_SourceNode := dm_Name b\<rparr>) \<and>
    (\<forall>t'. rooted (dm_BaseDir b) \<and> readable (dm_fs b2) (Join (dm_BaseDir b) i) content \<longrightarrow>
      (\<exists>q. HandleFileChange C B t' (Join (dm_BaseDir b) i) b2 = Some (b2\<lparr>dm_quiet := q\<rparr>)))"
proof (rule change_noted [OF assms(1,2) running_ok(1) [OF assms(5,2)] assms(7,9,10) _ assms(15,16)])
  show "storable_id (file_id a path)" using assms(11,12) by simp
next
  fix cs m
  assume cs: "ChunkFile C (NewFastCDCChunker 8192) (dm_fs a) path = Some (Inr cs)" "concat (map ch_Data cs) = content"
      "length cs \<le> length content"
    and m: "GetFileMeta A (dm_db a') (file_id a path) = Inr m" "fm_FileID m = file_id a path"
      "fm_ChunkHashes m = map sha256 (map ch_Data cs)" "fm_SizeBytes m = word_of_nat (length content)"
    and ann: "dm_Gossip a' = Broadcast (dm_Gossip a) \<lparr>an_FileID = file_id a path, an_MerkleRoot = fm_MerkleRoot m,
      an_LamportTS = fm_LamportTS m, an_SourceNode = dm_Name a\<rparr>"
    and mr: "fm_MerkleRoot m = ComputeRoot cs"
  let ?ann = "\<lparr>an_FileID = i, an_MerkleRoot = fm_MerkleRoot m, an_LamportTS = fm_LamportTS m, an_SourceNode = dm_Name a\<rparr>"
  let ?b1 = "b\<lparr>dm_clock := observeTS (dm_clock b) (fm_LamportTS m), dm_syncing := insert i (dm_syncing b),
    dm_pulls := dm_pulls b @ [(i, [p])]\<rparr>"
  note m = m [folded assms(11)]
  have "valid_utf8 (file_id a path)" using assms(11,12) by (simp add: storable_id_def)
  then have "running C A live secret a'" using assms(5,15) by (intro stepped [OF assms(5)] file_changed)
  note a' = running_ok [OF this assms(2)]
  have hear: "handleAnnouncement B members ?ann b = Some ?b1"
    using announcement_pulls [of ?ann b members "[p]" B] assms(17-20) m(1) by simp
  then have "running C B live' secret ?b1" by (intro stepped [OF assms(6)] announced)
  note b1 = running_ok [OF this assms(3)]
  have new: "fm_MerkleRoot x \<noteq> fm_MerkleRoot m" if "GetFileMeta B (dm_db ?b1) i = Inr x" for x using assms(20) m(1) that by simp
  have "set (map ch_Data cs) \<subseteq> pieces C (dm_fs a) path" using cs(1) by (auto simp: pieces_def)
  then have inj: "inj_on sha256 (set (map ch_Data cs) \<union> blobs a' \<union> blobs ?b1)"
    by (intro inj_on_subset [OF assms(27)]) (auto simp: blobs_def)
  have rest: "dm_tracker ?b1 (HTTPAddr p) = None" "room_for ?b1 i" "\<forall>j < length (map ch_Data cs). 2 \<le> moves j evs"
    "length (concat (map ch_Data cs)) < 2 ^ 63" "fm_SizeBytes m = word_of_nat (length (concat (map ch_Data cs)))"
    "dm_pulls ?b1 ! length (dm_pulls b) = (i, [p])"
    using assms(8,21,22,26) cs(2,3) m(4) by (simp_all add: room_for_def)
  from pull_delivers [OF assms(23,24) a'(2,1) b1(2) assms(3) b1(1) assms(4) m(1,2) assms(12-14) new rest(1,2) assms(25) m(3) rest(3-5) inj rest(6)]
  obtain b2 where b2: "finish_sync B dial net srt now [GRPCAddr p] evs (length (dm_pulls b)) ?b1 = Some b2"
    "ents (dm_fs b2) (resolve (dm_fs b) (Join (dm_BaseDir b) i)) = Some (FFile content)" "GetFileMeta B (dm_db b2) i = Inr m"
    "i \<notin> dm_syncing b2" "dm_Gossip b2 = Broadcast (dm_Gossip b) (?ann\<lparr>an_SourceNode := dm_Name b\<rparr>)"
    using cs(2) by auto
  have "\<exists>q. HandleFileChange C B t' (Join (dm_BaseDir b) i) b2 = Some (b2\<lparr>dm_quiet := q\<rparr>)"
    if "rooted (dm_BaseDir b) \<and> readable (dm_fs b2) (Join (dm_BaseDir b) i) content" for t'
  proof -
    have "dm_BaseDir b2 = dm_BaseDir b" using finish_sync_frame(2) [OF b2(1)] by simp
    with that assms(13) file_id_joined [of b2 i] have "file_id b2 (Join (dm_BaseDir b) i) = i" by simp
    with echo_ignored [OF assms(7) cs(1) _ _ mr, of b2 "Join (dm_BaseDir b) i" B t'] that b2(3) show ?thesis by simp
  qed
  with m(1) ann [folded assms(11)] hear b2 show ?thesis by (intro exI [of _ m] exI [of _ ?ann] exI [of _ ?b1] exI [of _ b2]) simp
qed

theorem sync_end_to_end_witness:
  "\<exists>a a' b b1 b2 ann. running fixed_cdc list_bolt kv_sorted ''k'' a \<and> running fixed_cdc list_bolt kv_sorted ''k'' b \<and>
     HandleFileChange fixed_cdc list_bolt 0 ''/s/a'' a = Some a' \<and> dm_Gossip a' = Broadcast (dm_Gossip a) ann \<and>
     handleAnnouncement list_bolt [demo_member] ann b = Some b1 \<and>
     finish_sync list_bolt (demo_dial_to a' 4) (demo_net_to a') (sort_key peer_count) 4 [''h:2''] demo_evs 0 b1 = Some b2 \<and>
     ents (dm_fs b2) (resolve (dm_fs b) (Join ''/s'' ''a'')) = Some (FFile ''x'')"
proof (rule demo_source [where name = "''b''"])
  fix a a'
  assume a: "running fixed_cdc list_bolt kv_sorted ''k'' a" "dm_Name a = ''b''" "readable (dm_fs a) ''/s/a'' ''x''"
    "\<not> is_quiet_at (dm_quiet a) (0, ''/s/a'')" "file_id a ''/s/a'' = ''a''" "HandleFileChange fixed_cdc list_bolt 0 ''/s/a'' a = Some a'"
    "dm_clock a' \<noteq> dm_clock a" "pieces fixed_cdc (dm_fs a) ''/s/a'' \<subseteq> {''x''}" "blobs a' \<subseteq> {''x''}"
  show ?thesis
  proof (rule demo_node [where name = "''m''"])
    fix b
    assume b: "running fixed_cdc list_bolt kv_sorted ''k'' b" "dm_Name b = ''m''" "dm_BaseDir b = ''/s''" "dm_db b = []"
      "dm_tracker b = Map.empty" "gn_list (dm_Gossip b)" "gn_name (dm_Gossip b) = ''m''" "dm_pulls b = []" "dm_syncing b = {}"
      "\<And>p. no_file (dm_fs b) p" "ents (dm_fs b) [''s'', ''a''] = None"
    note free = demo_free [OF b(1,3,10,11)]
    have inj: "inj_on sha256 (pieces fixed_cdc (dm_fs a) ''/s/a'' \<union> blobs a' \<union> blobs b)" unfolding free(2)
      using a(8,9) by (intro inj_onI) blast
    have small: "length ''x'' < 2 ^ 63" by simp
    have ext: "Ext ''/s/a'' \<noteq> ''.db''" by code_simp
    have none: "\<forall>x y. GetFileMeta list_bolt (dm_db b) ''a'' = Inr x \<and> GetFileMeta list_bolt (dm_db a') ''a'' = Inr y \<longrightarrow>
        fm_MerkleRoot x \<noteq> fm_MerkleRoot y \<and> remoteWins (fm_LamportTS x) (dm_Name b) (fm_LamportTS y) (dm_Name a)" using b(4) by (simp add: GetFileMeta_def list_bolt_def)
    have rest: "dm_Name b \<noteq> dm_Name a" "''a'' \<notin> dm_syncing b" "dm_tracker b (HTTPAddr demo_peer) = None" using a(2) b(2,5,9) by simp_all
    note e = sync_end_to_end [OF fixed_cdc_spec list_bolt_spec list_bolt_spec sort_key_spec a(1) b(1) a(3) small ext a(4) a(5) [symmetric] demo_id
        a(6,7) rest(1,2) demo_members [OF b(6,7)] none rest(3) free(1) demo_peer_serves demo_evs(3,1,2) inj]
    obtain ann b1 b2 where "dm_Gossip a' = Broadcast (dm_Gossip a) ann"
      "handleAnnouncement list_bolt [demo_member] ann b = Some b1"
      "finish_sync list_bolt (demo_dial_to a' 4) (demo_net_to a') (sort_key peer_count) 4 [GRPCAddr demo_peer] demo_evs (length (dm_pulls b)) b1 = Some b2"
      "ents (dm_fs b2) (resolve (dm_fs b) (Join (dm_BaseDir b) ''a'')) = Some (FFile ''x'')"
      using e by (elim exE conjE)
    with a(1,6) b(1) show ?thesis unfolding b(3,8) demo_addrs list.size(3) by blast
  qed
qed

section \<open>An edit that is overtaken by the version it replaces\<close>

lemma Broadcast_peers: "GetActivePeers (Broadcast g ann) members = GetActivePeers g members"
  by (simp add: GetActivePeers_def Broadcast_queue split: option.split)

lemma triggerSync_clock: "triggerSync members i d = Some d' \<Longrightarrow> dm_clock d' = dm_clock d"
  by (auto simp: triggerSync_def split: if_splits option.splits)

text \<open>C33. Neither starting nor finishing a pull looks at the timestamp of the version it installs, and a restarted node
  begins at zero.  So the clock of a node can be behind its own index (after a pull on request of the local API, a pull of a
  version newer than the announced one, or a restart).  If the user then edits that file, the edit is indexed with a timestamp that loses against the version it
  replaces, and the next announcement of the replaced version starts a pull of it, which writes over the edit.\<close>

theorem edit_overtaken:
  assumes "fastcdc_spec C" and "bolt_spec B live bucket" and "daemon_inv B live b"
    and "readable (dm_fs b) path content" and "Ext path \<noteq> ''.db''" and "\<not> is_quiet_at (dm_quiet b) (t, path)"
    and "storable_id (file_id b path)" and "GetFileMeta B (dm_db b) (file_id b path) = Inr old"
    and "HandleFileChange C B t path b = Some b'" and "dm_clock b' \<noteq> dm_clock b"
    and "remoteWins (dm_clock b + 1) (dm_Name b) (fm_LamportTS old) src" and "src \<noteq> dm_Name b"
    and "file_id b path \<notin> dm_syncing b" and "GetActivePeers (dm_Gossip b) members = Some peers"
  shows "(\<exists>m b2. GetFileMeta B (dm_db b') (file_id b path) = Inr m \<and> fm_MerkleRoot m \<noteq> fm_MerkleRoot old \<and>
      handleAnnouncement B members \<lparr>an_FileID = file_id b path, an_MerkleRoot = fm_MerkleRoot old,
        an_LamportTS = fm_LamportTS old, an_SourceNode = src\<rparr> b' = Some b2 \<and>
      dm_pulls b2 = dm_pulls b @ [(file_id b path, peers)]) \<and>
    (NewDaemon B watch f now name syncDir dataDir httpPort grpcPort gossipPort secret = (f', Inr d) \<longrightarrow> dm_clock d = 0) \<and>
    (triggerSync ms j d = Some d' \<longrightarrow> dm_clock d' = dm_clock d) \<and>
    (finish_sync B dial net srt now order evs k d = Some d' \<longrightarrow> dm_clock d' = dm_clock d)"
proof (rule change_noted [OF assms(1-7,9,10)])
  fix cs m
  let ?ann = "\<lparr>an_FileID = file_id b path, an_MerkleRoot = fm_MerkleRoot old, an_LamportTS = fm_LamportTS old, an_SourceNode = src\<rparr>"
  assume m: "GetFileMeta B (dm_db b') (file_id b path) = Inr m" "fm_LamportTS m = dm_clock b + 1"
    and g: "dm_Gossip b' = Broadcast (dm_Gossip b) \<lparr>an_FileID = file_id b path, an_MerkleRoot = fm_MerkleRoot m,
      an_LamportTS = fm_LamportTS m, an_SourceNode = dm_Name b\<rparr>"
    and b': "dm_syncing b' = dm_syncing b \<and> dm_pulls b' = dm_pulls b \<and> dm_Name b' = dm_Name b"
    and new: "\<forall>x. GetFileMeta B (dm_db b) (file_id b path) = Inr x \<longrightarrow> fm_MerkleRoot x \<noteq> fm_MerkleRoot m"
  have r: "fm_MerkleRoot m \<noteq> fm_MerkleRoot old" using new assms(8) by metis
  have p: "GetActivePeers (dm_Gossip b') members = Some peers" using assms(14) by (simp add: g Broadcast_peers)
  have "handleAnnouncement B members ?ann b' = Some (b'\<lparr>dm_clock := observeTS (dm_clock b') (an_LamportTS ?ann),
      dm_syncing := insert (an_FileID ?ann) (dm_syncing b'), dm_pulls := dm_pulls b' @ [(an_FileID ?ann, peers)]\<rparr>)"
    using m r b' assms(11-13) by (intro announcement_pulls p) auto
  moreover have "dm_clock d = 0" if "NewDaemon B watch f now name syncDir dataDir httpPort grpcPort gossipPort secret = (f', Inr d)"
    using that by (rule NewDaemon_cases)
  ultimately show ?thesis using m(1) r b' finish_sync_frame(1) triggerSync_clock by auto
qed

theorem edit_overtaken_witness:
  "\<exists>b b' b2 old. GetFileMeta list_bolt (dm_db b) ''a'' = Inr old \<and> HandleFileChange fixed_cdc list_bolt 0 ''/s/a'' b = Some b' \<and>
     handleAnnouncement list_bolt [] \<lparr>an_FileID = ''a'', an_MerkleRoot = fm_MerkleRoot old, an_LamportTS = fm_LamportTS old,
       an_SourceNode = ''z''\<rparr> b' = Some b2 \<and> dm_pulls b2 = dm_pulls b @ [(''a'', [])]"
proof (rule demo_node [where name = "''m''"])
  fix d
  assume d: "running fixed_cdc list_bolt kv_sorted ''k'' d" "dm_Name d = ''m''" "dm_BaseDir d = ''/s''" "baseDir (dm_CAS d) = ''/d''"
    "dm_db d = []" "\<And>t path. \<not> is_quiet_at (dm_quiet d) (t, path)" "gn_list (dm_Gossip d)" "gn_name (dm_Gossip d) = ''m''"
    "dm_syncing d = {}" "dm_clock d = 0"
  let ?f = "fs_set (dm_fs d) [''s'', ''a''] (Some (FFile ''x''))"
  have inv: "daemon_inv list_bolt kv_sorted d" using running_ok(1) [OF d(1) list_bolt_spec] .
  note edit = demo_user_edit(1,2) [OF inv d(3,4), where x = "''x''"] demo_user_edit(3) [OF inv d(3,4)]
  obtain cs where cs: "ChunkFile fixed_cdc (NewFastCDCChunker 8192) ?f ''/s/a'' = Some (Inr cs)"
    using ChunkFile_spec [OF fixed_cdc_spec edit(2)] by blast
  obtain r where r: "r \<noteq> ComputeRoot cs" using other_root .
  let ?old = "\<lparr>fm_FileID = ''a'', fm_MerkleRoot = r, fm_LamportTS = 5, fm_ChunkHashes = [], fm_SizeBytes = 0\<rparr>"
  have sid: "storable_id (fm_FileID ?old)" by (simp add: storable_id_def)
  show ?thesis
  proof (rule PutFileMeta_spec [OF list_bolt_spec _ sid])
    show "kv_sorted (dm_db d)" using inv by (simp add: daemon_inv_def)
  next
    fix db
    assume db: "kv_sorted db" "\<And>i. GetFileMeta list_bolt db i = (if i = fm_FileID ?old then Inr ?old else GetFileMeta list_bolt (dm_db d) i)"
    let ?b = "d\<lparr>dm_fs := ?f, dm_db := db\<rparr>"
    have same: "same_data (dm_CAS d) (dm_fs d) ?f" using edit(1) by (simp add: user_change_def same_data_def)
    have old: "GetFileMeta list_bolt db ''a'' = Inr ?old" using db(2) by simp
    have "\<And>i m. GetFileMeta list_bolt db i = Inr m \<Longrightarrow> GetFileMeta list_bolt (dm_db d) i = Inr m \<or>
        (\<forall>h \<in> set (fm_ChunkHashes m). stored (dm_CAS d) ?f h \<noteq> None)" unfolding db(2) by (auto split: if_splits)
    then have binv: "daemon_inv list_bolt kv_sorted ?b"
      using same_data_keeps [OF same] inv db(1) by (intro daemon_inv_store [OF inv]) (auto simp: daemon_inv_def)
    have fid: "file_id ?b ''/s/a'' = ''a''" using edit(3) by (simp add: file_id_def)
    have rd: "readable (dm_fs ?b) ''/s/a'' ''x''" and nq: "\<not> is_quiet_at (dm_quiet ?b) (0, ''/s/a'')" and sid': "storable_id (file_id ?b ''/s/a'')"
      using edit(2) d(6) sid fid by simp_all
    have ext: "Ext ''/s/a'' \<noteq> ''.db''" by code_simp
    obtain b' where b': "HandleFileChange fixed_cdc list_bolt 0 ''/s/a'' ?b = Some b'" "dm_clock b' \<noteq> dm_clock ?b"
    proof (rule HandleFileChange_result [OF fixed_cdc_spec rd ext nq, where B = list_bolt])
      fix cs'
      assume c: "ChunkFile fixed_cdc (NewFastCDCChunker 8192) (dm_fs ?b) ''/s/a'' = Some (Inr cs')"
        "HandleFileChange fixed_cdc list_bolt 0 ''/s/a'' ?b = Some (let d1 = ?b\<lparr>dm_quiet := fst (IsQuiet (dm_quiet ?b) 0 ''/s/a'')\<rparr>
          in if unchanged list_bolt ?b (file_id ?b ''/s/a'') cs' then d1 else index_file list_bolt (file_id ?b ''/s/a'') cs' d1)"
      have "\<not> unchanged list_bolt ?b (file_id ?b ''/s/a'') cs'" unfolding fid using c(1) cs r old by (simp add: unchanged_def)
      with c(2) show thesis by (intro that) (auto simp: index_file_fields)
    qed
    have wins: "remoteWins (dm_clock ?b + 1) (dm_Name ?b) (fm_LamportTS ?old) ''z''" using d(10) by (simp add: remoteWins_def)
    have rest: "''z'' \<noteq> dm_Name ?b" "file_id ?b ''/s/a'' \<notin> dm_syncing ?b" "GetActivePeers (dm_Gossip ?b) [] = Some []"
      "GetFileMeta list_bolt (dm_db ?b) (file_id ?b ''/s/a'') = Inr ?old"
      using d(2,7,9) old fid by (simp_all add: GetActivePeers_def)
    from conjunct1 [OF edit_overtaken [OF fixed_cdc_spec list_bolt_spec binv rd ext nq sid' rest(4) b' wins rest(1-3)]]
    obtain b2 where "handleAnnouncement list_bolt [] \<lparr>an_FileID = ''a'', an_MerkleRoot = fm_MerkleRoot ?old,
        an_LamportTS = fm_LamportTS ?old, an_SourceNode = ''z''\<rparr> b' = Some b2" "dm_pulls b2 = dm_pulls ?b @ [(''a'', [])]"
      unfolding fid by blast
    with rest(4) b'(1) show ?thesis unfolding fid by blast
  qed
qed

end
